(* ===== verification/Prelude.thy ===== *)
theory Prelude
  imports Main "HOL-Library.Word" "HOL-Library.Multiset"
begin

text \<open>
  Shared vocabulary of the development: the outcome of a Rust call that may panic or
  stay pending, the \<open>?\<close> operator on results, the signed machine integers of the code
  with their wrap-around, decimal formatting, and generic lemmas on lists.

  Integers: an \<open>i64\<close> is an \<^typ>\<open>int\<close> in the range of \<open>in_i64\<close>; every addition or
  subtraction of the code on an \<open>i64\<close> goes through \<open>wrap_i64\<close>, which is the
  arithmetic of Rust's release profile (the debug profile panics exactly where
  \<open>wrap_i64\<close> changes the value).
\<close>

section \<open>Collections of facts\<close>

named_theorems run_simps \<open>evaluation of outcomes and results\<close>
named_theorems codec_simps \<open>facts about frames\<close>
named_theorems buffer_simps \<open>facts about the reordering buffer\<close>
named_theorems log_simps \<open>facts about persistence logs\<close>

section \<open>Outcomes and results\<close>

text \<open>
  What polling a future or calling a function can give: a value, a panic (\<open>unwrap\<close> on
  \<open>None\<close>), or, for a future, nothing yet.
\<close>

datatype 'a run = Ret 'a | Panic | Pending

fun run_bind :: "'a run \<Rightarrow> ('a \<Rightarrow> 'b run) \<Rightarrow> 'b run" where
  "run_bind (Ret x) f = f x"
| "run_bind Panic f = Panic"
| "run_bind Pending f = Pending"

lemma run_bind_Ret_iff [run_simps]: "run_bind r f = Ret y \<longleftrightarrow> (\<exists>x. r = Ret x \<and> f x = Ret y)"
  by (cases r) auto

lemma run_bind_Panic_iff [run_simps]:
  "run_bind r f = Panic \<longleftrightarrow> r = Panic \<or> (\<exists>x. r = Ret x \<and> f x = Panic)"
  by (cases r) auto

text \<open>\<open>Result<T, E>\<close> is \<open>'e + 'a\<close>; \<open>and_then\<close> is the \<open>?\<close> operator.\<close>

type_synonym ('e, 'a) result = "'e + 'a"

fun and_then :: "('e, 'a) result \<Rightarrow> ('a \<Rightarrow> ('e, 'b) result) \<Rightarrow> ('e, 'b) result" where
  "and_then (Inl e) f = Inl e"
| "and_then (Inr x) f = f x"

text \<open>\<open>Result::unwrap\<close> and \<open>assert!\<close>\<close>

fun unwrap :: "('e, 'a) result \<Rightarrow> 'a run" where
  "unwrap (Inr x) = Ret x"
| "unwrap (Inl e) = Panic"

definition assert_that :: "bool \<Rightarrow> unit run" where
  "assert_that b = (if b then Ret () else Panic)"

lemma unwrap_Ret [simp]: "unwrap r = Ret x \<longleftrightarrow> r = Inr x"
  by (cases r) auto

fun map_err :: "('e \<Rightarrow> 'f) \<Rightarrow> ('e, 'a) result \<Rightarrow> ('f, 'a) result" where
  "map_err g (Inl e) = Inl (g e)"
| "map_err g (Inr x) = Inr x"

fun ok_or :: "'e \<Rightarrow> 'a option \<Rightarrow> ('e, 'a) result" where
  "ok_or e None = Inl e"
| "ok_or e (Some x) = Inr x"

lemma and_then_Inr_iff [run_simps]: "and_then r f = Inr y \<longleftrightarrow> (\<exists>x. r = Inr x \<and> f x = Inr y)"
  by (cases r) auto

lemma map_err_Inr_iff [run_simps]: "map_err g r = Inr y \<longleftrightarrow> r = Inr y"
  by (cases r) auto

lemma ok_or_Inr_iff [run_simps]: "ok_or e r = Inr y \<longleftrightarrow> r = Some y"
  by (cases r) auto

section \<open>Signed machine integers\<close>

definition in_i64 :: "int \<Rightarrow> bool" where
  "in_i64 x \<longleftrightarrow> - (2 ^ 63) \<le> x \<and> x < 2 ^ 63"

definition wrap_i64 :: "int \<Rightarrow> int" where
  "wrap_i64 x = (x + 2 ^ 63) mod 2 ^ 64 - 2 ^ 63"

definition wrap_i32 :: "int \<Rightarrow> int" where
  "wrap_i32 x = (x + 2 ^ 31) mod 2 ^ 32 - 2 ^ 31"

lemma wrap_i64_id [simp]: "in_i64 x \<Longrightarrow> wrap_i64 x = x"
  by (simp add: in_i64_def wrap_i64_def)

lemma in_i64_wrap [simp, intro]: "in_i64 (wrap_i64 x)"
proof -
  have "0 \<le> (x + 2 ^ 63) mod 2 ^ 64" and "(x + 2 ^ 63) mod 2 ^ 64 < (2 :: int) ^ 64"
    by (rule pos_mod_sign, simp) (rule pos_mod_bound, simp)
  then show ?thesis by (simp add: in_i64_def wrap_i64_def)
qed

lemma in_i64_mono: "in_i64 a \<Longrightarrow> in_i64 c \<Longrightarrow> a \<le> b \<Longrightarrow> b \<le> c \<Longrightarrow> in_i64 b"
  by (simp add: in_i64_def)

lemma in_i64_0 [simp]: "in_i64 0"
  by (simp add: in_i64_def)

text \<open>The wrap-around is arithmetic modulo \<open>2 ^ 64\<close>: inner wraps can be dropped.\<close>

lemma wrap_i64_add_left [simp]: "wrap_i64 (wrap_i64 a + b) = wrap_i64 (a + b)"
proof -
  have "(a + 2 ^ 63) mod 2 ^ 64 - 2 ^ 63 + b + 2 ^ 63 = (a + 2 ^ 63) mod 2 ^ 64 + (b :: int)"
    by simp
  also have "\<dots> mod 2 ^ 64 = (a + 2 ^ 63 + b) mod 2 ^ 64" by (rule mod_add_left_eq)
  also have "a + 2 ^ 63 + b = a + b + 2 ^ 63" by simp
  finally show ?thesis unfolding wrap_i64_def by simp
qed

lemma wrap_i64_diff_left [simp]: "wrap_i64 (wrap_i64 a - b) = wrap_i64 (a - b)"
  using wrap_i64_add_left [of a "- b"] by simp

lemma wrap_i64_diff_right: "wrap_i64 (a - wrap_i64 b) = wrap_i64 (a - b)"
proof -
  have "\<exists>k. wrap_i64 b = b - k * 2 ^ 64"
    by (rule exI [of _ "(b + 2 ^ 63) div 2 ^ 64"])
      (simp add: wrap_i64_def minus_div_mult_eq_mod [symmetric])
  then obtain k where "wrap_i64 b = b - k * 2 ^ 64" ..
  then have "a - wrap_i64 b + 2 ^ 63 = (a - b + 2 ^ 63) + k * 2 ^ 64" by simp
  then show ?thesis by (simp only: wrap_i64_def mod_mult_self1)
qed

lemma wrap_i64_succ: "in_i64 x \<Longrightarrow> x < 2 ^ 63 - 1 \<Longrightarrow> wrap_i64 (x + 1) = x + 1"
  by (simp add: in_i64_def)

text \<open>Division and remainder of Rust truncate towards zero.\<close>

definition rust_div :: "int \<Rightarrow> int \<Rightarrow> int" where
  "rust_div a b = sgn a * sgn b * (\<bar>a\<bar> div \<bar>b\<bar>)"

definition rust_rem :: "int \<Rightarrow> int \<Rightarrow> int" where
  "rust_rem a b = a - b * rust_div a b"

lemma rust_div_nonneg: "0 \<le> a \<Longrightarrow> 0 < b \<Longrightarrow> rust_div a b = a div b"
  by (cases "a = 0") (auto simp: rust_div_def)

lemma rust_rem_nonneg: "0 \<le> a \<Longrightarrow> 0 < b \<Longrightarrow> rust_rem a b = a mod b"
  by (simp add: rust_rem_def rust_div_nonneg minus_mult_div_eq_mod)

lemma rust_rem_neg: "a < 0 \<Longrightarrow> 0 < b \<Longrightarrow> rust_rem a b = - ((- a) mod b)"
  by (simp add: rust_rem_def rust_div_def minus_div_mult_eq_mod [symmetric] algebra_simps)

section \<open>Orderings\<close>

text \<open>\<open>std::cmp::Ordering\<close>, \<open>Ord::cmp\<close> on integers and \<open>std::cmp::Reverse\<close>.\<close>

datatype ordering = Less | Equal | Greater

definition int_cmp :: "int \<Rightarrow> int \<Rightarrow> ordering" where
  "int_cmp a b = (if a < b then Less else if a = b then Equal else Greater)"

datatype 'a reverse = Reverse (unreverse: 'a)

fun reverse_cmp :: "('a \<Rightarrow> 'a \<Rightarrow> ordering) \<Rightarrow> 'a reverse \<Rightarrow> 'a reverse \<Rightarrow> ordering" where
  "reverse_cmp cmp (Reverse a) (Reverse b) = cmp b a"

instantiation reverse :: (linorder) linorder
begin

definition less_eq_reverse :: "'a reverse \<Rightarrow> 'a reverse \<Rightarrow> bool" where
  "less_eq_reverse a b \<longleftrightarrow> unreverse b \<le> unreverse a"

definition less_reverse :: "'a reverse \<Rightarrow> 'a reverse \<Rightarrow> bool" where
  "less_reverse a b \<longleftrightarrow> unreverse b < unreverse a"

instance
  by standard (auto simp: less_eq_reverse_def less_reverse_def reverse.expand)

end

lemma int_cmp_eq_iff [simp]:
  "int_cmp a b = Less \<longleftrightarrow> a < b" "int_cmp a b = Equal \<longleftrightarrow> a = b" "int_cmp a b = Greater \<longleftrightarrow> b < a"
  by (auto simp: int_cmp_def)

section \<open>Decimal formatting\<close>

text \<open>What \<open>format!\<close> prints for an integer argument.\<close>

definition digit_char :: "nat \<Rightarrow> char" where
  "digit_char d = char_of (48 + d)"

fun show_nat :: "nat \<Rightarrow> string" where
  "show_nat n = (if n < 10 then [digit_char n] else show_nat (n div 10) @ [digit_char (n mod 10)])"

declare show_nat.simps [simp del]

definition show_int :: "int \<Rightarrow> string" where
  "show_int i = (if i < 0 then CHR ''-'' # show_nat (nat (- i)) else show_nat (nat i))"

section \<open>Lists\<close>

definition swap :: "'a list \<Rightarrow> nat \<Rightarrow> nat \<Rightarrow> 'a list" where
  "swap xs i j = xs[i := xs ! j, j := xs ! i]"

lemma length_swap [simp]: "length (swap xs i j) = length xs"
  by (simp add: swap_def)

lemma mset_swap_at [simp]: "i < length xs \<Longrightarrow> j < length xs \<Longrightarrow> mset (swap xs i j) = mset xs"
  by (simp add: swap_def Multiset.mset_swap)

lemma nth_swap: "i < length xs \<Longrightarrow> j < length xs \<Longrightarrow> k < length xs \<Longrightarrow>
    swap xs i j ! k = (if k = j then xs ! i else if k = i then xs ! j else xs ! k)"
  by (simp add: swap_def nth_list_update)

lemma butlast_last_mset: "xs \<noteq> [] \<Longrightarrow> mset xs = add_mset (last xs) (mset (butlast xs))"
  by (metis add_mset_add_single append_butlast_last_id mset.simps mset_append)

end
