(* ===== verification/Proto.thy ===== *)
theory Proto
  imports Prelude
begin

text \<open>
  The messages of the wire protocol: \<open>generated/grapevine.rs\<close> (the structs prost derives
  from \<open>grapevine.proto\<close>), \<open>SequenceRequest\<close> of \<open>generated/recovery.rs\<close>, the order on raw
  messages of \<open>proto.rs\<close>, and the gRPC status that every fallible part of the crate
  reports.
\<close>

section \<open>Messages\<close>

type_synonym byte = "8 word"

text \<open>\<open>Heartbeat {}\<close> and \<open>Started {}\<close> have no fields; \<open>Delta\<close> carries the custom delta as bytes.\<close>

record delta =
  body :: "byte list"

datatype payload = Heartbeat | Started | Delta delta

record metadata =
  timestamp :: int
  sequence :: int

record raw_message =
  metadata :: metadata
  payload :: "payload option"

record sequence_request =
  sequence_id :: int

abbreviation msg_seq :: "raw_message \<Rightarrow> int" where
  "msg_seq m \<equiv> sequence (metadata m)"

abbreviation msg_ts :: "raw_message \<Rightarrow> int" where
  "msg_ts m \<equiv> timestamp (metadata m)"

text \<open>The type invariant of the two \<open>i64\<close> fields.\<close>

definition wf_raw :: "raw_message \<Rightarrow> bool" where
  "wf_raw m \<longleftrightarrow> in_i64 (msg_seq m) \<and> in_i64 (msg_ts m)"

section \<open>Order\<close>

definition raw_message_cmp :: "raw_message \<Rightarrow> raw_message \<Rightarrow> ordering" where
  "raw_message_cmp a b = int_cmp (msg_seq a) (msg_seq b)"

definition raw_message_partial_cmp :: "raw_message \<Rightarrow> raw_message \<Rightarrow> ordering option" where
  "raw_message_partial_cmp a b = Some (raw_message_cmp a b)"

section \<open>Status\<close>

text \<open>\<open>tonic::Status\<close>: a code and a message. Only these codes are produced by the crate.\<close>

datatype grpc_code = Internal | Unknown | Unimplemented

record status =
  code :: grpc_code
  message :: string

definition status_internal :: "string \<Rightarrow> status" where
  "status_internal s = \<lparr>code = Internal, message = s\<rparr>"

end
