(* ===== verification/Message.thy ===== *)
theory Message
  imports Proto
begin

text \<open>
  \<open>subscriber/message.rs\<close>: what the subscriber's stream delivers, where a message came
  from, and a received message with its order (that of the raw message).
\<close>

datatype 'd subscriber_stream_message = SDelta 'd | SStarted | SHeartbeat

text \<open>Batch sync, packet from the stream, single missing packet recovered over gRPC.\<close>

datatype origin = Sync | Udp | Missing

text \<open>\<open>DateTime<Utc>\<close> is the number of nanoseconds since the epoch.\<close>

type_synonym datetime = int

record received_message =
  recv_ts :: datetime
  origin :: origin
  raw :: raw_message

text \<open>\<open>ReceivedMessage::new\<close>; the first argument is what \<open>Utc::now()\<close> returns.\<close>

definition received_message_new :: "datetime \<Rightarrow> raw_message \<Rightarrow> origin \<Rightarrow> received_message" where
  "received_message_new now m org = \<lparr>recv_ts = now, origin = org, raw = m\<rparr>"

definition received_message_cmp :: "received_message \<Rightarrow> received_message \<Rightarrow> ordering" where
  "received_message_cmp a b = raw_message_cmp (raw a) (raw b)"

definition received_message_partial_cmp ::
  "received_message \<Rightarrow> received_message \<Rightarrow> ordering option" where
  "received_message_partial_cmp a b = Some (received_message_cmp a b)"

abbreviation recv_seq :: "received_message \<Rightarrow> int" where
  "recv_seq m \<equiv> msg_seq (raw m)"

lemma received_message_new_simps [simp]:
  "raw (received_message_new now m org) = m"
  "origin (received_message_new now m org) = org"
  "recv_ts (received_message_new now m org) = now"
  by (simp_all add: received_message_new_def)

text \<open>\<open>Ord::le\<close> on \<open>Reverse<ReceivedMessage>\<close>, the order of the subscriber's heap.\<close>

definition rev_le :: "received_message reverse \<Rightarrow> received_message reverse \<Rightarrow> bool" where
  "rev_le a b \<longleftrightarrow> reverse_cmp received_message_cmp a b \<noteq> Greater"

lemma rev_le_iff [buffer_simps]:
  "rev_le a b \<longleftrightarrow> recv_seq (unreverse b) \<le> recv_seq (unreverse a)"
  by (cases a; cases b) (auto simp: rev_le_def received_message_cmp_def raw_message_cmp_def)

end
