(* ===== verification/Std_Heap.thy ===== *)
theory Std_Heap
  imports Prelude
begin

text \<open>
  \<open>std::collections::BinaryHeap\<close> as the subscriber's reordering buffer uses it: the
  array-embedded max-heap of the standard library with \<open>push\<close> (sift up from the end)
  and \<open>pop\<close> (move the last element to the root, sift it to the bottom along the larger
  children, sift it up again), for an element order \<open>le\<close> (the element type's
  \<open>Ord::le\<close>). The locale \<open>priority_queue\<close> is the contract the code relies on;
  it is interpreted for the received messages in \<open>Min_Max_Heap\<close>.
\<close>

section \<open>Operations\<close>

text \<open>The index of the parent of node \<open>i\<close> in the array.\<close>

definition parent :: "nat \<Rightarrow> nat" where
  "parent i = (i - 1) div 2"

lemma parent_less: "0 < i \<Longrightarrow> parent i < i"
  by (simp add: parent_def)

lemma parent_eq_iff: "0 < i \<Longrightarrow> parent i = p \<longleftrightarrow> i = 2 * p + 1 \<or> i = 2 * p + 2"
  by (auto simp: parent_def)

function sift_up :: "('a \<Rightarrow> 'a \<Rightarrow> bool) \<Rightarrow> 'a list \<Rightarrow> nat \<Rightarrow> 'a list" where
  "sift_up le xs pos =
     (if pos = 0 then xs
      else if le (xs ! pos) (xs ! parent pos) then xs
      else sift_up le (swap xs pos (parent pos)) (parent pos))"
  by pat_completeness auto
termination
  by (relation "measure (\<lambda>(le, xs, pos). pos)") (auto simp: parent_less)

declare sift_up.simps [simp del]

function sift_down_to_bottom :: "('a \<Rightarrow> 'a \<Rightarrow> bool) \<Rightarrow> 'a list \<Rightarrow> nat \<Rightarrow> 'a list" where
  "sift_down_to_bottom le xs pos =
     (let child = 2 * pos + 1 in
      if child + 1 < length xs then
        let child = (if le (xs ! child) (xs ! (child + 1)) then child + 1 else child)
        in sift_down_to_bottom le (swap xs pos child) child
      else if child + 1 = length xs then sift_up le (swap xs pos child) child
      else sift_up le xs pos)"
  by pat_completeness auto
termination
  by (relation "measure (\<lambda>(le, xs, pos). length xs - pos)") auto

declare sift_down_to_bottom.simps [simp del]

definition bh_push :: "('a \<Rightarrow> 'a \<Rightarrow> bool) \<Rightarrow> 'a \<Rightarrow> 'a list \<Rightarrow> 'a list" where
  "bh_push le x xs = sift_up le (xs @ [x]) (length xs)"

definition bh_pop :: "('a \<Rightarrow> 'a \<Rightarrow> bool) \<Rightarrow> 'a list \<Rightarrow> ('a \<times> 'a list) option" where
  "bh_pop le xs =
     (if xs = [] then None
      else if butlast xs = [] then Some (last xs, [])
      else Some (hd xs, sift_down_to_bottom le ((butlast xs)[0 := last xs]) 0))"

definition bh_peek :: "'a list \<Rightarrow> 'a option" where
  "bh_peek xs = (case xs of [] \<Rightarrow> None | x # _ \<Rightarrow> Some x)"

section \<open>Contents\<close>

lemma mset_sift_up [simp]: "pos < length xs \<Longrightarrow> mset (sift_up le xs pos) = mset xs"
proof (induction le xs pos rule: sift_up.induct)
  case (1 le xs pos)
  show ?case
  proof (cases "pos = 0 \<or> le (xs ! pos) (xs ! parent pos)")
    case True
    then show ?thesis by (auto simp: sift_up.simps [of le xs pos])
  next
    case False
    then have "parent pos < length xs" using "1.prems" parent_less [of pos] by simp
    with False "1.IH" "1.prems" show ?thesis by (simp add: sift_up.simps [of le xs pos])
  qed
qed

lemma length_sift_up [simp]: "pos < length xs \<Longrightarrow> length (sift_up le xs pos) = length xs"
  by (metis mset_sift_up size_mset)

lemma mset_sift_down [simp]:
  "pos < length xs \<Longrightarrow> mset (sift_down_to_bottom le xs pos) = mset xs"
proof (induction le xs pos rule: sift_down_to_bottom.induct)
  case (1 le xs pos)
  show ?case
  proof (cases "2 * pos + 2 < length xs")
    case True
    with "1.IH" "1.prems" show ?thesis
      by (simp add: sift_down_to_bottom.simps [of le xs pos] Let_def)
  next
    case False
    with "1.prems" show ?thesis
      by (simp add: sift_down_to_bottom.simps [of le xs pos] Let_def)
  qed
qed

lemma length_sift_down [simp]:
  "pos < length xs \<Longrightarrow> length (sift_down_to_bottom le xs pos) = length xs"
  by (metis mset_sift_down size_mset)

lemma mset_bh_push: "mset (bh_push le x xs) = add_mset x (mset xs)"
  by (simp add: bh_push_def)

lemma mset_bh_pop:
  assumes "bh_pop le xs = Some (x, ys)"
  shows "mset xs = add_mset x (mset ys)"
proof (cases "butlast xs = []")
  case True
  with assms have "xs \<noteq> []" "x = last xs" "ys = []" by (auto simp: bh_pop_def split: if_splits)
  with True show ?thesis using butlast_last_mset [of xs] by simp
next
  case False
  with assms have ne: "xs \<noteq> []" and x: "x = hd xs"
    and ys: "ys = sift_down_to_bottom le ((butlast xs)[0 := last xs]) 0"
    by (auto simp: bh_pop_def split: if_splits)
  obtain b bs where bs: "butlast xs = b # bs" using False by (cases "butlast xs") auto
  then have "hd xs = b" by (metis append_butlast_last_id hd_append2 list.distinct(1) list.sel(1) ne)
  moreover have "mset xs = add_mset (last xs) (mset (b # bs))"
    using butlast_last_mset [OF ne] bs by simp
  ultimately show ?thesis using x ys bs by (simp add: add_mset_commute)
qed

section \<open>The heap property\<close>

text \<open>
  A heap: every node is below its parent. \<open>up_heap\<close> allows the edge from node \<open>p\<close>
  to its parent to be wrong, \<open>hole_heap\<close> also the edges from its children to \<open>p\<close>;
  in both the children of \<open>p\<close> are below the parent of \<open>p\<close>.
\<close>

definition is_heap :: "('a \<Rightarrow> 'a \<Rightarrow> bool) \<Rightarrow> 'a list \<Rightarrow> bool" where
  "is_heap le xs \<longleftrightarrow> (\<forall>i. 0 < i \<and> i < length xs \<longrightarrow> le (xs ! i) (xs ! parent i))"

definition grand_ok :: "('a \<Rightarrow> 'a \<Rightarrow> bool) \<Rightarrow> 'a list \<Rightarrow> nat \<Rightarrow> bool" where
  "grand_ok le xs p \<longleftrightarrow>
     (\<forall>i. 0 < i \<and> i < length xs \<and> parent i = p \<and> 0 < p \<longrightarrow> le (xs ! i) (xs ! parent p))"

definition up_heap :: "('a \<Rightarrow> 'a \<Rightarrow> bool) \<Rightarrow> 'a list \<Rightarrow> nat \<Rightarrow> bool" where
  "up_heap le xs p \<longleftrightarrow>
     (\<forall>i. 0 < i \<and> i < length xs \<and> i \<noteq> p \<longrightarrow> le (xs ! i) (xs ! parent i)) \<and> grand_ok le xs p"

definition hole_heap :: "('a \<Rightarrow> 'a \<Rightarrow> bool) \<Rightarrow> 'a list \<Rightarrow> nat \<Rightarrow> bool" where
  "hole_heap le xs p \<longleftrightarrow>
     (\<forall>i. 0 < i \<and> i < length xs \<and> i \<noteq> p \<and> parent i \<noteq> p \<longrightarrow> le (xs ! i) (xs ! parent i)) \<and>
     grand_ok le xs p"

locale total_preorder =
  fixes le :: "'a \<Rightarrow> 'a \<Rightarrow> bool"
  assumes le_trans: "le x y \<Longrightarrow> le y z \<Longrightarrow> le x z"
    and le_total: "le x y \<or> le y x"
begin

lemma le_refl: "le x x"
  using le_total by blast

lemma not_le: "\<not> le x y \<Longrightarrow> le y x"
  using le_total by blast

lemma up_heap_swap:
  assumes up: "up_heap le xs p" and len: "p < length xs" and pos: "0 < p"
    and nle: "\<not> le (xs ! p) (xs ! parent p)"
  shows "up_heap le (swap xs p (parent p)) (parent p)"
proof -
  let ?q = "parent p" and ?ys = "swap xs p (parent p)"
  have q: "?q < p" "?q < length xs" using parent_less [OF pos] len by auto
  have ys: "?ys ! k = (if k = ?q then xs ! p else if k = p then xs ! ?q else xs ! k)"
    if "k < length xs" for k
    using nth_swap [OF len q(2) that] .
  have old: "le (xs ! i) (xs ! parent i)" if "0 < i" "i < length xs" "i \<noteq> p" for i
    using up that by (simp add: up_heap_def)
  have edge: "le (?ys ! i) (?ys ! parent i)"
    if i: "0 < i" "i < length xs" "i \<noteq> ?q" for i
  proof -
    have pi: "parent i < i" "parent i < length xs" using parent_less [OF i(1)] i(2) by auto
    consider "i = p" | "i \<noteq> p" "parent i = p" | "i \<noteq> p" "parent i = ?q"
      | "i \<noteq> p" "parent i \<noteq> p" "parent i \<noteq> ?q" by blast
    then show ?thesis
    proof cases
      case 1
      then show ?thesis using not_le [OF nle] q ys len by simp
    next
      case 2
      then have "le (xs ! i) (xs ! ?q)" using up i pos by (auto simp: up_heap_def grand_ok_def)
      then show ?thesis using 2 i q ys len by simp
    next
      case 3
      then show ?thesis using old [OF i(1,2)] not_le [OF nle] i q ys by (auto intro: le_trans)
    next
      case 4
      then show ?thesis using old [OF i(1,2)] i pi ys by simp
    qed
  qed
  have "grand_ok le ?ys ?q"
    unfolding grand_ok_def
  proof (intro allI impI, elim conjE)
    fix i assume i: "0 < i" "i < length ?ys" "parent i = ?q" "0 < ?q"
    have pq: "parent ?q < ?q" using parent_less [OF i(4)] .
    have top: "le (xs ! ?q) (xs ! parent ?q)" using old [OF i(4)] q by simp
    have "i \<noteq> ?q" using i parent_less [OF i(1)] by auto
    have "le (?ys ! i) (xs ! parent ?q)"
    proof (cases "i = p")
      case True
      then show ?thesis using top q ys len by simp
    next
      case False
      then show ?thesis using old [OF i(1)] i top ys \<open>i \<noteq> ?q\<close> by (auto intro: le_trans)
    qed
    then show "le (?ys ! i) (?ys ! parent ?q)" using ys [of "parent ?q"] pq q by simp
  qed
  with edge show ?thesis by (simp add: up_heap_def)
qed

lemma sift_up_heap:
  "up_heap le xs pos \<Longrightarrow> pos < length xs \<Longrightarrow> is_heap le (sift_up le xs pos)"
proof (induction pos arbitrary: xs rule: less_induct)
  case (less pos)
  show ?case
  proof (cases "pos = 0 \<or> le (xs ! pos) (xs ! parent pos)")
    case True
    then have "is_heap le xs" using less.prems(1) by (auto simp: up_heap_def is_heap_def)
    with True show ?thesis by (auto simp: sift_up.simps [of le xs pos])
  next
    case False
    then have "parent pos < pos" using parent_less by simp
    with False less show ?thesis
      by (simp add: sift_up.simps [of le xs pos] up_heap_swap)
  qed
qed

lemma hole_heap_swap:
  assumes hole: "hole_heap le xs p" and c: "c < length xs" "0 < c" "parent c = p"
    and big: "\<And>i. 0 < i \<Longrightarrow> i < length xs \<Longrightarrow> parent i = p \<Longrightarrow> le (xs ! i) (xs ! c)"
  shows "hole_heap le (swap xs p c) c"
proof -
  let ?ys = "swap xs p c"
  have p: "p < c" "p < length xs" using parent_less [OF c(2)] c by auto
  have ys: "?ys ! k = (if k = c then xs ! p else if k = p then xs ! c else xs ! k)"
    if "k < length xs" for k
    using nth_swap [OF p(2) c(1) that] .
  have old: "le (xs ! i) (xs ! parent i)"
    if "0 < i" "i < length xs" "i \<noteq> p" "parent i \<noteq> p" for i
    using hole that by (simp add: hole_heap_def)
  have edge: "le (?ys ! i) (?ys ! parent i)"
    if i: "0 < i" "i < length xs" "i \<noteq> c" "parent i \<noteq> c" for i
  proof -
    have pi: "parent i < i" "parent i < length xs" using parent_less [OF i(1)] i(2) by auto
    consider "i = p" | "i \<noteq> p" "parent i = p" | "i \<noteq> p" "parent i \<noteq> p" by blast
    then show ?thesis
    proof cases
      case 1
      then have "le (xs ! c) (xs ! parent p)" using hole c i by (auto simp: hole_heap_def grand_ok_def)
      then show ?thesis using 1 i pi ys by simp
    next
      case 2
      then show ?thesis using big i pi ys by simp
    next
      case 3
      then show ?thesis using old i pi ys by simp
    qed
  qed
  have "grand_ok le ?ys c"
    unfolding grand_ok_def
  proof (intro allI impI, elim conjE)
    fix i assume i: "0 < i" "i < length ?ys" "parent i = c" "0 < c"
    then have "c < i" using parent_less [OF i(1)] by simp
    then have "le (xs ! i) (xs ! c)" using old [of i] i p by auto
    then show "le (?ys ! i) (?ys ! parent c)" using ys i p c \<open>c < i\<close> by simp
  qed
  with edge show ?thesis by (simp add: hole_heap_def)
qed

lemma hole_heap_leaf:
  assumes "hole_heap le xs p" "length xs \<le> 2 * p + 1"
  shows "up_heap le xs p"
proof -
  have "parent i \<noteq> p" if "0 < i" "i < length xs" for i
    using that assms(2) by (simp add: parent_eq_iff)
  then show ?thesis using assms(1) by (auto simp: hole_heap_def up_heap_def)
qed

lemma sift_down_heap:
  "hole_heap le xs pos \<Longrightarrow> pos < length xs \<Longrightarrow> is_heap le (sift_down_to_bottom le xs pos)"
proof (induction "length xs - pos" arbitrary: xs pos rule: less_induct)
  case less
  let ?c = "2 * pos + 1"
  note unfold = sift_down_to_bottom.simps [of le xs pos]
  consider "?c + 1 < length xs" | "?c + 1 = length xs" | "length xs \<le> ?c" by linarith
  then show ?case
  proof cases
    case 1
    define c where "c = (if le (xs ! ?c) (xs ! (?c + 1)) then ?c + 1 else ?c)"
    have c: "c < length xs" "0 < c" "parent c = pos" "pos < c"
      using 1 by (auto simp: c_def parent_def)
    have "hole_heap le (swap xs pos c) c"
    proof (rule hole_heap_swap [OF less.prems(1) c(1-3)])
      fix i assume "0 < i" "i < length xs" "parent i = pos"
      then show "le (xs ! i) (xs ! c)"
        using le_total le_refl by (auto simp: parent_eq_iff c_def)
    qed
    then have "is_heap le (sift_down_to_bottom le (swap xs pos c) c)"
      using less.hyps [of "swap xs pos c" c] c by simp
    moreover have "sift_down_to_bottom le xs pos = sift_down_to_bottom le (swap xs pos c) c"
      using 1 by (simp add: unfold c_def Let_def)
    ultimately show ?thesis by simp
  next
    case 2
    have "hole_heap le (swap xs pos ?c) ?c"
    proof (rule hole_heap_swap [OF less.prems(1)])
      fix i assume "0 < i" "i < length xs" "parent i = pos"
      then show "le (xs ! i) (xs ! ?c)" using 2 le_refl by (auto simp: parent_eq_iff)
    qed (use 2 in \<open>auto simp: parent_def\<close>)
    then have "up_heap le (swap xs pos ?c) ?c" using 2 by (intro hole_heap_leaf) auto
    then show ?thesis using 2 by (simp add: unfold Let_def sift_up_heap)
  next
    case 3
    then have "up_heap le xs pos" using less.prems by (intro hole_heap_leaf) auto
    with 3 less.prems show ?thesis by (simp add: unfold Let_def sift_up_heap)
  qed
qed

lemma bh_push_heap:
  assumes "is_heap le xs" shows "is_heap le (bh_push le x xs)"
proof -
  have "up_heap le (xs @ [x]) (length xs)"
    unfolding up_heap_def grand_ok_def
  proof (intro conjI allI impI)
    fix i assume i: "0 < i \<and> i < length (xs @ [x]) \<and> i \<noteq> length xs"
    then have "parent i < length xs" using parent_less [of i] by auto
    with i assms show "le ((xs @ [x]) ! i) ((xs @ [x]) ! parent i)"
      by (auto simp: is_heap_def nth_append)
  next
    fix i assume i: "0 < i \<and> i < length (xs @ [x]) \<and> parent i = length xs \<and> 0 < length xs"
    then show "le ((xs @ [x]) ! i) ((xs @ [x]) ! parent (length xs))"
      using parent_less [of i] by auto
  qed
  then show ?thesis by (simp add: bh_push_def sift_up_heap)
qed

lemma bh_pop_heap:
  assumes heap: "is_heap le xs" and pop: "bh_pop le xs = Some (x, ys)"
  shows "is_heap le ys"
proof (cases "butlast xs = []")
  case True
  with pop show ?thesis by (auto simp: bh_pop_def is_heap_def split: if_splits)
next
  case False
  let ?zs = "(butlast xs)[0 := last xs]"
  from False pop have ys: "ys = sift_down_to_bottom le ?zs 0"
    by (auto simp: bh_pop_def split: if_splits)
  have "hole_heap le ?zs 0"
    unfolding hole_heap_def grand_ok_def
  proof (intro conjI allI impI)
    fix i assume i: "0 < i \<and> i < length ?zs \<and> i \<noteq> 0 \<and> parent i \<noteq> 0"
    then have "parent i < i" using parent_less by simp
    with i heap show "le (?zs ! i) (?zs ! parent i)"
      by (auto simp: is_heap_def nth_butlast)
  qed simp
  moreover have "0 < length ?zs" using False by (cases "butlast xs") auto
  ultimately show ?thesis unfolding ys by (rule sift_down_heap)
qed

lemma heap_root_max:
  assumes "is_heap le xs" "i < length xs" shows "le (xs ! i) (xs ! 0)"
  using assms(2)
proof (induction i rule: less_induct)
  case (less i)
  show ?case
  proof (cases "i = 0")
    case True
    then show ?thesis by (simp add: le_refl)
  next
    case False
    then have "parent i < i" by (simp add: parent_less)
    then have "le (xs ! parent i) (xs ! 0)" using less by simp
    moreover have "le (xs ! i) (xs ! parent i)" using assms(1) False less.prems by (simp add: is_heap_def)
    ultimately show ?thesis by (blast intro: le_trans)
  qed
qed

lemma bh_peek_max: "is_heap le xs \<Longrightarrow> bh_peek xs = Some x \<Longrightarrow> y \<in> set xs \<Longrightarrow> le y x"
  using heap_root_max [of xs] by (fastforce simp: bh_peek_def in_set_conv_nth split: list.splits)

end

section \<open>The contract\<close>

lemma bh_peek_None: "bh_peek xs = None \<longleftrightarrow> mset xs = {#}"
  by (cases xs) (auto simp: bh_peek_def)

lemma bh_pop_None: "bh_pop le xs = None \<longleftrightarrow> mset xs = {#}"
  by (auto simp: bh_pop_def)

lemma bh_pop_peek:
  assumes "bh_pop le xs = Some (x, ys)" shows "bh_peek xs = Some x"
proof (cases xs)
  case Nil
  with assms show ?thesis by (simp add: bh_pop_def)
next
  case (Cons a as)
  with assms show ?thesis by (auto simp: bh_pop_def bh_peek_def split: if_splits)
qed

text \<open>
  What a priority queue promises: a push adds the element, a peek is a maximal element
  and is the element the next pop returns, a pop removes exactly that element.
\<close>

locale priority_queue = total_preorder le
  for le :: "'a \<Rightarrow> 'a \<Rightarrow> bool" +
  fixes push :: "'a \<Rightarrow> 'q \<Rightarrow> 'q"
    and pop :: "'q \<Rightarrow> ('a \<times> 'q) option"
    and peek :: "'q \<Rightarrow> 'a option"
    and items :: "'q \<Rightarrow> 'a multiset"
    and invar :: "'q \<Rightarrow> bool"
  assumes items_push: "items (push x q) = add_mset x (items q)"
    and invar_push: "invar q \<Longrightarrow> invar (push x q)"
    and pop_None: "pop q = None \<longleftrightarrow> items q = {#}"
    and items_pop: "pop q = Some (x, q') \<Longrightarrow> items q = add_mset x (items q')"
    and invar_pop: "invar q \<Longrightarrow> pop q = Some (x, q') \<Longrightarrow> invar q'"
    and peek_None: "peek q = None \<longleftrightarrow> items q = {#}"
    and peek_pop: "pop q = Some (x, q') \<Longrightarrow> peek q = Some x"
    and peek_max: "invar q \<Longrightarrow> peek q = Some x \<Longrightarrow> y \<in># items q \<Longrightarrow> le y x"
begin

lemma peek_member: "peek q = Some x \<Longrightarrow> x \<in># items q"
  by (metis items_pop option.distinct(1) option.inject peek_None peek_pop pop_None
      prod.exhaust union_single_eq_member option.exhaust)

lemma pop_after_peek: "peek q = Some x \<Longrightarrow> \<exists>q'. pop q = Some (x, q')"
  by (metis option.exhaust option.inject peek_None peek_pop pop_None prod.exhaust option.distinct(1))

text \<open>Two queues with the same contents agree on the maximum up to the order's equivalence.\<close>

lemma peek_equiv:
  assumes "invar q" "invar r" "items q = items r" "peek q = Some x" "peek r = Some y"
  shows "le x y \<and> le y x"
  using assms peek_max peek_member by metis

end

end
