(* ===== verification/Min_Max_Heap.thy ===== *)
theory Min_Max_Heap
  imports Message Std_Heap "HOL-Library.AList"
begin

text \<open>
  \<open>subscriber/min_max_heap.rs\<close>: the subscriber's buffer of messages that arrived too early,
  a min-heap by sequence with the largest sequence and the number of distinct sequences
  at hand, so that a gap is detected without walking the heap. The \<open>HashMap\<close> of counters
  is an association list with distinct keys (\<open>len\<close> is its length). The \<open>usize\<close> counters
  count elements in memory and are naturals; only the subtraction, which the code's
  invariant protects, is written with its wrap-around.
\<close>

section \<open>Operations\<close>

record min_max_heap =
  mm_heap :: "received_message reverse list"
  mm_max_id :: "int option"
  mm_counter :: "(int \<times> nat) list"

definition mm_new :: min_max_heap where
  "mm_new = \<lparr>mm_heap = [], mm_max_id = None, mm_counter = []\<rparr>"

definition mm_peek :: "min_max_heap \<Rightarrow> received_message reverse option" where
  "mm_peek h = bh_peek (mm_heap h)"

text \<open>The sequence of an element of the heap.\<close>

abbreviation rev_seq :: "received_message reverse \<Rightarrow> int" where
  "rev_seq r \<equiv> recv_seq (unreverse r)"

text \<open>\<open>*count -= 1\<close> on a \<open>usize\<close>, and the removal of a counter that reaches zero.\<close>

definition counter_decrement :: "int \<Rightarrow> (int \<times> nat) list \<Rightarrow> (int \<times> nat) list run" where
  "counter_decrement i cs =
     (case map_of cs i of
        None \<Rightarrow> Panic
      | Some c \<Rightarrow>
          let c' = (if c = 0 then 2 ^ 64 - 1 else c - 1)
          in Ret (if c' = 0 then AList.delete i cs else AList.update i c' cs))"

definition mm_pop :: "min_max_heap \<Rightarrow> (received_message reverse option \<times> min_max_heap) run" where
  "mm_pop h =
     (case bh_pop rev_le (mm_heap h) of
        None \<Rightarrow> Ret (None, h\<lparr>mm_max_id := None\<rparr>)
      | Some (msg, rest) \<Rightarrow>
          let h1 = h\<lparr>mm_heap := rest\<rparr>;
              h2 = (if length (mm_heap h1) = 0 then h1\<lparr>mm_max_id := None\<rparr> else h1)
          in (case counter_decrement (rev_seq msg) (mm_counter h2) of
                Ret cs \<Rightarrow> Ret (Some msg, h2\<lparr>mm_counter := cs\<rparr>)
              | Panic \<Rightarrow> Panic
              | Pending \<Rightarrow> Pending))"

definition mm_push :: "received_message reverse \<Rightarrow> min_max_heap \<Rightarrow> min_max_heap" where
  "mm_push v h =
     (let i = rev_seq v;
          h1 = h\<lparr>mm_max_id := (case mm_max_id h of Some m \<Rightarrow> Some (max i m) | None \<Rightarrow> Some i)\<rparr>;
          h2 = h1\<lparr>mm_counter :=
            (case map_of (mm_counter h1) i of
               Some c \<Rightarrow> AList.update i (c + 1) (mm_counter h1)
             | None \<Rightarrow> AList.update i 1 (mm_counter h1))\<rparr>
      in h2\<lparr>mm_heap := bh_push rev_le v (mm_heap h2)\<rparr>)"

definition mm_clear :: "min_max_heap \<Rightarrow> min_max_heap" where
  "mm_clear h = h\<lparr>mm_heap := [], mm_counter := [], mm_max_id := None\<rparr>"

text \<open>\<open>max_id - min_id + 1 - (uniq as i64)\<close>, evaluated from left to right on \<open>i64\<close>.\<close>

definition mm_count_missing :: "min_max_heap \<Rightarrow> int run" where
  "mm_count_missing h =
     (case mm_max_id h of
        None \<Rightarrow> Ret 0
      | Some max_id \<Rightarrow>
          (case mm_peek h of
             None \<Rightarrow> Panic
           | Some msg \<Rightarrow>
               let min_id = rev_seq msg; uniq = length (mm_counter h)
               in Ret (wrap_i64 (wrap_i64 (wrap_i64 (max_id - min_id) + 1)
                    - wrap_i64 (int uniq)))))"

definition mm_has_gaps :: "min_max_heap \<Rightarrow> bool run" where
  "mm_has_gaps h =
     (case mm_count_missing h of Ret n \<Rightarrow> Ret (n > 0) | Panic \<Rightarrow> Panic | Pending \<Rightarrow> Pending)"

section \<open>The standard library's heap is a priority queue on received messages\<close>

interpretation rev_order: total_preorder rev_le
  by unfold_locales (auto simp: buffer_simps)

interpretation bh: priority_queue rev_le "bh_push rev_le" "bh_pop rev_le" bh_peek mset "is_heap rev_le"
proof unfold_locales
  show "mset (bh_push rev_le x q) = add_mset x (mset q)" for x q
    by (rule mset_bh_push)
  show "is_heap rev_le q \<Longrightarrow> is_heap rev_le (bh_push rev_le x q)" for x q
    by (rule rev_order.bh_push_heap)
  show "is_heap rev_le q \<Longrightarrow> bh_pop rev_le q = Some (x, q') \<Longrightarrow> is_heap rev_le q'" for x q q'
    by (rule rev_order.bh_pop_heap)
  show "is_heap rev_le q \<Longrightarrow> bh_peek q = Some x \<Longrightarrow> y \<in># mset q \<Longrightarrow> rev_le y x" for q x y
    by (auto intro: rev_order.bh_peek_max)
qed (auto simp: bh_pop_None bh_peek_None mset_bh_pop bh_pop_peek)

section \<open>The invariant\<close>

text \<open>The multiset of sequences in the heap.\<close>

definition mm_ids :: "min_max_heap \<Rightarrow> int multiset" where
  "mm_ids h = image_mset rev_seq (mset (mm_heap h))"

definition mm_items :: "min_max_heap \<Rightarrow> received_message multiset" where
  "mm_items h = image_mset unreverse (mset (mm_heap h))"

definition counter_ok :: "int multiset \<Rightarrow> (int \<times> nat) list \<Rightarrow> bool" where
  "counter_ok ids cs \<longleftrightarrow> distinct (map fst cs) \<and>
     (\<forall>i. map_of cs i = (if i \<in># ids then Some (count ids i) else None))"

definition mm_inv :: "min_max_heap \<Rightarrow> bool" where
  "mm_inv h \<longleftrightarrow> is_heap rev_le (mm_heap h) \<and>
     mm_max_id h = (if mm_heap h = [] then None else Some (Max (set_mset (mm_ids h)))) \<and>
     counter_ok (mm_ids h) (mm_counter h)"

lemma mm_ids_items: "mm_ids h = image_mset recv_seq (mm_items h)"
  by (simp add: mm_ids_def mm_items_def image_mset.compositionality comp_def)

lemma counter_ok_insert:
  assumes "counter_ok ids cs"
  shows "counter_ok (add_mset i ids)
    (case map_of cs i of Some c \<Rightarrow> AList.update i (c + 1) cs | None \<Rightarrow> AList.update i 1 cs)"
  using assms by (auto simp: counter_ok_def update_conv' distinct_update not_in_iff split: option.splits)

lemma counter_ok_decrement:
  assumes "counter_ok (add_mset i ids) cs"
  shows "\<exists>cs'. counter_decrement i cs = Ret cs' \<and> counter_ok ids cs'"
proof -
  from assms have c: "map_of cs i = Some (Suc (count ids i))" and d: "distinct (map fst cs)"
    and other: "\<And>j. j \<noteq> i \<Longrightarrow> map_of cs j = (if j \<in># ids then Some (count ids j) else None)"
    by (auto simp: counter_ok_def)
  show ?thesis
  proof (cases "count ids i = 0")
    case True
    then have "counter_decrement i cs = Ret (AList.delete i cs)"
      using c True by (simp add: counter_decrement_def Let_def)
    moreover have "counter_ok ids (AList.delete i cs)"
      using True other d by (auto simp: counter_ok_def delete_conv' distinct_delete count_eq_zero_iff)
    ultimately show ?thesis by blast
  next
    case False
    then have "counter_decrement i cs = Ret (AList.update i (count ids i) cs)"
      using c False by (simp add: counter_decrement_def Let_def count_eq_zero_iff)
    moreover have "counter_ok ids (AList.update i (count ids i) cs)"
      using False other d by (auto simp: counter_ok_def update_conv' distinct_update count_eq_zero_iff)
    ultimately show ?thesis by blast
  qed
qed

lemma mm_inv_new [simp, intro]: "mm_inv mm_new"
  by (simp add: mm_inv_def mm_new_def is_heap_def counter_ok_def mm_ids_def)

lemma mm_items_new [simp]: "mm_items mm_new = {#}"
  by (simp add: mm_items_def mm_new_def)

lemma mm_inv_clear [intro]: "mm_inv (mm_clear h)"
  by (simp add: mm_inv_def mm_clear_def is_heap_def counter_ok_def mm_ids_def)

lemma mm_items_clear: "mm_items (mm_clear h) = {#}"
  by (simp add: mm_items_def mm_clear_def)

lemma mm_items_push [buffer_simps]: "mm_items (mm_push v h) = add_mset (unreverse v) (mm_items h)"
  by (simp add: mm_items_def mm_push_def Let_def bh.items_push)

lemma mm_ids_push: "mm_ids (mm_push v h) = add_mset (rev_seq v) (mm_ids h)"
  by (simp add: mm_ids_def mm_push_def Let_def bh.items_push)

lemma mm_counter_push: "mm_counter (mm_push v h) =
    (case map_of (mm_counter h) (rev_seq v) of
       Some c \<Rightarrow> AList.update (rev_seq v) (c + 1) (mm_counter h)
     | None \<Rightarrow> AList.update (rev_seq v) 1 (mm_counter h))"
  by (simp add: mm_push_def Let_def split: option.split)

lemma mm_heap_Nil_iff: "mm_heap h = [] \<longleftrightarrow> mm_items h = {#}"
  by (simp add: mm_items_def)

lemma mm_inv_push:
  assumes "mm_inv h" shows "mm_inv (mm_push v h)"
proof -
  have ids: "mm_ids (mm_push v h) = add_mset (rev_seq v) (mm_ids h)" by (rule mm_ids_push)
  have "is_heap rev_le (mm_heap (mm_push v h))"
    using assms by (simp add: mm_push_def Let_def mm_inv_def bh.invar_push)
  moreover have "counter_ok (mm_ids (mm_push v h)) (mm_counter (mm_push v h))"
    unfolding ids mm_counter_push using assms
    by (intro counter_ok_insert) (simp add: mm_inv_def)
  moreover have "mm_max_id (mm_push v h) = Some (Max (set_mset (mm_ids (mm_push v h))))"
    unfolding ids using assms
    by (auto simp: mm_push_def Let_def mm_inv_def mm_ids_def Max_insert split: if_splits)
  moreover have "mm_heap (mm_push v h) \<noteq> []"
    by (simp add: mm_heap_Nil_iff buffer_simps)
  ultimately show ?thesis by (simp add: mm_inv_def)
qed

lemma mm_peek_None [buffer_simps]: "mm_peek h = None \<longleftrightarrow> mm_items h = {#}"
  by (simp add: mm_peek_def bh.peek_None mm_items_def)

lemma mm_peek_min:
  assumes "mm_inv h" "mm_peek h = Some r"
  shows "unreverse r \<in># mm_items h" and "\<And>m. m \<in># mm_items h \<Longrightarrow> rev_seq r \<le> recv_seq m"
proof -
  show "unreverse r \<in># mm_items h"
    using assms(2) bh.peek_member by (auto simp: mm_peek_def mm_items_def)
  show "rev_seq r \<le> recv_seq m" if "m \<in># mm_items h" for m
    using that assms bh.peek_max [of "mm_heap h" r]
    by (auto simp: mm_inv_def mm_peek_def mm_items_def rev_le_iff)
qed

text \<open>A pop of a buffer in good order never hits the counter's \<open>unwrap\<close>.\<close>

lemma mm_pop_Some:
  assumes inv: "mm_inv h" and peek: "mm_peek h = Some r"
  shows "\<exists>h'. mm_pop h = Ret (Some r, h') \<and> mm_inv h' \<and>
    mm_items h = add_mset (unreverse r) (mm_items h')"
proof -
  obtain rest where pop: "bh_pop rev_le (mm_heap h) = Some (r, rest)"
    using peek bh.pop_after_peek by (auto simp: mm_peek_def)
  have items: "mset (mm_heap h) = add_mset r (mset rest)" using pop by (rule bh.items_pop)
  define h2 where "h2 = (if length rest = 0 then h\<lparr>mm_heap := rest, mm_max_id := None\<rparr> else h\<lparr>mm_heap := rest\<rparr>)"
  have h2: "mm_heap h2 = rest" "mm_counter h2 = mm_counter h" by (simp_all add: h2_def)
  have ids: "mm_ids h = add_mset (rev_seq r) (mm_ids h2)" by (simp add: mm_ids_def items h2)
  obtain cs where cs: "counter_decrement (rev_seq r) (mm_counter h2) = Ret cs"
    and ok: "counter_ok (mm_ids h2) cs"
    using counter_ok_decrement [of "rev_seq r" "mm_ids h2" "mm_counter h2"] inv ids h2
    by (auto simp: mm_inv_def)
  let ?h' = "h2\<lparr>mm_counter := cs\<rparr>"
  have "mm_pop h = Ret (Some r, ?h')" using pop cs by (simp add: mm_pop_def h2_def)
  moreover have "mm_items h = add_mset (unreverse r) (mm_items ?h')"
    by (simp add: mm_items_def items h2)
  moreover have "mm_inv ?h'"
  proof -
    have "is_heap rev_le rest" using inv pop bh.invar_pop by (auto simp: mm_inv_def)
    moreover have "mm_ids ?h' = mm_ids h2" by (simp add: mm_ids_def)
    moreover have "mm_max_id h2 = Some (Max (set_mset (mm_ids h2)))" if ne: "rest \<noteq> []"
    proof -
      obtain x where x: "x \<in># mset rest" using ne by (cases rest) auto
      have "rev_seq r \<le> rev_seq x"
        using mm_peek_min(2) [OF inv peek, of "unreverse x"] x by (simp add: mm_items_def items)
      also have "rev_seq x \<le> Max (set_mset (mm_ids h2))" using x by (simp add: mm_ids_def h2)
      finally have "rev_seq r \<le> Max (set_mset (mm_ids h2))" .
      moreover have "mm_ids h2 \<noteq> {#}" using ne by (simp add: mm_ids_def h2)
      ultimately have "Max (set_mset (mm_ids h)) = Max (set_mset (mm_ids h2))"
        by (simp add: ids max_def)
      then show ?thesis using inv items ne by (auto simp: mm_inv_def h2_def)
    qed
    moreover have "mm_max_id h2 = None" if "rest = []" using that by (simp add: h2_def)
    ultimately show ?thesis using ok h2 by (simp add: mm_inv_def)
  qed
  ultimately show ?thesis by blast
qed

lemma mm_pop_None: "mm_inv h \<Longrightarrow> mm_items h = {#} \<Longrightarrow> mm_pop h = Ret (None, h)"
  by (simp add: mm_pop_def mm_items_def mm_inv_def bh_pop_def)

lemma mm_pop_shrinks:
  assumes "mm_pop h = Ret (Some r, h')"
  shows "length (mm_heap h') < length (mm_heap h)"
proof -
  from assms obtain rest where pop: "bh_pop rev_le (mm_heap h) = Some (r, rest)"
    and heap: "mm_heap h' = rest"
    by (auto simp: mm_pop_def Let_def split: option.splits run.splits if_splits)
  have "size (mset (mm_heap h)) = Suc (size (mset rest))"
    using bh.items_pop [OF pop] by simp
  then show ?thesis by (simp add: heap)
qed

section \<open>Gaps\<close>

lemma counter_length:
  assumes "counter_ok ids cs" shows "length cs = card (set_mset ids)"
proof -
  have "set (map fst cs) = set_mset ids"
    using assms by (auto simp: counter_ok_def dom_map_of_conv_image_fst [symmetric] dom_def split: if_splits)
  then show ?thesis using assms distinct_card [of "map fst cs"] by (simp add: counter_ok_def)
qed

lemma card_missing:
  assumes "S \<noteq> {}" "finite S"
  shows "int (card ({Min S..Max S} - S)) = Max S - Min S + 1 - int (card (S :: int set))"
proof -
  have sub: "S \<subseteq> {Min S..Max S}" and le: "Min S \<le> Max S" using assms by auto
  have "card ({Min S..Max S} - S) = card {Min S..Max S} - card S"
    using sub assms by (simp add: card_Diff_subset)
  moreover have "card S \<le> card {Min S..Max S}" by (rule card_mono [OF finite_atLeastAtMost_int sub])
  ultimately show ?thesis using le by simp
qed

lemma card_Diff_pos: "finite A \<Longrightarrow> 0 < card (A - S) \<longleftrightarrow> (\<exists>j. j \<in> A \<and> j \<notin> S)"
  by (auto simp: card_gt_0_iff)

text \<open>
  The number of missing sequences, computed on \<open>i64\<close> from the extremes and the number
  of counters, is the size of the set of sequences between the extremes that are absent,
  as long as the distance of the extremes fits an \<open>i64\<close>.
\<close>

lemma mm_count_missing_card:
  assumes inv: "mm_inv h" and ne: "mm_ids h \<noteq> {#}"
    and fits: "in_i64 (Max (set_mset (mm_ids h)) - Min (set_mset (mm_ids h)))"
  shows "mm_count_missing h =
    Ret (int (card ({Min (set_mset (mm_ids h))..Max (set_mset (mm_ids h))} - set_mset (mm_ids h))))"
proof -
  let ?S = "set_mset (mm_ids h)"
  obtain r where r: "mm_peek h = Some r"
    using ne mm_peek_None by (cases "mm_peek h") (auto simp: mm_ids_items)
  have min: "rev_seq r = Min ?S"
    using mm_peek_min [OF inv r] by (intro Min_eqI [symmetric]) (auto simp: mm_ids_items)
  have max: "mm_max_id h = Some (Max ?S)"
    using inv ne by (auto simp: mm_inv_def mm_ids_def)
  have len: "length (mm_counter h) = card ?S" using inv by (simp add: mm_inv_def counter_length)
  have S: "?S \<noteq> {}" "finite ?S" using ne by auto
  then have "Min ?S \<le> Max ?S" by simp
  moreover have "0 < card ?S" using S by (simp add: card_gt_0_iff)
  moreover have "0 \<le> Max ?S - Min ?S + 1 - int (card ?S)" using card_missing [OF S] by linarith
  ultimately have "in_i64 (Max ?S - Min ?S + 1 - int (card ?S))"
    using fits by (auto simp: in_i64_def)
  moreover have "wrap_i64 (Max ?S - Min ?S + 1 - wrap_i64 (int (card ?S)))
      = wrap_i64 (Max ?S - Min ?S + 1 - int (card ?S))"
    using wrap_i64_diff_right [of "Max ?S - Min ?S + 1" "int (card ?S)"] by simp
  ultimately show ?thesis
    using max r min len card_missing [OF S]
    by (simp add: mm_count_missing_def Let_def)
qed

lemma mm_has_gaps_iff:
  assumes inv: "mm_inv h" and fits: "\<And>i j. i \<in># mm_ids h \<Longrightarrow> j \<in># mm_ids h \<Longrightarrow> in_i64 (i - j)"
  shows "\<exists>b. mm_has_gaps h = Ret b \<and>
    (b \<longleftrightarrow> (\<exists>i j k. i \<in># mm_ids h \<and> k \<in># mm_ids h \<and> i < j \<and> j < k \<and> j \<notin># mm_ids h))"
proof (cases "mm_ids h = {#}")
  case True
  then have "mm_has_gaps h = Ret False"
    using inv by (simp add: mm_has_gaps_def mm_count_missing_def mm_inv_def mm_ids_def)
  with True show ?thesis by auto
next
  case False
  let ?S = "set_mset (mm_ids h)"
  have S: "?S \<noteq> {}" "finite ?S" using False by auto
  have fit: "in_i64 (Max ?S - Min ?S)" using fits [of "Max ?S" "Min ?S"] S by simp
  have "mm_has_gaps h = Ret (0 < card ({Min ?S..Max ?S} - ?S))"
    by (simp add: mm_has_gaps_def mm_count_missing_card [OF inv False fit])
  moreover have "0 < card ({Min ?S..Max ?S} - ?S) \<longleftrightarrow> (\<exists>j. Min ?S \<le> j \<and> j \<le> Max ?S \<and> j \<notin> ?S)"
    using card_Diff_pos [OF finite_atLeastAtMost_int, of "Min ?S" "Max ?S" ?S]
    by (simp only: atLeastAtMost_iff conj_assoc)
  moreover have "(\<exists>j. Min ?S \<le> j \<and> j \<le> Max ?S \<and> j \<notin> ?S) \<longleftrightarrow>
      (\<exists>i j k. i \<in> ?S \<and> k \<in> ?S \<and> i < j \<and> j < k \<and> j \<notin> ?S)" (is "?L \<longleftrightarrow> ?R")
  proof
    assume ?L
    then obtain j where j: "Min ?S \<le> j" "j \<le> Max ?S" "j \<notin> ?S" by blast
    moreover have "Min ?S \<in> ?S" "Max ?S \<in> ?S" 
      by (rule Min_in [OF S(2,1)], rule Max_in [OF S(2,1)])
    ultimately have "Min ?S < j" "j < Max ?S" by (metis order_le_less)+
    then show ?R using j \<open>Min ?S \<in> ?S\<close> \<open>Max ?S \<in> ?S\<close> by blast
  next
    assume ?R
    then show ?L using S by (meson Max_ge Min_le less_imp_le order_trans)
  qed
  ultimately show ?thesis by auto
qed

section \<open>The contract of the buffer\<close>

text \<open>
  What the sequencer needs from its buffer: early messages are kept as a multiset, the
  one with the least sequence is at hand, and \<open>has_gaps\<close> tells whether a sequence between
  two buffered ones is absent.
\<close>

locale reorder_buffer =
  fixes push :: "received_message reverse \<Rightarrow> 'b \<Rightarrow> 'b"
    and pop :: "'b \<Rightarrow> (received_message reverse option \<times> 'b) run"
    and peek :: "'b \<Rightarrow> received_message reverse option"
    and gaps :: "'b \<Rightarrow> bool run"
    and items :: "'b \<Rightarrow> received_message multiset"
    and invar :: "'b \<Rightarrow> bool"
  assumes push_items: "items (push r h) = add_mset (unreverse r) (items h)"
    and push_invar: "invar h \<Longrightarrow> invar (push r h)"
    and peek_none: "peek h = None \<longleftrightarrow> items h = {#}"
    and peek_in: "invar h \<Longrightarrow> peek h = Some r \<Longrightarrow> unreverse r \<in># items h"
    and peek_least: "invar h \<Longrightarrow> peek h = Some r \<Longrightarrow> m \<in># items h \<Longrightarrow> rev_seq r \<le> recv_seq m"
    and pop_peek: "invar h \<Longrightarrow> peek h = Some r \<Longrightarrow>
      \<exists>h'. pop h = Ret (Some r, h') \<and> invar h' \<and> items h = add_mset (unreverse r) (items h')"
    and gaps_iff: "invar h \<Longrightarrow>
      (\<And>m. m \<in># items h \<Longrightarrow> 0 \<le> recv_seq m \<and> in_i64 (recv_seq m)) \<Longrightarrow>
      \<exists>b. gaps h = Ret b \<and> (b \<longleftrightarrow> (\<exists>m n j. m \<in># items h \<and> n \<in># items h \<and>
        recv_seq m < j \<and> j < recv_seq n \<and> (\<forall>x. x \<in># items h \<longrightarrow> recv_seq x \<noteq> j)))"
begin

lemma pop_cases:
  assumes "invar h" "peek h = Some r" "pop h = Ret (r', h')"
  shows "r' = Some r" and "invar h'" and "items h = add_mset (unreverse r) (items h')"
  using pop_peek [OF assms(1,2)] assms(3) by auto

lemma peek_wanted:
  assumes "invar h" "m \<in># items h" "\<And>x. x \<in># items h \<Longrightarrow> recv_seq m \<le> recv_seq x"
  shows "\<exists>r. peek h = Some r \<and> rev_seq r = recv_seq m"
proof -
  obtain r where r: "peek h = Some r" using assms(2) peek_none by (cases "peek h") auto
  then have "rev_seq r = recv_seq m"
    using peek_least [OF assms(1) r assms(2)] assms(3) [OF peek_in [OF assms(1) r]] by simp
  with r show ?thesis by blast
qed

text \<open>
  The single-message recovery test: the buffered messages are all later than \<open>w\<close>, the
  first is \<open>w + 1\<close> and there are no gaps, exactly when \<open>w\<close> is the only sequence missing
  up to any buffered message.
\<close>

lemma single_missing_iff:
  assumes inv: "invar h" and peek: "peek h = Some r" and gaps: "gaps h = Ret b"
    and range: "\<And>m. m \<in># items h \<Longrightarrow> 0 \<le> recv_seq m \<and> in_i64 (recv_seq m)"
    and late: "\<And>m. m \<in># items h \<Longrightarrow> w < recv_seq m"
  shows "(w + 1 = rev_seq r \<and> \<not> b) \<longleftrightarrow>
    (\<forall>m j. m \<in># items h \<and> w < j \<and> j \<le> recv_seq m \<longrightarrow> (\<exists>x. x \<in># items h \<and> recv_seq x = j))"
    (is "?single \<longleftrightarrow> ?all")
proof
  assume s: ?single
  have nogap: "\<exists>x. x \<in># items h \<and> recv_seq x = j"
    if "m \<in># items h" "n \<in># items h" "recv_seq m < j" "j < recv_seq n" for m n j
    using that s gaps gaps_iff [OF inv range] by auto
  show ?all
  proof (intro allI impI)
    fix m j assume mj: "m \<in># items h \<and> w < j \<and> j \<le> recv_seq m"
    consider "j = rev_seq r" | "j = recv_seq m" | "rev_seq r < j" "j < recv_seq m"
      using mj s by linarith
    then show "\<exists>x. x \<in># items h \<and> recv_seq x = j"
      using mj nogap peek_in [OF inv peek] by cases auto
  qed
next
  assume all: ?all
  have "w < rev_seq r" using late peek_in [OF inv peek] by blast
  then obtain x where x: "x \<in># items h" "recv_seq x = w + 1"
    using all [rule_format, of "unreverse r" "w + 1"] peek_in [OF inv peek] by auto
  then have "rev_seq r = w + 1" using \<open>w < rev_seq r\<close> peek_least [OF inv peek x(1)] by linarith
  moreover have "\<not> b"
  proof
    assume b
    then obtain m n j where *: "m \<in># items h" "n \<in># items h" "recv_seq m < j" "j < recv_seq n"
      and none: "\<forall>x. x \<in># items h \<longrightarrow> recv_seq x \<noteq> j"
      using gaps gaps_iff [OF inv range] by auto
    have "w < j" using late [OF *(1)] *(3) by linarith
    then show False using all * none by (meson less_imp_le)
  qed
  ultimately show ?single by simp
qed

end

lemma mm_gaps_items:
  assumes "mm_inv h" "\<And>m. m \<in># mm_items h \<Longrightarrow> 0 \<le> recv_seq m \<and> in_i64 (recv_seq m)"
  shows "\<exists>b. mm_has_gaps h = Ret b \<and> (b \<longleftrightarrow> (\<exists>m n j. m \<in># mm_items h \<and> n \<in># mm_items h \<and>
    recv_seq m < j \<and> j < recv_seq n \<and> (\<forall>x. x \<in># mm_items h \<longrightarrow> recv_seq x \<noteq> j)))"
proof -
  have "in_i64 (i - j)" if "i \<in># mm_ids h" "j \<in># mm_ids h" for i j
  proof -
    have "0 \<le> k \<and> in_i64 k" if "k \<in># mm_ids h" for k
      using that assms(2) by (auto simp: mm_ids_items)
    from this [OF \<open>i \<in># mm_ids h\<close>] this [OF \<open>j \<in># mm_ids h\<close>] show ?thesis
      by (simp add: in_i64_def)
  qed
  from mm_has_gaps_iff [OF assms(1) this] obtain b where b: "mm_has_gaps h = Ret b"
    and iff: "b \<longleftrightarrow> (\<exists>i j k. i \<in># mm_ids h \<and> k \<in># mm_ids h \<and> i < j \<and> j < k \<and> j \<notin># mm_ids h)"
    by blast
  have "(\<exists>i j k. i \<in># mm_ids h \<and> k \<in># mm_ids h \<and> i < j \<and> j < k \<and> j \<notin># mm_ids h) \<longleftrightarrow>
    (\<exists>m n j. m \<in># mm_items h \<and> n \<in># mm_items h \<and> recv_seq m < j \<and> j < recv_seq n \<and>
      (\<forall>x. x \<in># mm_items h \<longrightarrow> recv_seq x \<noteq> j))"
    by (fastforce simp: mm_ids_items)
  with b iff show ?thesis by blast
qed

interpretation mm: reorder_buffer mm_push mm_pop mm_peek mm_has_gaps mm_items mm_inv
proof unfold_locales
  show "mm_inv h \<Longrightarrow> mm_peek h = Some r \<Longrightarrow> m \<in># mm_items h \<Longrightarrow> rev_seq r \<le> recv_seq m"
    for h r m by (rule mm_peek_min(2))
qed (use mm_pop_Some mm_gaps_items in \<open>auto simp: mm_items_push mm_inv_push mm_peek_None mm_peek_min(1)\<close>)

section \<open>Sequences of operations\<close>

datatype buffer_op = Op_Push "received_message reverse" | Op_Pop | Op_Clear

fun run_op :: "buffer_op \<Rightarrow> min_max_heap \<Rightarrow> min_max_heap run" where
  "run_op (Op_Push r) h = Ret (mm_push r h)"
| "run_op Op_Pop h = run_bind (mm_pop h) (\<lambda>(msg, h'). Ret h')"
| "run_op Op_Clear h = Ret (mm_clear h)"

fun run_ops :: "buffer_op list \<Rightarrow> min_max_heap \<Rightarrow> min_max_heap run" where
  "run_ops [] h = Ret h"
| "run_ops (p # ps) h = run_bind (run_op p h) (run_ops ps)"

lemma run_op_ok: "mm_inv h \<Longrightarrow> \<exists>h'. run_op p h = Ret h' \<and> mm_inv h'"
proof (cases p)
  case Op_Pop
  assume inv: "mm_inv h"
  show ?thesis
  proof (cases "mm_peek h")
    case None
    then have "mm_pop h = Ret (None, h)" using mm_pop_None [OF inv] by (simp add: mm.peek_none)
    then show ?thesis using Op_Pop inv by simp
  next
    case (Some r)
    then show ?thesis using mm.pop_peek [OF inv Some] Op_Pop by auto
  qed
qed (simp_all add: mm.push_invar mm_inv_clear)

lemma run_ops_ok: "mm_inv h \<Longrightarrow> \<exists>h'. run_ops ps h = Ret h' \<and> mm_inv h'"
proof (induction ps arbitrary: h)
  case Nil
  then show ?case by simp
next
  case (Cons p ps)
  obtain h1 where "run_op p h = Ret h1" "mm_inv h1" using run_op_ok [OF Cons.prems] by blast
  then show ?case using Cons.IH by simp
qed

text \<open>Popping until the buffer is empty.\<close>

fun mm_drain :: "nat \<Rightarrow> min_max_heap \<Rightarrow> (received_message list \<times> min_max_heap) run" where
  "mm_drain 0 h = Ret ([], h)"
| "mm_drain (Suc n) h = run_bind (mm_pop h) (\<lambda>(msg, h1).
     case msg of
       None \<Rightarrow> Ret ([], h1)
     | Some r \<Rightarrow> run_bind (mm_drain n h1) (\<lambda>(rs, h2). Ret (unreverse r # rs, h2)))"

lemma mm_drain_sorted:
  "mm_inv h \<Longrightarrow> size (mm_items h) = n \<Longrightarrow>
   \<exists>rs h'. mm_drain n h = Ret (rs, h') \<and> mset rs = mm_items h \<and> sorted (map recv_seq rs) \<and> mm_items h' = {#}"
proof (induction n arbitrary: h)
  case 0
  then show ?case by simp
next
  case (Suc n)
  have "mm_items h \<noteq> {#}" using Suc.prems(2) by auto
  then obtain r where r: "mm_peek h = Some r" using mm.peek_none by (cases "mm_peek h") auto
  obtain h1 where pop: "mm_pop h = Ret (Some r, h1)" and h1: "mm_inv h1"
    and items: "mm_items h = add_mset (unreverse r) (mm_items h1)"
    using mm.pop_peek [OF Suc.prems(1) r] by blast
  obtain rs h' where rs: "mm_drain n h1 = Ret (rs, h')" "mset rs = mm_items h1" "sorted (map recv_seq rs)"
      "mm_items h' = {#}"
    using Suc.IH [OF h1] Suc.prems(2) items by auto
  have "rev_seq r \<le> recv_seq m" if "m \<in> set rs" for m
    using mm.peek_least [OF Suc.prems(1) r] that rs(2) items by (metis add_mset_add_single set_mset_mset union_iff)
  then show ?case using pop rs items by simp
qed

end
