(* ===== verification/Sequencer.thy ===== *)
theory Sequencer
  imports Min_Max_Heap
begin

text \<open>
  \<open>subscriber/sequencer.rs\<close>: the sequencer that turns the out-of-order stream of datagrams
  into an in-order stream of messages, recovering lost ones over gRPC.

  The environment is explicit. Each call of \<open>Instant::now()\<close> and \<open>Utc::now()\<close> reads the
  next value of the clocks; the socket is the list of what each
  \<open>timeout(.., udp_framed.next()).await\<close> yields (a script that has run out is a future
  still pending); a call of the recovery service is a function of the moment of the call
  and of the requested sequence, so the service may change its answers over time; a gRPC
  stream is the list of its items. \<open>S::Delta::decode\<close> (prost) and
  \<open>NaiveDateTime::from_timestamp_opt\<close> (chrono) are parameters.
\<close>

section \<open>State\<close>

record clocks =
  instant_at :: "nat \<Rightarrow> nat"
  utc_at :: "nat \<Rightarrow> datetime"
  ticks :: nat

definition tick :: "clocks \<Rightarrow> clocks" where
  "tick c = c\<lparr>ticks := Suc (ticks c)\<rparr>"

definition instant_now :: "clocks \<Rightarrow> nat \<times> clocks" where
  "instant_now c = (instant_at c (ticks c), tick c)"

definition utc_now :: "clocks \<Rightarrow> datetime \<times> clocks" where
  "utc_now c = (utc_at c (ticks c), tick c)"

record 'd subscriber_deps =
  delta_decode :: "byte list \<Rightarrow> (string, 'd) result"
  from_timestamp_opt :: "int \<Rightarrow> int \<Rightarrow> datetime option"

text \<open>What one \<open>timeout(duration, self.udp_framed.next()).await\<close> yields.\<close>

datatype udp_event = Datagram raw_message | Frame_Error status | Socket_Closed | Elapsed

record recovery_client =
  rpc_get_message :: "nat \<Rightarrow> sequence_request \<Rightarrow> (status, raw_message) result"
  rpc_stream_from :: "nat \<Rightarrow> sequence_request \<Rightarrow> (status, (status, raw_message) result list) result"

record message_sequencer =
  recovery_client :: recovery_client
  udp_framed :: "udp_event list"
  heap :: min_max_heap
  recovery_stream :: "(status, raw_message) result list option"
  sequence_timeout :: nat
  want_sequence :: int
  last_deadline :: nat
  connected :: bool

datatype 'd subscriber_stream =
  Stream_Message datetime datetime origin "'d subscriber_stream_message"
| Disconnected

text \<open>
  \<open>Box<dyn Error>\<close>: the errors of \<open>SubscriberStreamError\<close>, a missing payload, a failed
  decode, a status of the recovery service and a status of the socket's decoder.
\<close>

datatype stream_error =
  Missing_Payload | Decode_Error string | Invalid_Sequence | Empty_Stream
| Rpc_Status status | Udp_Status status

type_synonym 'd stream_item = "(stream_error, 'd subscriber_stream) result"

definition sequencer_new ::
  "udp_event list \<Rightarrow> recovery_client \<Rightarrow> int \<Rightarrow> nat \<Rightarrow> clocks \<Rightarrow> message_sequencer \<times> clocks" where
  "sequencer_new socket client want timeout c =
     (let (now, c') = instant_now c
      in (\<lparr>recovery_client = client, udp_framed = socket, heap = mm_new,
           recovery_stream = None, sequence_timeout = timeout, want_sequence = want,
           last_deadline = now, connected = False\<rparr>, c'))"

section \<open>Parsing\<close>

definition NANO :: int where
  "NANO = 1000000000"

text \<open>\<open>ns as u32\<close> reduces the remainder modulo \<open>2 ^ 32\<close>; the \<open>unwrap\<close> can panic.\<close>

definition ns_to_datetime :: "'d subscriber_deps \<Rightarrow> int \<Rightarrow> datetime run" where
  "ns_to_datetime deps timestamp_ns =
     (let secs = rust_div timestamp_ns NANO; ns = rust_rem timestamp_ns NANO
      in case from_timestamp_opt deps secs (ns mod 2 ^ 32) of
           Some dt \<Rightarrow> Ret dt
         | None \<Rightarrow> Panic)"

definition parse_payload ::
  "'d subscriber_deps \<Rightarrow> payload \<Rightarrow> (stream_error, 'd subscriber_stream_message) result" where
  "parse_payload deps p =
     (case p of
        Heartbeat \<Rightarrow> Inr SHeartbeat
      | Started \<Rightarrow> Inr SStarted
      | Delta d \<Rightarrow> and_then (map_err Decode_Error (delta_decode deps (body d))) (\<lambda>x. Inr (SDelta x)))"

definition try_parse :: "'d subscriber_deps \<Rightarrow> received_message \<Rightarrow> 'd stream_item run" where
  "try_parse deps msg =
     (case and_then (ok_or Missing_Payload (payload (raw msg))) (parse_payload deps) of
        Inl e \<Rightarrow> Ret (Inl e)
      | Inr p \<Rightarrow> run_bind (ns_to_datetime deps (msg_ts (raw msg)))
          (\<lambda>send_ts. Ret (Inr (Stream_Message send_ts (recv_ts msg) (origin msg) p))))"

section \<open>The next message\<close>

text \<open>
  \<open>next\<close> is a sequence of blocks; each either returns from \<open>next\<close> or falls through to the
  one after it.
\<close>

datatype 'd block =
  Return "'d stream_item" message_sequencer clocks
| Fall message_sequencer clocks

text \<open>\<open>return Ok(Self::try_parse(&msg)?)\<close>\<close>

definition return_parsed ::
  "'d subscriber_deps \<Rightarrow> received_message \<Rightarrow> message_sequencer \<Rightarrow> clocks \<Rightarrow> 'd block run" where
  "return_parsed deps msg s c = run_bind (try_parse deps msg) (\<lambda>r. Ret (Return r s c))"

text \<open>\<open>self.want_sequence += 1; self.last_deadline = <deadline>\<close>\<close>

definition advance :: "nat \<Rightarrow> message_sequencer \<Rightarrow> message_sequencer" where
  "advance deadline s =
     s\<lparr>want_sequence := wrap_i64 (want_sequence s + 1), last_deadline := deadline\<rparr>"

text \<open>The items of a batch recovery that is under way come first.\<close>

definition sync_block ::
  "'d subscriber_deps \<Rightarrow> message_sequencer \<Rightarrow> clocks \<Rightarrow> 'd block run" where
  "sync_block deps s c =
     (case recovery_stream s of
        None \<Rightarrow> Ret (Fall s c)
      | Some [] \<Rightarrow> Ret (Fall (s\<lparr>recovery_stream := None\<rparr>) c)
      | Some (item # rest) \<Rightarrow>
          let s1 = s\<lparr>recovery_stream := Some rest\<rparr>
          in (case item of
                Inl status \<Rightarrow> Ret (Return (Inl (Rpc_Status status)) s1 c)
              | Inr m \<Rightarrow>
                  let (now, c1) = utc_now c; msg = received_message_new now m Sync
                  in if recv_seq msg \<noteq> want_sequence s1
                     then Ret (Return (Inl Invalid_Sequence) s1 c1)
                     else let (t, c2) = instant_now c1
                          in return_parsed deps msg (advance (t + sequence_timeout s1) s1) c2))"

text \<open>
  Then the buffer: messages below the wanted one are dropped, the wanted one is returned.
\<close>

function heap_block ::
  "'d subscriber_deps \<Rightarrow> message_sequencer \<Rightarrow> clocks \<Rightarrow> 'd block run" where
  "heap_block deps s c =
     (case mm_peek (heap s) of
        None \<Rightarrow> Ret (Fall s c)
      | Some r \<Rightarrow>
          if rev_seq r = want_sequence s then
            (case mm_pop (heap s) of
               Ret (Some msg, h) \<Rightarrow>
                 let (t, c1) = instant_now c
                 in return_parsed deps (unreverse msg)
                      (advance (t + sequence_timeout s) (s\<lparr>heap := h\<rparr>)) c1
             | Ret (None, _) \<Rightarrow> Panic
             | Panic \<Rightarrow> Panic
             | Pending \<Rightarrow> Pending)
          else if rev_seq r < want_sequence s then
            (case mm_pop (heap s) of
               Ret (Some _, h) \<Rightarrow> heap_block deps (s\<lparr>heap := h\<rparr>) c
             | Ret (None, _) \<Rightarrow> Panic
             | Panic \<Rightarrow> Panic
             | Pending \<Rightarrow> Pending)
          else Ret (Fall s c))"
  by pat_completeness auto
termination
  by (relation "measure (\<lambda>(deps, s, c). length (mm_heap (heap s)))") (auto dest: mm_pop_shrinks)

declare heap_block.simps [simp del]

definition connect_block :: "message_sequencer \<Rightarrow> clocks \<Rightarrow> message_sequencer \<times> clocks" where
  "connect_block s c =
     (if \<not> connected s
      then let (t, c1) = instant_now c in (s\<lparr>last_deadline := t + sequence_timeout s\<rparr>, c1)
      else (s, c))"

text \<open>
  The deadline has passed: recover the single missing message, or restream from the wanted
  one, or, with an empty buffer, report that the publisher is gone.
\<close>

definition single_missing :: "message_sequencer \<Rightarrow> received_message reverse \<Rightarrow> bool run" where
  "single_missing s next_msg =
     (if wrap_i64 (want_sequence s + 1) = rev_seq next_msg
      then run_bind (mm_has_gaps (heap s)) (\<lambda>b. Ret (\<not> b))
      else Ret False)"

definition recover_single ::
  "'d subscriber_deps \<Rightarrow> nat \<Rightarrow> message_sequencer \<Rightarrow> clocks \<Rightarrow> 'd block run" where
  "recover_single deps now s c =
     (case rpc_get_message (recovery_client s) (ticks c) \<lparr>sequence_id = want_sequence s\<rparr> of
        Inl status \<Rightarrow> Ret (Return (Inl (Rpc_Status status)) s (tick c))
      | Inr m \<Rightarrow>
          let (utc, c1) = utc_now (tick c); msg = received_message_new utc m Missing
          in if recv_seq msg \<noteq> want_sequence s
             then Ret (Return (Inl Invalid_Sequence) s c1)
             else return_parsed deps msg (advance (now + sequence_timeout s) s) c1)"

definition recover_stream ::
  "'d subscriber_deps \<Rightarrow> nat \<Rightarrow> message_sequencer \<Rightarrow> clocks \<Rightarrow> 'd block run" where
  "recover_stream deps now s c =
     (case rpc_stream_from (recovery_client s) (ticks c) \<lparr>sequence_id = want_sequence s\<rparr> of
        Inl status \<Rightarrow> Ret (Return (Inl (Rpc_Status status)) s (tick c))
      | Inr [] \<Rightarrow> Ret (Return (Inl Empty_Stream) s (tick c))
      | Inr (Inl status # _) \<Rightarrow> Ret (Return (Inl (Rpc_Status status)) s (tick c))
      | Inr (Inr m # stream) \<Rightarrow>
          let (utc, c1) = utc_now (tick c); msg = received_message_new utc m Sync
          in if recv_seq msg \<noteq> want_sequence s
             then Ret (Return (Inl Invalid_Sequence) s c1)
             else return_parsed deps msg
               ((advance (now + sequence_timeout s) s)\<lparr>recovery_stream := Some stream\<rparr>) c1)"

definition deadline_block ::
  "'d subscriber_deps \<Rightarrow> nat \<Rightarrow> message_sequencer \<Rightarrow> clocks \<Rightarrow> 'd block run" where
  "deadline_block deps now s c =
     (case mm_peek (heap s) of
        None \<Rightarrow> Ret (Return (Inr Disconnected) (s\<lparr>connected := False\<rparr>) c)
      | Some next_msg \<Rightarrow>
          run_bind (single_missing s next_msg)
            (\<lambda>single. if single then recover_single deps now s c else recover_stream deps now s c))"

text \<open>The loop that listens on the socket.\<close>

function listen_block ::
  "'d subscriber_deps \<Rightarrow> message_sequencer \<Rightarrow> clocks \<Rightarrow> 'd block run" where
  "listen_block deps s c =
     (let (now, c1) = instant_now c
      in if now > last_deadline s then deadline_block deps now s c1
         else case udp_framed s of
                [] \<Rightarrow> Pending
              | ev # evs \<Rightarrow>
                  let s1 = s\<lparr>udp_framed := evs\<rparr>
                  in (case ev of
                        Datagram m \<Rightarrow>
                          let (utc, c2) = utc_now c1;
                              msg = received_message_new utc m Udp;
                              s2 = s1\<lparr>connected := True\<rparr>
                          in if recv_seq msg < want_sequence s2 then listen_block deps s2 c2
                             else if recv_seq msg = want_sequence s2
                             then return_parsed deps msg (advance (now + sequence_timeout s2) s2) c2
                             else listen_block deps
                               (s2\<lparr>heap := mm_push (Reverse msg) (heap s2)\<rparr>) c2
                      | Frame_Error status \<Rightarrow> Ret (Return (Inl (Udp_Status status)) s1 c1)
                      | Socket_Closed \<Rightarrow> Ret (Return (Inr Disconnected) s1 c1)
                      | Elapsed \<Rightarrow> listen_block deps s1 c1))"
  by pat_completeness auto
termination
  by (relation "measure (\<lambda>(deps, s, c). length (udp_framed s))")
    (auto simp: instant_now_def utc_now_def)

declare listen_block.simps [simp del]

definition sequencer_next ::
  "'d subscriber_deps \<Rightarrow> message_sequencer \<Rightarrow> clocks \<Rightarrow> 'd block run" where
  "sequencer_next deps s c =
     run_bind (sync_block deps s c) (\<lambda>b. case b of
       Return r s' c' \<Rightarrow> Ret (Return r s' c')
     | Fall s1 c1 \<Rightarrow>
         run_bind (heap_block deps s1 c1) (\<lambda>b. case b of
           Return r s' c' \<Rightarrow> Ret (Return r s' c')
         | Fall s2 c2 \<Rightarrow> let (s3, c3) = connect_block s2 c2 in listen_block deps s3 c3))"

text \<open>
  \<open>into_stream\<close> yields the results of \<open>next\<close> for ever; this is what a consumer has after
  asking for \<open>n\<close> items: the items, and the sequencer unless a call panicked or is pending.
\<close>

fun into_stream ::
  "'d subscriber_deps \<Rightarrow> nat \<Rightarrow> message_sequencer \<Rightarrow> clocks \<Rightarrow>
   'd stream_item list \<times> (message_sequencer \<times> clocks) run" where
  "into_stream deps 0 s c = ([], Ret (s, c))"
| "into_stream deps (Suc n) s c =
     (case sequencer_next deps s c of
        Ret (Return r s' c') \<Rightarrow> (let (rs, fin) = into_stream deps n s' c' in (r # rs, fin))
      | Ret (Fall s' c') \<Rightarrow> ([], Panic)
      | Panic \<Rightarrow> ([], Panic)
      | Pending \<Rightarrow> ([], Pending))"

end
