(* ===== verification/Sequencing.thy ===== *)
theory Sequencing
  imports Sequencer
begin

text \<open>
  What the sequencer guarantees. A log maps sequences to the publisher's messages; a
  sequencer is authentic for a log when everything it can hear (datagrams, the buffer, the
  recovery service and its streams) is an entry of the log. The lemmas follow the blocks
  of \<open>next\<close>: each keeps the invariant, and returns either no message and leaves the wanted
  sequence alone, or the parse of the log's entry at the wanted sequence and advances by one.
\<close>

declare instant_now_def [simp] utc_now_def [simp]

section \<open>Invariant and authenticity\<close>

definition sq_inv :: "message_sequencer \<Rightarrow> bool" where
  "sq_inv s \<longleftrightarrow> mm_inv (heap s) \<and> in_i64 (want_sequence s)"

type_synonym log = "int \<Rightarrow> raw_message option"

text \<open>A log: entries sit at their own sequence, which is a non-negative \<open>i64\<close> below the last one.\<close>

definition log_ok :: "log \<Rightarrow> bool" where
  "log_ok L \<longleftrightarrow> (\<forall>i m. L i = Some m \<longrightarrow> msg_seq m = i \<and> 0 \<le> i \<and> i < 2 ^ 63 - 1)"

definition in_log :: "log \<Rightarrow> raw_message \<Rightarrow> bool" where
  "in_log L m \<longleftrightarrow> L (msg_seq m) = Some m"

definition items_in_log :: "log \<Rightarrow> (status, raw_message) result list \<Rightarrow> bool" where
  "items_in_log L items \<longleftrightarrow> (\<forall>m. Inr m \<in> set items \<longrightarrow> in_log L m)"

definition client_in_log :: "log \<Rightarrow> recovery_client \<Rightarrow> bool" where
  "client_in_log L cl \<longleftrightarrow>
     (\<forall>t q m. rpc_get_message cl t q = Inr m \<longrightarrow> in_log L m) \<and>
     (\<forall>t q items. rpc_stream_from cl t q = Inr items \<longrightarrow> items_in_log L items)"

definition authentic :: "log \<Rightarrow> message_sequencer \<Rightarrow> bool" where
  "authentic L s \<longleftrightarrow>
     client_in_log L (recovery_client s) \<and>
     (\<forall>m. Datagram m \<in> set (udp_framed s) \<longrightarrow> in_log L m) \<and>
     (\<forall>m. m \<in># mm_items (heap s) \<longrightarrow> in_log L (raw m)) \<and>
     (\<forall>items. recovery_stream s = Some items \<longrightarrow> items_in_log L items)"

text \<open>The wanted sequence was consumed, or nothing was.\<close>

definition consumed ::
  "log \<Rightarrow> 'd subscriber_deps \<Rightarrow> int \<Rightarrow> 'd stream_item \<Rightarrow> message_sequencer \<Rightarrow> bool" where
  "consumed L deps w r s' \<longleftrightarrow> want_sequence s' = w + 1 \<and>
     (\<exists>rm. L w = Some (raw rm) \<and> try_parse deps rm = Ret r)"

definition idle :: "int \<Rightarrow> 'd stream_item \<Rightarrow> message_sequencer \<Rightarrow> bool" where
  "idle w r s' \<longleftrightarrow> want_sequence s' = w \<and> (r = Inr Disconnected \<or> (\<exists>e. r = Inl e))"

fun block_ok :: "log \<Rightarrow> 'd subscriber_deps \<Rightarrow> int \<Rightarrow> 'd block \<Rightarrow> bool" where
  "block_ok L deps w (Return r s' c') \<longleftrightarrow>
     authentic L s' \<and> sq_inv s' \<and> (idle w r s' \<or> consumed L deps w r s')"
| "block_ok L deps w (Fall s' c') \<longleftrightarrow> authentic L s' \<and> sq_inv s' \<and> want_sequence s' = w"

lemma in_logD: "in_log L m \<Longrightarrow> log_ok L \<Longrightarrow> 0 \<le> msg_seq m \<and> msg_seq m < 2 ^ 63 - 1"
  unfolding in_log_def log_ok_def by blast

lemma return_parsed_ok:
  assumes "log_ok L" "authentic L s" "mm_inv (heap s)" "in_log L (raw msg)"
    and "recv_seq msg = want_sequence s"
    and "return_parsed deps msg (advance t s\<lparr>recovery_stream := rs\<rparr>) c = Ret b"
    and "\<And>items. rs = Some items \<Longrightarrow> items_in_log L items"
  shows "block_ok L deps (want_sequence s) b"
proof -
  obtain r where r: "try_parse deps msg = Ret r"
    and b: "b = Return r (advance t s\<lparr>recovery_stream := rs\<rparr>) c"
    using assms(6) by (auto simp: return_parsed_def run_simps)
  have "0 \<le> want_sequence s \<and> want_sequence s < 2 ^ 63 - 1"
    using in_logD [OF assms(4,1)] assms(5) by simp
  then have i: "in_i64 (want_sequence s + 1)" by (simp add: in_i64_def)
  then have "consumed L deps (want_sequence s) r (advance t s\<lparr>recovery_stream := rs\<rparr>)"
    using assms(4,5) r by (auto simp: consumed_def advance_def in_log_def)
  then show ?thesis using assms(2,3,7) i b by (simp add: authentic_def sq_inv_def advance_def)
qed

text \<open>The form for a call that leaves the recovery stream alone.\<close>

lemmas return_parsed_same =
  return_parsed_ok [where rs = "recovery_stream s" and s = s for s,
    simplified advance_def, simplified, folded advance_def]

section \<open>The blocks keep the invariant\<close>

lemma sync_block_ok:
  assumes L: "log_ok L" and auth: "authentic L s" and inv: "sq_inv s"
    and res: "sync_block deps s c = Ret b"
  shows "block_ok L deps (want_sequence s) b"
proof (cases "recovery_stream s")
  case None
  then show ?thesis using res auth inv by (auto simp: sync_block_def)
next
  case (Some items)
  show ?thesis
  proof (cases items)
    case Nil
    then show ?thesis using Some res auth inv
      by (auto simp: sync_block_def authentic_def sq_inv_def)
  next
    case (Cons item rest)
    let ?s1 = "s\<lparr>recovery_stream := Some rest\<rparr>"
    have auth1: "authentic L ?s1" and inv1: "sq_inv ?s1"
      using auth inv Some Cons by (auto simp: authentic_def sq_inv_def items_in_log_def)
    show ?thesis
    proof (cases item)
      case (Inl status)
      then show ?thesis using Some Cons res auth1 inv1
        by (auto simp: sync_block_def idle_def)
    next
      case (Inr m)
      have m: "in_log L m"
        using auth Some Cons Inr by (auto simp: authentic_def items_in_log_def)
      show ?thesis
      proof (cases "msg_seq m = want_sequence s")
        case False
        then show ?thesis using Some Cons Inr res auth1 inv1
          by (auto simp: sync_block_def idle_def utc_now_def)
      next
        case True
        define msg where "msg = received_message_new (utc_at c (ticks c)) m Sync"
        have "return_parsed deps msg
            (advance (instant_at (tick c) (ticks (tick c)) + sequence_timeout s) ?s1) (tick (tick c)) = Ret b"
          using Some Cons Inr True res
          by (simp add: sync_block_def utc_now_def instant_now_def msg_def)
        from return_parsed_same [OF L auth1 _ _ _ this] show ?thesis
          using m inv1 auth1 True by (auto simp: sq_inv_def authentic_def msg_def)
      qed
    qed
  qed
qed

text \<open>Falling through the buffer's block leaves only messages later than the wanted one.\<close>

definition late :: "message_sequencer \<Rightarrow> bool" where
  "late s \<longleftrightarrow> (\<forall>m. m \<in># mm_items (heap s) \<longrightarrow> want_sequence s < recv_seq m)"

text \<open>
  The buffer's block: it drops what is older than the wanted sequence, and returns the
  wanted message if it is there.
\<close>

abbreviation later :: "int \<Rightarrow> received_message multiset \<Rightarrow> received_message multiset" where
  "later w \<equiv> filter_mset (\<lambda>m. w < recv_seq m)"

lemma heap_block_wanted:
  assumes "mm_peek (heap s) = Some r" "rev_seq r = want_sequence s" "mm_pop (heap s) = Ret (Some r, h)"
  shows "heap_block deps s c = return_parsed deps (unreverse r)
    (advance (instant_at c (ticks c) + sequence_timeout s) (s\<lparr>heap := h\<rparr>)) (tick c)"
  using assms by (simp add: heap_block.simps [of deps s c] instant_now_def)

lemma heap_block_stale:
  assumes "mm_peek (heap s) = Some r" "rev_seq r < want_sequence s" "mm_pop (heap s) = Ret (Some r, h)"
  shows "heap_block deps s c = heap_block deps (s\<lparr>heap := h\<rparr>) c"
  using assms by (simp add: heap_block.simps [of deps s c])

lemma heap_block_fall:
  assumes "\<And>r. mm_peek (heap s) = Some r \<Longrightarrow> want_sequence s < rev_seq r"
  shows "heap_block deps s c = Ret (Fall s c)"
proof (cases "mm_peek (heap s)")
  case None
  then show ?thesis by (subst heap_block.simps) simp
next
  case (Some r)
  then show ?thesis using assms by (subst heap_block.simps) auto
qed

definition heap_falls :: "'d subscriber_deps \<Rightarrow> message_sequencer \<Rightarrow> clocks \<Rightarrow> bool" where
  "heap_falls deps s c \<longleftrightarrow> (\<exists>h. heap_block deps s c = Ret (Fall (s\<lparr>heap := h\<rparr>) c) \<and> mm_inv h \<and>
     mm_items h = later (want_sequence s) (mm_items (heap s)) \<and>
     (\<forall>m. m \<in># mm_items (heap s) \<longrightarrow> recv_seq m \<noteq> want_sequence s))"

definition heap_returns :: "'d subscriber_deps \<Rightarrow> message_sequencer \<Rightarrow> clocks \<Rightarrow> bool" where
  "heap_returns deps s c \<longleftrightarrow> (\<exists>h r. heap_block deps s c = return_parsed deps r
       (advance (instant_at c (ticks c) + sequence_timeout s) (s\<lparr>heap := h\<rparr>)) (tick c) \<and>
     mm_inv h \<and> recv_seq r = want_sequence s \<and> r \<in># mm_items (heap s) \<and>
     later (want_sequence s) (mm_items (heap s)) \<subseteq># mm_items h \<and>
     mm_items h \<subseteq># mm_items (heap s))"

lemma heap_block_cases:
  "mm_inv (heap s) \<Longrightarrow> heap_falls deps s c \<or> heap_returns deps s c"
proof (induction "length (mm_heap (heap s))" arbitrary: s rule: less_induct)
  case less
  show ?case
  proof (cases "mm_peek (heap s)")
    case None
    then have "heap_block deps s c = Ret (Fall (s\<lparr>heap := heap s\<rparr>) c)"
      using heap_block_fall [of s deps c] by simp
    moreover have "mm_items (heap s) = {#}" using None by (simp add: mm.peek_none)
    ultimately have "heap_falls deps s c" using less.prems unfolding heap_falls_def by fastforce
    then show ?thesis ..
  next
    case (Some r)
    obtain h where pop: "mm_pop (heap s) = Ret (Some r, h)" and h: "mm_inv h"
      and items: "mm_items (heap s) = add_mset (unreverse r) (mm_items h)"
      using mm.pop_peek [OF less.prems Some] by blast
    consider "rev_seq r = want_sequence s" | "rev_seq r < want_sequence s"
      | "want_sequence s < rev_seq r" by linarith
    then show ?thesis
    proof cases
      case 1
      have "heap_returns deps s c"
        unfolding heap_returns_def
        by (rule exI [of _ h], rule exI [of _ "unreverse r"])
          (simp add: heap_block_wanted [OF Some 1 pop] h 1 items)
      then show ?thesis ..
    next
      case 2
      let ?s1 = "s\<lparr>heap := h\<rparr>"
      have step: "heap_block deps s c = heap_block deps ?s1 c" by (rule heap_block_stale [OF Some 2 pop])
      have "heap_falls deps ?s1 c \<or> heap_returns deps ?s1 c"
        using less.hyps [of ?s1] mm_pop_shrinks [OF pop] h by simp
      then show ?thesis
      proof
        assume "heap_falls deps ?s1 c"
        then have "heap_falls deps s c"
          using 2 unfolding heap_falls_def step by (auto simp: items)
        then show ?thesis ..
      next
        assume "heap_returns deps ?s1 c"
        then obtain h' r' where *: "heap_block deps ?s1 c = return_parsed deps r'
            (advance (instant_at c (ticks c) + sequence_timeout s) (s\<lparr>heap := h'\<rparr>)) (tick c)"
          "mm_inv h'" "recv_seq r' = want_sequence s" "r' \<in># mm_items h"
          "later (want_sequence s) (mm_items h) \<subseteq># mm_items h'" "mm_items h' \<subseteq># mm_items h"
          by (auto simp: heap_returns_def)
        have "mm_items h' \<subseteq># mm_items (heap s)"
          using *(6) by (simp add: items subset_mset.order_trans)
        then have "heap_returns deps s c"
          unfolding heap_returns_def step
          by (intro exI [of _ h'] exI [of _ r']) (use * 2 in \<open>auto simp: items\<close>)
        then show ?thesis ..
      qed
    next
      case 3
      have all: "want_sequence s < recv_seq m" if "m \<in># mm_items (heap s)" for m
        using mm.peek_least [OF less.prems Some that] 3 by simp
      moreover have "heap_block deps s c = Ret (Fall (s\<lparr>heap := heap s\<rparr>) c)"
        using 3 Some heap_block_fall [of s deps c] by simp
      moreover have "later (want_sequence s) (mm_items (heap s)) = mm_items (heap s)"
        using all by (simp add: filter_mset_eq_conv)
      ultimately have "heap_falls deps s c" using less.prems all unfolding heap_falls_def
        by (intro exI [of _ "heap s"]) fastforce
      then show ?thesis ..
    qed
  qed
qed

lemma heap_block_ok:
  assumes L: "log_ok L" and auth: "authentic L s" and inv: "sq_inv s"
    and res: "heap_block deps s c = Ret b"
  shows "block_ok L deps (want_sequence s) b"
    and "b = Fall s' c' \<Longrightarrow> late s'"
proof -
  have mm: "mm_inv (heap s)" using inv by (simp add: sq_inv_def)
  have *: "block_ok L deps (want_sequence s) b \<and> (\<forall>s' c'. b = Fall s' c' \<longrightarrow> late s')"
    using heap_block_cases [OF mm, of deps c]
  proof
    assume "heap_falls deps s c"
    then show ?thesis using res auth inv
      by (auto simp: heap_falls_def authentic_def sq_inv_def late_def)
  next
    assume "heap_returns deps s c"
    then obtain h r where call: "return_parsed deps r
        (advance (instant_at c (ticks c) + sequence_timeout s) (s\<lparr>heap := h\<rparr>)) (tick c) = Ret b"
      and h: "mm_inv h" "recv_seq r = want_sequence s" "r \<in># mm_items (heap s)"
        "mm_items h \<subseteq># mm_items (heap s)"
      using res by (auto simp: heap_returns_def)
    have a: "authentic L (s\<lparr>heap := h\<rparr>)" using auth mset_subset_eqD [OF h(4)] by (auto simp: authentic_def)
    have "block_ok L deps (want_sequence s) b"
      using return_parsed_same [OF L a _ _ _ call] h auth by (auto simp: authentic_def)
    moreover have "\<nexists>s' c'. b = Fall s' c'" using call by (auto simp: return_parsed_def run_simps)
    ultimately show ?thesis by blast
  qed
  then show "block_ok L deps (want_sequence s) b" ..
  show "late s'" if "b = Fall s' c'" using * that by blast
qed

lemma connect_block_simps [simp]:
  "recovery_client (fst (connect_block s c)) = recovery_client s"
  "udp_framed (fst (connect_block s c)) = udp_framed s"
  "heap (fst (connect_block s c)) = heap s"
  "recovery_stream (fst (connect_block s c)) = recovery_stream s"
  "want_sequence (fst (connect_block s c)) = want_sequence s"
  "sequence_timeout (fst (connect_block s c)) = sequence_timeout s"
  "connected (fst (connect_block s c)) = connected s"
  by (simp_all add: connect_block_def instant_now_def)

lemma connect_block_ok [simp]:
  "authentic L (fst (connect_block s c)) = authentic L s"
  "sq_inv (fst (connect_block s c)) = sq_inv s"
  "late (fst (connect_block s c)) = late s"
  by (simp_all add: authentic_def sq_inv_def late_def)

lemma recover_single_ok:
  assumes L: "log_ok L" and auth: "authentic L s" and inv: "sq_inv s"
    and res: "recover_single deps now s c = Ret b"
  shows "block_ok L deps (want_sequence s) b"
proof (cases "rpc_get_message (recovery_client s) (ticks c) \<lparr>sequence_id = want_sequence s\<rparr>")
  case (Inl status)
  then show ?thesis using res auth inv by (auto simp: recover_single_def idle_def)
next
  case (Inr m)
  then have m: "in_log L m" using auth by (auto simp: authentic_def client_in_log_def)
  show ?thesis
  proof (cases "msg_seq m = want_sequence s")
    case False
    then show ?thesis using Inr res auth inv
      by (auto simp: recover_single_def idle_def utc_now_def)
  next
    case True
    then have "return_parsed deps (received_message_new (utc_at (tick c) (ticks (tick c))) m Missing)
        (advance (now + sequence_timeout s) s) (tick (tick c)) = Ret b"
      using Inr res by (simp add: recover_single_def utc_now_def)
    from return_parsed_same [OF L auth _ _ _ this] show ?thesis
      using m inv auth True by (auto simp: sq_inv_def authentic_def)
  qed
qed

lemma recover_stream_ok:
  assumes L: "log_ok L" and auth: "authentic L s" and inv: "sq_inv s"
    and res: "recover_stream deps now s c = Ret b"
  shows "block_ok L deps (want_sequence s) b"
proof (cases "\<exists>m stream. rpc_stream_from (recovery_client s) (ticks c)
    \<lparr>sequence_id = want_sequence s\<rparr> = Inr (Inr m # stream) \<and> msg_seq m = want_sequence s")
  case False
  then have "\<exists>e c'. b = Return (Inl e) s c'"
    using res by (auto simp: recover_stream_def utc_now_def split: sum.splits list.splits if_splits)
  then show ?thesis using auth inv by (auto simp: idle_def)
next
  case True
  then obtain m stream where call: "rpc_stream_from (recovery_client s) (ticks c)
      \<lparr>sequence_id = want_sequence s\<rparr> = Inr (Inr m # stream)" and m: "msg_seq m = want_sequence s"
    by blast
  from call have items: "items_in_log L (Inr m # stream)"
    using auth unfolding authentic_def client_in_log_def by blast
  have "return_parsed deps (received_message_new (utc_at (tick c) (ticks (tick c))) m Sync)
      ((advance (now + sequence_timeout s) s)\<lparr>recovery_stream := Some stream\<rparr>) (tick (tick c)) = Ret b"
    using call m res by (simp add: recover_stream_def utc_now_def)
  from return_parsed_ok [OF L auth _ _ _ this] show ?thesis
    using items m inv by (auto simp: sq_inv_def items_in_log_def)
qed

lemma deadline_block_ok:
  assumes "log_ok L" "authentic L s" "sq_inv s" "deadline_block deps now s c = Ret b"
  shows "block_ok L deps (want_sequence s) b"
proof (cases "mm_peek (heap s)")
  case None
  then have b: "b = Return (Inr Disconnected) (s\<lparr>connected := False\<rparr>) c"
    using assms(4) by (simp add: deadline_block_def)
  show ?thesis using assms(2,3) by (simp add: b idle_def authentic_def sq_inv_def)
next
  case (Some r)
  then show ?thesis using assms(4) recover_single_ok [OF assms(1-3)] recover_stream_ok [OF assms(1-3)]
    by (auto simp: deadline_block_def run_simps split: if_splits)
qed

text \<open>One turn of the listening loop, by what the socket yields.\<close>

definition after_datagram :: "message_sequencer \<Rightarrow> clocks \<Rightarrow> raw_message \<Rightarrow> message_sequencer" where
  "after_datagram s c m =
     (if msg_seq m < want_sequence s then s\<lparr>connected := True\<rparr>
      else s\<lparr>connected := True,
        heap := mm_push (Reverse (received_message_new (utc_at c (ticks c)) m Udp)) (heap s)\<rparr>)"

lemma listen_deadline:
  "last_deadline s < instant_at c (ticks c) \<Longrightarrow>
   listen_block deps s c = deadline_block deps (instant_at c (ticks c)) s (tick c)"
  by (simp add: listen_block.simps [of deps s c] instant_now_def)

lemma listen_pending:
  "\<not> last_deadline s < instant_at c (ticks c) \<Longrightarrow> udp_framed s = [] \<Longrightarrow> listen_block deps s c = Pending"
  by (simp add: listen_block.simps [of deps s c] instant_now_def)

lemma listen_event:
  assumes "\<not> last_deadline s < instant_at c (ticks c)" "udp_framed s = ev # evs"
  shows "listen_block deps s c =
    (case ev of
       Datagram m \<Rightarrow>
         if msg_seq m = want_sequence s
         then return_parsed deps (received_message_new (utc_at (tick c) (ticks (tick c))) m Udp)
           (advance (instant_at c (ticks c) + sequence_timeout s)
             (s\<lparr>udp_framed := evs, connected := True\<rparr>)) (tick (tick c))
         else listen_block deps (after_datagram (s\<lparr>udp_framed := evs\<rparr>) (tick c) m) (tick (tick c))
     | Frame_Error status \<Rightarrow> Ret (Return (Inl (Udp_Status status)) (s\<lparr>udp_framed := evs\<rparr>) (tick c))
     | Socket_Closed \<Rightarrow> Ret (Return (Inr Disconnected) (s\<lparr>udp_framed := evs\<rparr>) (tick c))
     | Elapsed \<Rightarrow> listen_block deps (s\<lparr>udp_framed := evs\<rparr>) (tick c))"
  using assms
  by (simp add: listen_block.simps [of deps s c] instant_now_def utc_now_def after_datagram_def
      Let_def split: udp_event.split)

lemma after_datagram_simps [simp]:
  "udp_framed (after_datagram s c m) = udp_framed s"
  "want_sequence (after_datagram s c m) = want_sequence s"
  "recovery_client (after_datagram s c m) = recovery_client s"
  "recovery_stream (after_datagram s c m) = recovery_stream s"
  "last_deadline (after_datagram s c m) = last_deadline s"
  "sequence_timeout (after_datagram s c m) = sequence_timeout s"
  by (simp_all add: after_datagram_def)

lemma after_datagram_ok:
  assumes "authentic L s" "sq_inv s" "in_log L m" "msg_seq m \<noteq> want_sequence s" "late s"
  shows "authentic L (after_datagram s c m)" "sq_inv (after_datagram s c m)" "late (after_datagram s c m)"
  using assms
  by (auto simp: after_datagram_def authentic_def sq_inv_def late_def mm.push_items mm.push_invar)

lemma listen_block_ok:
  "log_ok L \<Longrightarrow> authentic L s \<Longrightarrow> sq_inv s \<Longrightarrow> late s \<Longrightarrow> listen_block deps s c = Ret b \<Longrightarrow>
   block_ok L deps (want_sequence s) b"
proof (induction "length (udp_framed s)" arbitrary: s c)
  case 0
  show ?case
  proof (cases "last_deadline s < instant_at c (ticks c)")
    case True
    then show ?thesis using "0.prems" by (simp add: listen_deadline deadline_block_ok)
  next
    case False
    then show ?thesis using 0 by (simp add: listen_pending)
  qed
next
  case (Suc n)
  obtain ev evs where evs: "udp_framed s = ev # evs" using Suc.hyps(2) by (cases "udp_framed s") auto
  let ?s1 = "s\<lparr>udp_framed := evs\<rparr>"
  have s1: "authentic L ?s1" "sq_inv ?s1" "late ?s1" "n = length (udp_framed ?s1)"
    using Suc.prems Suc.hyps(2) evs by (auto simp: authentic_def sq_inv_def late_def)
  show ?case
  proof (cases "last_deadline s < instant_at c (ticks c)")
    case True
    then show ?thesis using Suc.prems by (simp add: listen_deadline deadline_block_ok)
  next
    case False
    note turn = listen_event [OF False evs, of deps]
    show ?thesis
    proof (cases ev)
      case (Datagram m)
      then have m: "in_log L m" using Suc.prems(2) evs by (auto simp: authentic_def)
      show ?thesis
      proof (cases "msg_seq m = want_sequence s")
        case True
        let ?s2 = "?s1\<lparr>connected := True\<rparr>"
        have s2: "authentic L ?s2" using s1 by (simp add: authentic_def)
        have "return_parsed deps (received_message_new (utc_at (tick c) (ticks (tick c))) m Udp)
            (advance (instant_at c (ticks c) + sequence_timeout s) ?s2) (tick (tick c)) = Ret b"
          using Suc.prems(5) Datagram True turn by simp
        from return_parsed_same [OF Suc.prems(1) s2 _ _ _ this] show ?thesis
          using m True s2 s1 by (auto simp: sq_inv_def authentic_def)
      next
        case other: False
        let ?s2 = "after_datagram ?s1 (tick c) m"
        have "authentic L ?s2" "sq_inv ?s2" "late ?s2"
          using after_datagram_ok [OF s1(1,2) m _ s1(3)] other by auto
        moreover have "listen_block deps ?s2 (tick (tick c)) = Ret b"
          using Suc.prems(5) Datagram other turn by simp
        ultimately show ?thesis
          using Suc.hyps(1) [of ?s2] Suc.prems(1) s1(4) by simp
      qed
    next
      case Elapsed
      then show ?thesis using Suc.hyps(1) [OF s1(4) Suc.prems(1) s1(1-3)] Suc.prems(5) turn by simp
    qed (use Suc.prems(5) turn s1 in \<open>auto simp: idle_def\<close>)
  qed
qed

section \<open>One call of next\<close>

lemma sequencer_next_ok:
  assumes L: "log_ok L" and "authentic L s" "sq_inv s" and res: "sequencer_next deps s c = Ret b"
  shows "block_ok L deps (want_sequence s) b"
proof -
  obtain b1 where b1: "sync_block deps s c = Ret b1"
    using res by (auto simp: sequencer_next_def run_simps)
  have ok1: "block_ok L deps (want_sequence s) b1" using sync_block_ok [OF assms(1-3) b1] .
  show ?thesis
  proof (cases b1)
    case (Return r s' c')
    then have "b = b1" using b1 res by (simp add: sequencer_next_def)
    with ok1 show ?thesis by simp
  next
    case (Fall s1 c1)
    then have s1: "authentic L s1" "sq_inv s1" "want_sequence s1 = want_sequence s" using ok1 by auto
    obtain b2 where b2: "heap_block deps s1 c1 = Ret b2"
      using res b1 Fall by (auto simp: sequencer_next_def run_simps)
    note ok2 = heap_block_ok(1) [OF L s1(1,2) b2]
    show ?thesis
    proof (cases b2)
      case (Return r s' c')
      then have "b = b2" using b1 b2 Fall res by (simp add: sequencer_next_def)
      with ok2 s1 show ?thesis by simp
    next
      case fall2: (Fall s2 c2)
      have "listen_block deps (fst (connect_block s2 c2)) (snd (connect_block s2 c2)) = Ret b"
        using res b1 b2 Fall fall2 by (simp add: sequencer_next_def case_prod_beta Let_def)
      from listen_block_ok [OF L _ _ _ this] show ?thesis
        using ok2 heap_block_ok(2) [OF L s1(1,2) b2 fall2] fall2 s1 by simp
    qed
  qed
qed

text \<open>\<open>next\<close> never falls off its end: the last block always returns.\<close>

lemma return_parsed_Return: "return_parsed deps msg s c = Ret b \<Longrightarrow> \<exists>r. b = Return r s c"
  by (auto simp: return_parsed_def run_simps)

lemma recover_single_Return:
  "recover_single deps now s c = Ret b \<Longrightarrow> \<exists>r s' c'. b = Return r s' c'"
  by (auto simp: recover_single_def Let_def split: sum.splits if_splits dest!: return_parsed_Return)

lemma recover_stream_Return:
  "recover_stream deps now s c = Ret b \<Longrightarrow> \<exists>r s' c'. b = Return r s' c'"
  by (auto simp: recover_stream_def Let_def split: sum.splits list.splits if_splits
      dest!: return_parsed_Return)

lemma deadline_block_Return:
  "deadline_block deps now s c = Ret b \<Longrightarrow> \<exists>r s' c'. b = Return r s' c'"
  by (auto simp: deadline_block_def run_simps split: option.splits if_splits
      intro: recover_single_Return recover_stream_Return)

lemma listen_block_Return:
  "listen_block deps s c = Ret b \<Longrightarrow> \<exists>r s' c'. b = Return r s' c'"
proof (induction "length (udp_framed s)" arbitrary: s c rule: less_induct)
  case less
  show ?case
  proof (cases "last_deadline s < instant_at c (ticks c)")
    case True
    then show ?thesis using less.prems by (simp add: listen_deadline deadline_block_Return)
  next
    case False
    show ?thesis
    proof (cases "udp_framed s")
      case Nil
      then show ?thesis using False less.prems by (simp add: listen_pending)
    next
      case (Cons ev evs)
      have IH: "\<exists>r s' c'. b = Return r s' c'"
        if "listen_block deps s1 c1 = Ret b" "udp_framed s1 = evs" for s1 c1
        using less.hyps [of s1 c1] that Cons by simp
      show ?thesis
      proof (cases ev)
        case (Datagram m)
        then show ?thesis using less.prems IH
          by (cases "msg_seq m = want_sequence s")
            (auto simp: listen_event [OF False Cons] dest!: return_parsed_Return)
      next
        case Elapsed
        then show ?thesis using less.prems IH [of "s\<lparr>udp_framed := evs\<rparr>" "tick c"]
          by (simp add: listen_event [OF False Cons])
      qed (use less.prems in \<open>auto simp: listen_event [OF False Cons]\<close>)
    qed
  qed
qed

lemma sequencer_next_Return:
  assumes "sequencer_next deps s c = Ret b"
  shows "\<exists>r s' c'. b = Return r s' c'"
proof -
  obtain b1 where b1: "sync_block deps s c = Ret b1"
    using assms by (auto simp: sequencer_next_def run_simps)
  show ?thesis
  proof (cases b1)
    case (Return r s' c')
    then show ?thesis using assms b1 by (auto simp: sequencer_next_def)
  next
    case (Fall s1 c1)
    obtain b2 where b2: "heap_block deps s1 c1 = Ret b2"
      using assms b1 Fall by (auto simp: sequencer_next_def run_simps)
    then show ?thesis using assms b1 Fall
      by (cases b2) (auto simp: sequencer_next_def case_prod_beta Let_def dest: listen_block_Return)
  qed
qed

section \<open>In-order, exactly-once delivery\<close>

text \<open>What a consumer reads off an item: the publisher's time and the message.\<close>

fun stream_payload :: "'d stream_item \<Rightarrow> (datetime \<times> 'd subscriber_stream_message) option" where
  "stream_payload (Inr (Stream_Message st rt org m)) = Some (st, m)"
| "stream_payload (Inr Disconnected) = None"
| "stream_payload (Inl e) = None"

definition delivered :: "'d stream_item list \<Rightarrow> (datetime \<times> 'd subscriber_stream_message) list" where
  "delivered rs = List.map_filter stream_payload rs"

lemma delivered_simps [simp]:
  "delivered [] = []"
  "delivered (r # rs) = (case stream_payload r of None \<Rightarrow> delivered rs | Some x \<Rightarrow> x # delivered rs)"
  by (simp_all add: delivered_def map_filter_simps split: option.split)

text \<open>What the log's entry says to a consumer, if it parses.\<close>

definition log_entry ::
  "'d subscriber_deps \<Rightarrow> raw_message \<Rightarrow> (datetime \<times> 'd subscriber_stream_message) option" where
  "log_entry deps m = (case try_parse deps (received_message_new 0 m Udp) of
     Ret r \<Rightarrow> stream_payload r | _ \<Rightarrow> None)"

definition parsable :: "log \<Rightarrow> 'd subscriber_deps \<Rightarrow> bool" where
  "parsable L deps \<longleftrightarrow> (\<forall>i m. L i = Some m \<longrightarrow> log_entry deps m \<noteq> None)"

lemma try_parse_entry:
  assumes "log_entry deps (raw rm) = Some x"
  shows "\<exists>st p. try_parse deps rm = Ret (Inr (Stream_Message st (recv_ts rm) (origin rm) p)) \<and> x = (st, p)"
proof (cases "and_then (ok_or Missing_Payload (payload (raw rm))) (parse_payload deps)")
  case (Inl e)
  then show ?thesis using assms by (simp add: log_entry_def try_parse_def)
next
  case (Inr p)
  then show ?thesis using assms
    by (cases "ns_to_datetime deps (msg_ts (raw rm))") (auto simp: log_entry_def try_parse_def)
qed

lemma in_order_prefix:
  assumes L: "log_ok L" and P: "parsable L deps"
  shows "authentic L s \<Longrightarrow> sq_inv s \<Longrightarrow> into_stream deps n s c = (rs, fin) \<Longrightarrow>
    \<exists>k. delivered rs = map (\<lambda>j. the (log_entry deps (the (L (want_sequence s + int j))))) [0..<k] \<and>
      (\<forall>j<k. L (want_sequence s + int j) \<noteq> None) \<and>
      (\<forall>s' c'. fin = Ret (s', c') \<longrightarrow> want_sequence s' = want_sequence s + int k)"
proof (induction n arbitrary: s c rs fin)
  case 0
  then show ?case by (intro exI [of _ 0]) auto
next
  case (Suc n)
  show ?case
  proof (cases "\<exists>b. sequencer_next deps s c = Ret b")
    case False
    then have "rs = []" "\<And>x. fin \<noteq> Ret x"
      using Suc.prems(3) by (auto split: run.splits)
    then show ?thesis by (intro exI [of _ 0]) auto
  next
    case True
    then obtain r s1 c1 where nxt: "sequencer_next deps s c = Ret (Return r s1 c1)"
      using sequencer_next_Return by blast
    obtain rs1 where rs1: "into_stream deps n s1 c1 = (rs1, fin)" "rs = r # rs1"
      using Suc.prems(3) nxt by (auto split: prod.splits)
    have ok: "authentic L s1" "sq_inv s1" "idle (want_sequence s) r s1 \<or> consumed L deps (want_sequence s) r s1"
      using sequencer_next_ok [OF L Suc.prems(1,2) nxt] by auto
    obtain k where k: "delivered rs1 = map (\<lambda>j. the (log_entry deps (the (L (want_sequence s1 + int j))))) [0..<k]"
      "\<forall>j<k. L (want_sequence s1 + int j) \<noteq> None"
      "\<forall>s' c'. fin = Ret (s', c') \<longrightarrow> want_sequence s' = want_sequence s1 + int k"
      using Suc.IH [OF ok(1,2) rs1(1)] by blast
    from ok(3) show ?thesis
    proof
      assume "idle (want_sequence s) r s1"
      then have "want_sequence s1 = want_sequence s" "stream_payload r = None" by (auto simp: idle_def)
      then show ?thesis using k rs1 by (intro exI [of _ k]) simp
    next
      assume "consumed L deps (want_sequence s) r s1"
      then obtain rm where w: "want_sequence s1 = want_sequence s + 1"
        and rm: "L (want_sequence s) = Some (raw rm)" "try_parse deps rm = Ret r"
        by (auto simp: consumed_def)
      have "log_entry deps (raw rm) \<noteq> None" using P rm(1) unfolding parsable_def by blast
      then obtain x where x: "log_entry deps (raw rm) = Some x" by blast
      have r: "stream_payload r = Some x" using try_parse_entry [OF x] rm(2) by auto
      have "\<forall>j<Suc k. L (want_sequence s + int j) \<noteq> None"
        using k(2) rm(1) w by (auto simp: less_Suc_eq_0_disj add.assoc)
      then show ?thesis using k rs1 r x rm w
        by (intro exI [of _ "Suc k"]) (simp add: map_upt_Suc add.assoc del: upt_Suc)
    qed
  qed
qed

end
