(* ===== verification/BTree_Map.thy ===== *)
theory BTree_Map
  imports Prelude
begin

text \<open>
  The operations of the standard library's \<open>BTreeMap\<close> that the crate uses, on the list of
  entries in the order of their keys: \<open>get\<close>, \<open>insert\<close>, \<open>remove\<close>, \<open>range(k..)\<close>, and the
  smallest and largest key.
\<close>

type_synonym ('k, 'v) btree_map = "('k \<times> 'v) list"

definition bt_ok :: "('k::linorder, 'v) btree_map \<Rightarrow> bool" where
  "bt_ok m \<longleftrightarrow> sorted_wrt (<) (map fst m)"

definition bt_get :: "('k, 'v) btree_map \<Rightarrow> 'k \<Rightarrow> 'v option" where
  "bt_get m k = map_of m k"

fun bt_insert :: "'k::linorder \<Rightarrow> 'v \<Rightarrow> ('k, 'v) btree_map \<Rightarrow> ('k, 'v) btree_map" where
  "bt_insert k v [] = [(k, v)]"
| "bt_insert k v ((k', v') # m) =
     (if k < k' then (k, v) # (k', v') # m
      else if k = k' then (k, v) # m
      else (k', v') # bt_insert k v m)"

definition bt_remove :: "'k \<Rightarrow> ('k, 'v) btree_map \<Rightarrow> ('k, 'v) btree_map" where
  "bt_remove k m = filter (\<lambda>e. fst e \<noteq> k) m"

definition bt_range_from :: "'k::linorder \<Rightarrow> ('k, 'v) btree_map \<Rightarrow> ('k, 'v) btree_map" where
  "bt_range_from k m = filter (\<lambda>e. k \<le> fst e) m"

text \<open>\<open>keys().min()\<close> and \<open>keys().max()\<close>\<close>

definition bt_min_key :: "('k::linorder, 'v) btree_map \<Rightarrow> 'k option" where
  "bt_min_key m = (if m = [] then None else Some (Min (set (map fst m))))"

definition bt_max_key :: "('k::linorder, 'v) btree_map \<Rightarrow> 'k option" where
  "bt_max_key m = (if m = [] then None else Some (Max (set (map fst m))))"

lemma bt_ok_simps [simp]:
  "bt_ok []" "bt_ok ((k, v) # m) \<longleftrightarrow> (\<forall>k' \<in> fst ` set m. k < k') \<and> bt_ok m"
  by (simp_all add: bt_ok_def)

lemma bt_get_Nil [simp]: "bt_get [] k = None"
  by (simp add: bt_get_def)

lemma keys_bt_insert [simp]: "fst ` set (bt_insert k v m) = insert k (fst ` set m)"
  by (induction k v m rule: bt_insert.induct) auto

lemma bt_ok_insert [simp, intro]: "bt_ok m \<Longrightarrow> bt_ok (bt_insert k v m)"
  by (induction k v m rule: bt_insert.induct) (auto simp del: not_less simp: not_less le_less)

lemma bt_get_insert [simp]: "bt_ok m \<Longrightarrow> bt_get (bt_insert k v m) = (bt_get m)(k \<mapsto> v)"
proof (induction k v m rule: bt_insert.induct)
  case (2 k v k' v' m)
  have "map_of m k = None" if "k < k'"
    using 2(2) that by (auto simp: map_of_eq_None_iff)
  then show ?case using 2 by (auto simp: bt_get_def fun_eq_iff)
qed (simp add: bt_get_def fun_eq_iff)

lemma bt_ok_filter [simp, intro]: "bt_ok m \<Longrightarrow> bt_ok (filter P m)"
  by (induction m) auto

lemma bt_ok_remove [simp, intro]: "bt_ok m \<Longrightarrow> bt_ok (bt_remove k m)"
  by (simp add: bt_remove_def)

lemma bt_get_remove [simp]: "bt_get (bt_remove k m) = (bt_get m)(k := None)"
  by (induction m) (auto simp: bt_get_def bt_remove_def fun_eq_iff)

lemma bt_get_None_iff: "bt_get m k = None \<longleftrightarrow> k \<notin> fst ` set m"
  by (simp add: bt_get_def map_of_eq_None_iff)

lemma dom_bt_get: "dom (bt_get m) = fst ` set m"
proof -
  have "bt_get m = map_of m" by (simp add: fun_eq_iff bt_get_def)
  then show ?thesis by (simp add: dom_map_of_conv_image_fst)
qed

lemma bt_ok_distinct: "bt_ok m \<Longrightarrow> distinct (map fst m)"
  by (induction m) (auto simp: bt_ok_def)

lemma bt_get_entry: "bt_ok m \<Longrightarrow> bt_get m k = Some v \<longleftrightarrow> (k, v) \<in> set m"
  by (simp add: bt_get_def map_of_eq_Some_iff [OF bt_ok_distinct])

lemma bt_max_key_None [simp]: "bt_max_key m = None \<longleftrightarrow> m = []"
  by (simp add: bt_max_key_def)

lemma bt_max_key_Some: "bt_max_key m = Some k \<Longrightarrow> k \<in> dom (bt_get m) \<and> (\<forall>j \<in> dom (bt_get m). j \<le> k)"
  using Max_in [of "fst ` set m"] Max_ge [of "fst ` set m"]
  unfolding dom_bt_get by (auto simp: bt_max_key_def simp del: Max_ge split: if_splits)

lemma bt_min_key_Some: "bt_min_key m = Some k \<Longrightarrow> k \<in> dom (bt_get m) \<and> (\<forall>j \<in> dom (bt_get m). k \<le> j)"
  using Min_in [of "fst ` set m"] Min_le [of "fst ` set m"]
  unfolding dom_bt_get by (auto simp: bt_min_key_def simp del: Min_le split: if_splits)

text \<open>\<open>range(k..)\<close> lists the entries from a key on, in order.\<close>

lemma bt_range_from_entries:
  assumes "bt_ok m"
  shows "\<exists>ks. sorted_wrt (<) ks \<and> set ks = {j \<in> dom (bt_get m). k \<le> j} \<and>
    map snd (bt_range_from k m) = map (\<lambda>j. the (bt_get m j)) ks"
proof (intro exI conjI)
  show "sorted_wrt (<) (map fst (bt_range_from k m))"
    using bt_ok_filter [OF assms, of "\<lambda>e. k \<le> fst e"] by (simp add: bt_ok_def bt_range_from_def)
  show "set (map fst (bt_range_from k m)) = {j \<in> dom (bt_get m). k \<le> j}"
    by (auto simp: bt_range_from_def dom_bt_get)
  have "bt_get m (fst e) = Some (snd e)" if "e \<in> set m" for e
    using that by (simp add: bt_get_entry [OF assms])
  then show "map snd (bt_range_from k m) = map (\<lambda>j. the (bt_get m j)) (map fst (bt_range_from k m))"
    by (simp add: bt_range_from_def)
qed

end
