(* ===== verification/State_Sync.thy ===== *)
theory State_Sync
  imports BTree_Map
begin

text \<open>
  \<open>state_sync.rs\<close>: the trait by which an application's state is shared, and the crate's own
  instance, the tree of leaves of \<open>proto.rs\<close> and \<open>generated/tree_state.rs\<close>.
\<close>

section \<open>The trait\<close>

text \<open>
  \<open>apply_delta\<close> takes the delta and the state; it can fail, having changed the state or not,
  and it can panic. \<open>default_state\<close> is the bound \<open>Default\<close>.
\<close>

record ('st, 'd, 'ae) state_sync =
  default_state :: 'st
  apply_delta :: "'d \<Rightarrow> 'st \<Rightarrow> (('ae, unit) result \<times> 'st) run"

definition reset :: "('st, 'd, 'ae) state_sync \<Rightarrow> 'st \<Rightarrow> 'st" where
  "reset S st = default_state S"

text \<open>Applying deltas in order, as long as each succeeds.\<close>

fun apply_all :: "('st, 'd, 'ae) state_sync \<Rightarrow> 'd list \<Rightarrow> 'st \<Rightarrow> 'st option" where
  "apply_all S [] st = Some st"
| "apply_all S (d # ds) st =
     (case apply_delta S d st of Ret (Inr _, st') \<Rightarrow> apply_all S ds st' | _ \<Rightarrow> None)"

lemma apply_all_append:
  "apply_all S (ds @ es) st = Option.bind (apply_all S ds st) (apply_all S es)"
  by (induction ds arbitrary: st) (auto split: run.split sum.split prod.split)

section \<open>The tree of leaves\<close>

text \<open>The fields are \<open>i32\<close>.\<close>

record leaf =
  leaf_id :: int
  leaf_a :: int
  leaf_b :: int

record edit_leaf =
  edit_id :: int
  edit_value :: int

datatype tree_delta = Edit_A edit_leaf | Edit_B edit_leaf | Delete_Leaf int | New_Leaf leaf

text \<open>\<open>LeafDelta\<close> has one optional field.\<close>

datatype leaf_delta = Leaf_Delta (tree_delta: "tree_delta option")

record tree_state =
  leaves :: "(int, leaf) btree_map"

definition tree_default :: tree_state where
  "tree_default = \<lparr>leaves = []\<rparr>"

text \<open>\<open>get_mut(..).unwrap()\<close> and the assignment through it.\<close>

definition edit_entry :: "int \<Rightarrow> (leaf \<Rightarrow> leaf) \<Rightarrow> tree_state \<Rightarrow> ((unit, unit) result \<times> tree_state) run" where
  "edit_entry i f st =
     (case bt_get (leaves st) i of
        None \<Rightarrow> Panic
      | Some x \<Rightarrow> Ret (Inr (), st\<lparr>leaves := bt_insert i (f x) (leaves st)\<rparr>))"

text \<open>The error type is \<open>Infallible\<close>; it is the unit type here, and no branch returns it.\<close>

definition tree_apply_delta :: "leaf_delta \<Rightarrow> tree_state \<Rightarrow> ((unit, unit) result \<times> tree_state) run" where
  "tree_apply_delta d st =
     (case tree_delta d of
        None \<Rightarrow> Panic
      | Some (Edit_A edit) \<Rightarrow>
          edit_entry (edit_id edit) (\<lambda>x. x\<lparr>leaf_a := wrap_i32 (leaf_a x + edit_value edit)\<rparr>) st
      | Some (Edit_B edit) \<Rightarrow>
          edit_entry (edit_id edit) (\<lambda>x. x\<lparr>leaf_b := wrap_i32 (leaf_b x + edit_value edit)\<rparr>) st
      | Some (New_Leaf leaf) \<Rightarrow> Ret (Inr (), st\<lparr>leaves := bt_insert (leaf_id leaf) leaf (leaves st)\<rparr>)
      | Some (Delete_Leaf i) \<Rightarrow> Ret (Inr (), st\<lparr>leaves := bt_remove i (leaves st)\<rparr>))"

definition tree_sync :: "(tree_state, leaf_delta, unit) state_sync" where
  "tree_sync = \<lparr>default_state = tree_default, apply_delta = tree_apply_delta\<rparr>"

definition tree_ok :: "tree_state \<Rightarrow> bool" where
  "tree_ok st \<longleftrightarrow> bt_ok (leaves st) \<and> (\<forall>i l. bt_get (leaves st) i = Some l \<longrightarrow> leaf_id l = i)"

text \<open>What a delta does to the map of leaves; \<open>None\<close> where the code panics.\<close>

definition tree_effect :: "leaf_delta \<Rightarrow> (int \<rightharpoonup> leaf) \<Rightarrow> (int \<rightharpoonup> leaf) option" where
  "tree_effect d m =
     (case tree_delta d of
        None \<Rightarrow> None
      | Some (Edit_A e) \<Rightarrow> map_option (\<lambda>x. m(edit_id e \<mapsto> x\<lparr>leaf_a := wrap_i32 (leaf_a x + edit_value e)\<rparr>)) (m (edit_id e))
      | Some (Edit_B e) \<Rightarrow> map_option (\<lambda>x. m(edit_id e \<mapsto> x\<lparr>leaf_b := wrap_i32 (leaf_b x + edit_value e)\<rparr>)) (m (edit_id e))
      | Some (New_Leaf l) \<Rightarrow> Some (m(leaf_id l \<mapsto> l))
      | Some (Delete_Leaf i) \<Rightarrow> Some (m(i := None)))"

lemma edit_entry_effect:
  assumes "tree_ok st" "\<And>x. leaf_id (f x) = leaf_id x"
  shows "case bt_get (leaves st) i of
      None \<Rightarrow> edit_entry i f st = Panic
    | Some x \<Rightarrow> \<exists>st'. edit_entry i f st = Ret (Inr (), st') \<and> tree_ok st' \<and>
        bt_get (leaves st') = (bt_get (leaves st))(i \<mapsto> f x)"
  using assms by (auto simp: edit_entry_def tree_ok_def split: option.split)

lemma tree_apply_effect:
  assumes "tree_ok st"
  shows "case tree_effect d (bt_get (leaves st)) of
      None \<Rightarrow> tree_apply_delta d st = Panic
    | Some m \<Rightarrow> \<exists>st'. tree_apply_delta d st = Ret (Inr (), st') \<and> tree_ok st' \<and> bt_get (leaves st') = m"
proof (cases "tree_delta d")
  case None
  then show ?thesis by (simp add: tree_effect_def tree_apply_delta_def)
next
  case (Some td)
  show ?thesis
  proof (cases td)
    case (Edit_A e)
    then show ?thesis using Some edit_entry_effect [OF assms, of "\<lambda>x. x\<lparr>leaf_a := wrap_i32 (leaf_a x + edit_value e)\<rparr>" "edit_id e"]
      by (simp add: tree_effect_def tree_apply_delta_def split: option.splits)
  next
    case (Edit_B e)
    then show ?thesis using Some edit_entry_effect [OF assms, of "\<lambda>x. x\<lparr>leaf_b := wrap_i32 (leaf_b x + edit_value e)\<rparr>" "edit_id e"]
      by (simp add: tree_effect_def tree_apply_delta_def split: option.splits)
  qed (use Some assms in \<open>auto simp: tree_effect_def tree_apply_delta_def tree_ok_def\<close>)
qed

section \<open>Properties\<close>

text \<open>C33: applying a delta to the tree refines the map of leaves. An edit changes one field of
  one leaf (wrapping around as an \<open>i32\<close>) and nothing else, a new leaf is entered under its
  own id, a deletion removes one id; the only panics are a delta without content and an
  edit of a leaf that does not exist; leaves always sit under their own id.\<close>

theorem tree_delta_refines:
  assumes "tree_ok st"
  shows "case tree_effect d (bt_get (leaves st)) of
      None \<Rightarrow> tree_apply_delta d st = Panic
    | Some m \<Rightarrow> \<exists>st'. tree_apply_delta d st = Ret (Inr (), st') \<and> tree_ok st' \<and> bt_get (leaves st') = m"
  using assms by (rule tree_apply_effect)

theorem tree_delta_refines_witness:
  "\<exists>st'. tree_apply_delta (Leaf_Delta (Some (Edit_B \<lparr>edit_id = 1, edit_value = - 10\<rparr>)))
      \<lparr>leaves = [(1, \<lparr>leaf_id = 1, leaf_a = 2, leaf_b = 3\<rparr>)]\<rparr> = Ret (Inr (), st') \<and>
    bt_get (leaves st') = [1 \<mapsto> \<lparr>leaf_id = 1, leaf_a = 2, leaf_b = - 7\<rparr>]"
proof -
  let ?st = "\<lparr>leaves = [(1, \<lparr>leaf_id = 1, leaf_a = 2, leaf_b = 3\<rparr>)]\<rparr>"
  have get: "bt_get (leaves ?st) = [1 \<mapsto> \<lparr>leaf_id = 1, leaf_a = 2, leaf_b = 3\<rparr>]"
    by (simp add: bt_get_def fun_eq_iff)
  have "tree_ok ?st" using get by (auto simp: tree_ok_def split: if_splits)
  from tree_delta_refines [OF this, of "Leaf_Delta (Some (Edit_B \<lparr>edit_id = 1, edit_value = - 10\<rparr>))"]
  show ?thesis unfolding get by (auto simp: tree_effect_def wrap_i32_def)
qed

end
