(* ===== verification/Aggregator.thy ===== *)
theory Aggregator
  imports Sequencing State_Sync
begin

text \<open>
  \<open>subscriber/aggregator.rs\<close>: a subscriber's copy of the state. One task (the forwarder) turns the
  sequencer's stream into a bounded channel of deltas; a second task (the producer) applies them to
  the shared state and notifies a watch channel whenever the channel of deltas runs empty.

  An awaited operation that completes is one step of its task; a task whose operation cannot
  complete yet has no step. The watch channel carries a pointer to the shared state, so what a
  receiver reads is the state itself.
\<close>

section \<open>State\<close>

text \<open>\<open>get_delta\<close>\<close>

fun get_delta :: "'d subscriber_stream \<Rightarrow> 'd option" where
  "get_delta (Stream_Message send_ts rec_ts org (SDelta delta)) = Some delta"
| "get_delta _ = None"

text \<open>Where the forwarder is: in \<open>sequencer.next().await\<close>, in \<open>sequencer_tx.send(delta).await\<close>, or gone
  (and with it the sender of the channel).\<close>

datatype 'd forwarder =
  Listening message_sequencer clocks
| Sending 'd message_sequencer clocks
| Forwarder_Done

text \<open>Where the producer is: about to receive (with the value of \<open>empty\<close>), waiting for the write
  lock with a delta, or gone (and with it the receiver of the channel), for one of four reasons.\<close>

datatype stop = Sender_Closed | Receivers_Closed | Apply_Failed | Apply_Panicked

datatype 'd producer = Receiving bool | Applying 'd | Producer_Done stop

text \<open>
  \<open>receivers\<close> counts the watch channel's receivers, the aggregator's own one included. \<open>notified\<close>
  is the value that the state had when the watch channel was last notified.
\<close>

record ('st, 'd) aggregator =
  forwarder :: "'d forwarder"
  queue :: "'d list"
  buffer_size :: nat
  producer :: "'d producer"
  agg_state :: 'st
  notified :: 'st
  receivers :: nat

text \<open>\<open>Aggregator::new\<close>: tokio's bounded channel panics when its size is 0.\<close>

definition aggregator_new ::
  "('st, 'd, 'ae) state_sync \<Rightarrow> message_sequencer \<Rightarrow> nat option \<Rightarrow> clocks \<Rightarrow> ('st, 'd) aggregator run" where
  "aggregator_new S sequencer sequencer_buf_size c =
     (let size = (case sequencer_buf_size of Some n \<Rightarrow> n | None \<Rightarrow> 10000)
      in if size = 0 then Panic
         else Ret \<lparr>forwarder = Listening sequencer c, queue = [], buffer_size = size,
           producer = Receiving True, agg_state = default_state S, notified = default_state S, receivers = 1\<rparr>)"

text \<open>\<open>subscribe\<close>: one more receiver.\<close>

definition subscribe :: "('st, 'd) aggregator \<Rightarrow> ('st, 'd) aggregator" where
  "subscribe ag = ag\<lparr>receivers := Suc (receivers ag)\<rparr>"

section \<open>The tasks\<close>

definition forwarder_step :: "'d subscriber_deps \<Rightarrow> ('st, 'd) aggregator \<Rightarrow> ('st, 'd) aggregator option" where
  "forwarder_step deps ag =
     (case forwarder ag of
        Listening sq c \<Rightarrow>
          (case sequencer_next deps sq c of
             Ret (Return (Inr data) sq' c') \<Rightarrow>
               Some (ag\<lparr>forwarder := (case get_delta data of
                  Some delta \<Rightarrow> Sending delta sq' c'
                | None \<Rightarrow> Listening sq' c')\<rparr>)
           | Ret (Return (Inl err) sq' c') \<Rightarrow> Some (ag\<lparr>forwarder := Forwarder_Done\<rparr>)
           | Ret (Fall sq' c') \<Rightarrow> Some (ag\<lparr>forwarder := Forwarder_Done\<rparr>)
           | Panic \<Rightarrow> Some (ag\<lparr>forwarder := Forwarder_Done\<rparr>)
           | Pending \<Rightarrow> None)
      | Sending delta sq c \<Rightarrow>
          (case producer ag of
             Producer_Done why \<Rightarrow> Some (ag\<lparr>forwarder := Forwarder_Done\<rparr>)
           | _ \<Rightarrow>
               if length (queue ag) < buffer_size ag
               then Some (ag\<lparr>queue := queue ag @ [delta], forwarder := Listening sq c\<rparr>)
               else None)
      | Forwarder_Done \<Rightarrow> None)"

text \<open>\<open>torn\<close> is what an \<open>apply_delta\<close> that panics leaves of the state.\<close>

definition producer_step ::
  "('st, 'd, 'ae) state_sync \<Rightarrow> ('d \<Rightarrow> 'st \<Rightarrow> 'st) \<Rightarrow> ('st, 'd) aggregator \<Rightarrow> ('st, 'd) aggregator option" where
  "producer_step S torn ag =
     (case producer ag of
        Receiving was_empty \<Rightarrow>
          (case queue ag of
             delta # rest \<Rightarrow> Some (ag\<lparr>queue := rest, producer := Applying delta\<rparr>)
           | [] \<Rightarrow>
               if forwarder ag = Forwarder_Done then Some (ag\<lparr>producer := Producer_Done Sender_Closed\<rparr>)
               else if was_empty then None
               else if receivers ag = 0 then Some (ag\<lparr>producer := Producer_Done Receivers_Closed\<rparr>)
               else Some (ag\<lparr>notified := agg_state ag, producer := Receiving True\<rparr>))
      | Applying delta \<Rightarrow>
          (case apply_delta S delta (agg_state ag) of
             Ret (Inr _, st) \<Rightarrow> Some (ag\<lparr>agg_state := st, producer := Receiving False\<rparr>)
           | Ret (Inl err, st) \<Rightarrow> Some (ag\<lparr>agg_state := st, producer := Producer_Done Apply_Failed\<rparr>)
           | Panic \<Rightarrow> Some (ag\<lparr>agg_state := torn delta (agg_state ag), producer := Producer_Done Apply_Panicked\<rparr>)
           | Pending \<Rightarrow> None)
      | Producer_Done why \<Rightarrow> None)"

text \<open>The tasks, and the owners of receivers, in any order.\<close>

inductive aggregator_step ::
  "('st, 'd, 'ae) state_sync \<Rightarrow> 'd subscriber_deps \<Rightarrow> ('d \<Rightarrow> 'st \<Rightarrow> 'st) \<Rightarrow>
   ('st, 'd) aggregator \<Rightarrow> ('st, 'd) aggregator \<Rightarrow> bool"
  for S :: "('st, 'd, 'ae) state_sync" and deps :: "'d subscriber_deps" and torn :: "'d \<Rightarrow> 'st \<Rightarrow> 'st"
  where
    forwards: "forwarder_step deps ag = Some ag' \<Longrightarrow> aggregator_step S deps torn ag ag'"
  | produces: "producer_step S torn ag = Some ag' \<Longrightarrow> aggregator_step S deps torn ag ag'"
  | subscribes: "0 < receivers ag \<Longrightarrow> aggregator_step S deps torn ag (subscribe ag)"
  | unsubscribes: "0 < receivers ag \<Longrightarrow> aggregator_step S deps torn ag (ag\<lparr>receivers := receivers ag - 1\<rparr>)"

inductive aggregator_runs ::
  "('st, 'd, 'ae) state_sync \<Rightarrow> 'd subscriber_deps \<Rightarrow> ('d \<Rightarrow> 'st \<Rightarrow> 'st) \<Rightarrow>
   ('st, 'd) aggregator \<Rightarrow> ('st, 'd) aggregator \<Rightarrow> bool"
  for S :: "('st, 'd, 'ae) state_sync" and deps :: "'d subscriber_deps" and torn :: "'d \<Rightarrow> 'st \<Rightarrow> 'st"
  where
    stays: "aggregator_runs S deps torn ag ag"
  | goes_on: "aggregator_runs S deps torn ag ag' \<Longrightarrow> aggregator_step S deps torn ag' ag'' \<Longrightarrow>
      aggregator_runs S deps torn ag ag''"

inductive_cases aggregator_stepE: "aggregator_step S deps torn ag ag'"

section \<open>Deltas of a stream\<close>

text \<open>The deltas among the items of a stream.\<close>

fun item_delta :: "'d stream_item \<Rightarrow> 'd option" where
  "item_delta (Inr data) = get_delta data"
| "item_delta (Inl err) = None"

definition stream_deltas :: "'d stream_item list \<Rightarrow> 'd list" where
  "stream_deltas rs = List.map_filter item_delta rs"

lemma stream_deltas_snoc [simp]:
  "stream_deltas (rs @ [r]) = stream_deltas rs @ (case item_delta r of Some d \<Rightarrow> [d] | None \<Rightarrow> [])"
  by (simp add: stream_deltas_def List.map_filter_def split: option.split)

lemma stream_deltas_append: "stream_deltas (rs @ rs') = stream_deltas rs @ stream_deltas rs'"
  by (simp add: stream_deltas_def List.map_filter_def)

lemma stream_deltas_Nil [simp]: "stream_deltas [] = []"
  by (simp add: stream_deltas_def List.map_filter_def)

text \<open>One more item.\<close>

lemma into_stream_snoc:
  "into_stream deps n s c = (rs, Ret (s', c')) \<Longrightarrow> sequencer_next deps s' c' = Ret (Return r s'' c'') \<Longrightarrow>
   into_stream deps (Suc n) s c = (rs @ [r], Ret (s'', c''))"
proof (induction n arbitrary: s c rs)
  case 0
  then show ?case by simp
next
  case (Suc n)
  obtain q s1 c1 where q: "sequencer_next deps s c = Ret (Return q s1 c1)"
    using Suc.prems(1) by (auto split: run.splits block.splits)
  obtain rs1 fin where rec: "into_stream deps n s1 c1 = (rs1, fin)" by fastforce
  then have "rs = q # rs1" "fin = Ret (s', c')" using Suc.prems(1) q by auto
  with Suc.IH [OF _ Suc.prems(2), of s1 c1 rs1] rec q show ?case by simp
qed

section \<open>The state is a replay\<close>

definition sending :: "('st, 'd) aggregator \<Rightarrow> 'd list" where
  "sending ag = (case forwarder ag of Sending d sq c \<Rightarrow> [d] | _ \<Rightarrow> [])"

text \<open>The forwarder has read \<open>n\<close> items of the stream and passed them on: none of them was an error.\<close>

definition all_data :: "'d stream_item list \<Rightarrow> bool" where
  "all_data rs \<longleftrightarrow> (\<forall>r \<in> set rs. \<exists>data. r = Inr data)"

definition has_read ::
  "'d subscriber_deps \<Rightarrow> message_sequencer \<Rightarrow> clocks \<Rightarrow> nat \<Rightarrow> ('st, 'd) aggregator \<Rightarrow> bool" where
  "has_read deps sq0 c0 n ag \<longleftrightarrow> all_data (fst (into_stream deps n sq0 c0)) \<and> (case forwarder ag of
     Listening sq c \<Rightarrow> snd (into_stream deps n sq0 c0) = Ret (sq, c)
   | Sending d sq c \<Rightarrow> snd (into_stream deps n sq0 c0) = Ret (sq, c)
   | Forwarder_Done \<Rightarrow> True)"

text \<open>
  Where the producer is when the state was \<open>st\<close> after the last complete delta and the deltas in
  \<open>rest\<close> have been read from the stream since.
\<close>

definition stage ::
  "('st, 'd, 'ae) state_sync \<Rightarrow> ('d \<Rightarrow> 'st \<Rightarrow> 'st) \<Rightarrow> 'st \<Rightarrow> 'd list \<Rightarrow> ('st, 'd) aggregator \<Rightarrow> bool" where
  "stage S torn st rest ag =
     (case producer ag of
        Receiving e \<Rightarrow> agg_state ag = st \<and> rest = queue ag @ sending ag \<and> (e \<longrightarrow> notified ag = st)
      | Applying d \<Rightarrow> agg_state ag = st \<and> rest = d # queue ag @ sending ag
      | Producer_Done Sender_Closed \<Rightarrow> agg_state ag = st \<and> rest = [] \<and> forwarder ag = Forwarder_Done
      | Producer_Done Receivers_Closed \<Rightarrow> agg_state ag = st
      | Producer_Done Apply_Failed \<Rightarrow> (\<exists>d ds e. rest = d # ds \<and> apply_delta S d st = Ret (Inl e, agg_state ag))
      | Producer_Done Apply_Panicked \<Rightarrow>
          (\<exists>d ds. rest = d # ds \<and> apply_delta S d st = Panic \<and> agg_state ag = torn d st))"

text \<open>The receivers have last been told of the replay of some of the applied deltas, the first ones.\<close>

definition announced :: "('st, 'd, 'ae) state_sync \<Rightarrow> 'd list \<Rightarrow> ('st, 'd) aggregator \<Rightarrow> bool" where
  "announced S applied ag \<longleftrightarrow>
     (\<exists>k \<le> length applied. apply_all S (take k applied) (default_state S) = Some (notified ag))"

lemma announced_same: "announced S applied ag \<Longrightarrow> notified ag' = notified ag \<Longrightarrow> announced S applied ag'"
  by (simp add: announced_def)

lemma announced_now: "apply_all S applied (default_state S) = Some (notified ag) \<Longrightarrow> announced S applied ag"
  unfolding announced_def by (intro exI [of _ "length applied"]) simp

lemma announced_snoc: "announced S applied ag \<Longrightarrow> announced S (applied @ [d]) ag"
  by (auto simp: announced_def intro: le_SucI)

text \<open>The state is the replay of the applied deltas, unless the last one failed.\<close>

definition replayed ::
  "('st, 'd, 'ae) state_sync \<Rightarrow> ('d \<Rightarrow> 'st \<Rightarrow> 'st) \<Rightarrow> 'd list \<Rightarrow> 'd list \<Rightarrow> ('st, 'd) aggregator \<Rightarrow> bool" where
  "replayed S torn applied rest ag \<longleftrightarrow>
     (\<exists>st. apply_all S applied (default_state S) = Some st \<and> stage S torn st rest ag) \<and> announced S applied ag"

definition aggregator_inv ::
  "('st, 'd, 'ae) state_sync \<Rightarrow> 'd subscriber_deps \<Rightarrow> ('d \<Rightarrow> 'st \<Rightarrow> 'st) \<Rightarrow> message_sequencer \<Rightarrow> clocks \<Rightarrow>
   ('st, 'd) aggregator \<Rightarrow> bool" where
  "aggregator_inv S deps torn sq0 c0 ag \<longleftrightarrow> length (queue ag) \<le> buffer_size ag \<and> 0 < buffer_size ag \<and>
     (\<exists>n applied rest. has_read deps sq0 c0 n ag \<and>
        stream_deltas (fst (into_stream deps n sq0 c0)) = applied @ rest \<and> replayed S torn applied rest ag)"

lemma aggregator_invI:
  assumes "length (queue ag) \<le> buffer_size ag" "0 < buffer_size ag" "has_read deps sq0 c0 n ag"
    and "stream_deltas (fst (into_stream deps n sq0 c0)) = applied @ rest" "replayed S torn applied rest ag"
  shows "aggregator_inv S deps torn sq0 c0 ag"
  using assms unfolding aggregator_inv_def by blast

lemma new_inv:
  assumes "aggregator_new S sq buf c = Ret ag" shows "aggregator_inv S deps torn sq c ag"
  by (rule aggregator_invI [where n = 0 and applied = "[]" and rest = "[]"])
    (use assms in \<open>auto simp: aggregator_new_def Let_def has_read_def all_data_def replayed_def stage_def sending_def announced_def
       split: if_splits option.splits\<close>)

text \<open>The forwarder gone, nothing it held counts any more.\<close>

lemma forwarder_gone:
  assumes "stage S torn st rest ag" "sending ag = [] \<or> (\<exists>why. producer ag = Producer_Done why)"
  shows "stage S torn st rest (ag\<lparr>forwarder := Forwarder_Done\<rparr>)"
proof (cases "producer ag")
  case (Producer_Done why)
  then show ?thesis using assms by (cases why) (auto simp: stage_def)
qed (use assms in \<open>auto simp: stage_def sending_def\<close>)

lemma stage_sent:
  assumes "stage S torn st rest ag" "sending ag = []" "forwarder ag \<noteq> Forwarder_Done" "f \<noteq> Forwarder_Done"
  shows "stage S torn st (rest @ sending (ag\<lparr>forwarder := f\<rparr>)) (ag\<lparr>forwarder := f\<rparr>)"
proof (cases "producer ag")
  case (Producer_Done why)
  then show ?thesis using assms by (cases why) (auto simp: stage_def)
qed (use assms in \<open>auto simp: stage_def sending_def\<close>)

lemma stage_queued:
  assumes "stage S torn st rest ag" "forwarder ag = Sending d sq c" "\<And>why. producer ag \<noteq> Producer_Done why"
  shows "stage S torn st rest (ag\<lparr>queue := queue ag @ [d], forwarder := Listening sq c\<rparr>)"
  using assms by (cases "producer ag") (auto simp: stage_def sending_def)

lemma forwarder_keeps:
  assumes inv: "aggregator_inv S deps torn sq0 c0 ag" and step: "forwarder_step deps ag = Some ag'"
  shows "aggregator_inv S deps torn sq0 c0 ag'"
proof -
  obtain n applied rest st where size: "length (queue ag) \<le> buffer_size ag" "0 < buffer_size ag"
    and read: "has_read deps sq0 c0 n ag"
    and deltas: "stream_deltas (fst (into_stream deps n sq0 c0)) = applied @ rest"
    and st: "apply_all S applied (default_state S) = Some st" and stage: "stage S torn st rest ag"
    and told: "announced S applied ag"
    using inv unfolding aggregator_inv_def replayed_def by (elim conjE exE)
  have repI: "replayed S torn applied rest' ag''" if "stage S torn st rest' ag''" "notified ag'' = notified ag" for rest' ag''
    unfolding replayed_def using st that(1) announced_same [OF told that(2)] by blast
  note invI = aggregator_invI [where n = n and applied = applied and rest = rest, OF _ _ _ deltas repI]
  show ?thesis
  proof (cases "forwarder ag")
    case (Listening sq c)
    then have sent: "sending ag = []" by (simp add: sending_def)
    have gone: ?thesis if "ag' = ag\<lparr>forwarder := Forwarder_Done\<rparr>"
      unfolding that by (rule invI) (use size forwarder_gone [OF stage] sent read in \<open>simp_all add: has_read_def\<close>)
    show ?thesis
    proof (cases "\<exists>data sq' c'. sequencer_next deps sq c = Ret (Return (Inr data) sq' c')")
      case True
      then obtain data sq' c' where nxt: "sequencer_next deps sq c = Ret (Return (Inr data) sq' c')" by blast
      obtain rs where rs: "into_stream deps n sq0 c0 = (rs, Ret (sq, c))"
        using read Listening by (cases "into_stream deps n sq0 c0") (simp add: has_read_def)
      note more = into_stream_snoc [OF rs nxt]
      have ag': "ag' = ag\<lparr>forwarder := (case get_delta data of
          Some delta \<Rightarrow> Sending delta sq' c' | None \<Rightarrow> Listening sq' c')\<rparr>"
        using step Listening nxt by (simp add: forwarder_step_def)
      have "has_read deps sq0 c0 (Suc n) ag'"
        using read rs unfolding has_read_def more ag' by (simp add: all_data_def split: option.split)
      moreover have "stream_deltas (fst (into_stream deps (Suc n) sq0 c0)) = applied @ rest @ sending ag'"
        unfolding more using deltas rs ag' by (simp add: sending_def split: option.split)
      moreover have "replayed S torn applied (rest @ sending ag') ag'"
        unfolding ag' by (rule repI, rule stage_sent [OF stage sent]) (use Listening in \<open>simp_all split: option.split\<close>)
      ultimately show ?thesis
        by (intro aggregator_invI [where n = "Suc n" and applied = applied and rest = "rest @ sending ag'"])
          (use size ag' in \<open>simp_all del: into_stream.simps\<close>)
    next
      case False
      then show ?thesis using step Listening gone
        by (auto simp: forwarder_step_def split: run.splits block.splits sum.splits)
    qed
  next
    case (Sending d sq c)
    show ?thesis
    proof (cases "\<exists>why. producer ag = Producer_Done why")
      case True
      then have ag': "ag' = ag\<lparr>forwarder := Forwarder_Done\<rparr>" using step Sending by (auto simp: forwarder_step_def)
      show ?thesis unfolding ag'
        by (rule invI) (use size forwarder_gone [OF stage] True read in \<open>simp_all add: has_read_def\<close>)
    next
      case False
      then have ag': "length (queue ag) < buffer_size ag"
          "ag' = ag\<lparr>queue := queue ag @ [d], forwarder := Listening sq c\<rparr>"
        using step Sending by (auto simp: forwarder_step_def split: producer.splits if_splits)
      show ?thesis unfolding ag'(2)
        by (rule invI) (use size ag'(1) read stage_queued [OF stage Sending] Sending False in
            \<open>simp_all add: has_read_def\<close>)
    qed
  next
    case Forwarder_Done
    then show ?thesis using step by (simp add: forwarder_step_def)
  qed
qed

lemma apply_all_snoc:
  "apply_all S ds st0 = Some st \<Longrightarrow> apply_delta S d st = Ret (Inr u, st') \<Longrightarrow> apply_all S (ds @ [d]) st0 = Some st'"
  by (simp add: apply_all_append)

lemma producer_keeps:
  assumes inv: "aggregator_inv S deps torn sq0 c0 ag" and step: "producer_step S torn ag = Some ag'"
  shows "aggregator_inv S deps torn sq0 c0 ag'"
proof -
  obtain n applied rest st where size: "length (queue ag) \<le> buffer_size ag" "0 < buffer_size ag"
    and read: "has_read deps sq0 c0 n ag"
    and deltas: "stream_deltas (fst (into_stream deps n sq0 c0)) = applied @ rest"
    and st: "apply_all S applied (default_state S) = Some st" and stage: "stage S torn st rest ag"
    and told: "announced S applied ag"
    using inv unfolding aggregator_inv_def replayed_def by (elim conjE exE)
  have same: "forwarder ag' = forwarder ag" "buffer_size ag' = buffer_size ag" "length (queue ag') \<le> length (queue ag)"
    using step by (auto simp: producer_step_def split: producer.splits list.splits if_splits run.splits sum.splits)
  have read': "has_read deps sq0 c0 n ag'" using read same(1) by (simp add: has_read_def)
  have sending: "sending ag' = sending ag" using same(1) by (simp add: sending_def)
  have size': "length (queue ag') \<le> buffer_size ag'" "0 < buffer_size ag'" using size same by simp_all
  have keep: ?thesis if "stage S torn st rest ag'" "announced S applied ag'"
    by (rule aggregator_invI [OF size' read' deltas]) (use st that in \<open>auto simp: replayed_def\<close>)
  note told' = announced_same [OF told, of ag'] and now = announced_now [of S applied ag']
  show ?thesis
  proof (cases "producer ag")
    case (Receiving e)
    then show ?thesis using step stage st told' now
      by (intro keep) (auto simp: producer_step_def stage_def sending_def split: list.splits if_splits)
  next
    case (Applying d)
    have rest: "rest = d # queue ag @ sending ag" "agg_state ag = st" using stage Applying by (simp_all add: stage_def)
    show ?thesis
    proof (cases "\<exists>u st'. apply_delta S d st = Ret (Inr u, st')")
      case True
      then obtain u st' where ok: "apply_delta S d st = Ret (Inr u, st')" by blast
      then have ag': "ag' = ag\<lparr>agg_state := st', producer := Receiving False\<rparr>"
        using step Applying rest(2) by (simp add: producer_step_def)
      have "stage S torn st' (queue ag @ sending ag) ag'"
        using sending by (simp add: stage_def ag')
      then have "replayed S torn (applied @ [d]) (queue ag @ sending ag) ag'"
        unfolding replayed_def using apply_all_snoc [OF st ok] announced_snoc [OF told'] ag' by simp
      then show ?thesis by (rule aggregator_invI [OF size' read', rotated]) (simp add: deltas rest(1))
    next
      case False
      then show ?thesis using step Applying rest told'
        by (intro keep) (auto simp: producer_step_def stage_def split: run.splits sum.splits)
    qed
  next
    case (Producer_Done why)
    then show ?thesis using step by (simp add: producer_step_def)
  qed
qed

lemma receivers_keep:
  assumes "aggregator_inv S deps torn sq0 c0 ag"
  shows "aggregator_inv S deps torn sq0 c0 (ag\<lparr>receivers := r\<rparr>)"
proof -
  have "has_read deps sq0 c0 n (ag\<lparr>receivers := r\<rparr>) = has_read deps sq0 c0 n ag" for n
    by (simp add: has_read_def)
  moreover have "stage S torn st rest (ag\<lparr>receivers := r\<rparr>) = stage S torn st rest ag" for st rest
    by (simp add: stage_def sending_def split: producer.split stop.split)
  moreover have "announced S applied (ag\<lparr>receivers := r\<rparr>) = announced S applied ag" for applied
    by (simp add: announced_def)
  ultimately show ?thesis using assms by (simp add: aggregator_inv_def replayed_def)
qed

lemma step_keeps:
  assumes "aggregator_inv S deps torn sq0 c0 ag" "aggregator_step S deps torn ag ag'"
  shows "aggregator_inv S deps torn sq0 c0 ag'"
  using assms(2)
  by (rule aggregator_stepE)
    (use assms(1) forwarder_keeps producer_keeps receivers_keep in \<open>auto simp: subscribe_def\<close>)

lemma aggregator_runs_keep:
  "aggregator_runs S deps torn ag ag' \<Longrightarrow> aggregator_inv S deps torn sq0 c0 ag \<Longrightarrow>
   aggregator_inv S deps torn sq0 c0 ag'"
  by (induction rule: aggregator_runs.induct) (auto intro: step_keeps)

section \<open>The producer drains and waits\<close>

text \<open>How many steps the producer can take before something new arrives.\<close>

definition pending_steps :: "('st, 'd) aggregator \<Rightarrow> nat" where
  "pending_steps ag = 2 * length (queue ag) +
     (case producer ag of Receiving e \<Rightarrow> (if e \<and> queue ag = [] then 1 else 2) | Applying d \<Rightarrow> 3 | Producer_Done why \<Rightarrow> 0)"

lemma producer_step_less: "producer_step S torn ag = Some ag' \<Longrightarrow> pending_steps ag' < pending_steps ag"
  by (auto simp: producer_step_def pending_steps_def split: producer.splits list.splits if_splits run.splits sum.splits)

text \<open>The producer alone, until it waits or is gone.\<close>

function producer_drain ::
  "('st, 'd, 'ae) state_sync \<Rightarrow> ('d \<Rightarrow> 'st \<Rightarrow> 'st) \<Rightarrow> ('st, 'd) aggregator \<Rightarrow> nat \<times> ('st, 'd) aggregator" where
  "producer_drain S torn ag =
     (case producer_step S torn ag of
        None \<Rightarrow> (0, ag)
      | Some ag' \<Rightarrow> (let (n, last) = producer_drain S torn ag' in (Suc n, last)))"
  by pat_completeness auto
termination
  by (relation "measure (\<lambda>(S, torn, ag). pending_steps ag)") (auto dest: producer_step_less)

declare producer_drain.simps [simp del]

lemma producer_drain_none: "producer_step S torn ag = None \<Longrightarrow> producer_drain S torn ag = (0, ag)"
  by (subst producer_drain.simps) simp

lemma producer_drain_some:
  "producer_step S torn ag = Some ag' \<Longrightarrow> producer_drain S torn ag = (Suc (fst (producer_drain S torn ag')), snd (producer_drain S torn ag'))"
  by (subst producer_drain.simps) (simp add: case_prod_beta Let_def)

lemma drained:
  assumes "apply_all S (queue ag) (agg_state ag) = Some st" "forwarder ag \<noteq> Forwarder_Done" "0 < receivers ag"
    and "producer ag = Receiving e" "e \<Longrightarrow> notified ag = agg_state ag"
  shows "producer_drain S torn ag =
    (2 * length (queue ag) + (if e \<and> queue ag = [] then 0 else 1),
     ag\<lparr>queue := [], producer := Receiving True, agg_state := st, notified := st\<rparr>)"
  using assms
proof (induction "queue ag" arbitrary: ag e)
  case Nil
  then have st: "st = agg_state ag" "queue ag = []" by simp_all
  show ?case
  proof (cases e)
    case True
    then have "producer_step S torn ag = None" using Nil st by (simp add: producer_step_def)
    moreover have "ag = ag\<lparr>queue := [], producer := Receiving True, agg_state := st, notified := st\<rparr>"
      using Nil.prems st True by simp
    ultimately show ?thesis using st(2) True by (simp add: producer_drain_none)
  next
    case False
    let ?ag = "ag\<lparr>notified := agg_state ag, producer := Receiving True\<rparr>"
    have "producer_step S torn ag = Some ?ag" using Nil st False by (simp add: producer_step_def)
    moreover have "producer_step S torn ?ag = None" using Nil st by (simp add: producer_step_def)
    moreover have "?ag = ag\<lparr>queue := [], producer := Receiving True, agg_state := st, notified := st\<rparr>"
      using st by simp
    ultimately show ?thesis using False st(2) by (simp add: producer_drain_some producer_drain_none)
  qed
next
  case (Cons d ds)
  let ?ag1 = "ag\<lparr>queue := ds, producer := Applying d\<rparr>"
  have q: "queue ag = d # ds" using Cons.hyps(2) by simp
  obtain u st1 where ap: "apply_delta S d (agg_state ag) = Ret (Inr u, st1)" "apply_all S ds st1 = Some st"
    using Cons.prems(1) q by (auto split: run.splits sum.splits)
  let ?ag2 = "ag\<lparr>queue := ds, agg_state := st1, producer := Receiving False\<rparr>"
  have "producer_step S torn ag = Some ?ag1" "producer_step S torn ?ag1 = Some ?ag2"
    using Cons.prems(4) q ap(1) by (simp_all add: producer_step_def)
  moreover have "producer_drain S torn ?ag2 = (2 * length (queue ?ag2) + (if False \<and> queue ?ag2 = [] then 0 else 1),
     ?ag2\<lparr>queue := [], producer := Receiving True, agg_state := st, notified := st\<rparr>)"
    by (rule Cons.hyps(1)) (use Cons.prems ap(2) in simp_all)
  ultimately show ?case using q by (simp add: producer_drain_some)
qed

section \<open>Runs of one task\<close>

lemma runs_first:
  "aggregator_runs S deps torn b c \<Longrightarrow> aggregator_step S deps torn a b \<Longrightarrow> aggregator_runs S deps torn a c"
  by (induction rule: aggregator_runs.induct) (auto intro: aggregator_runs.intros)

lemma runs_append:
  "aggregator_runs S deps torn b c \<Longrightarrow> aggregator_runs S deps torn a b \<Longrightarrow> aggregator_runs S deps torn a c"
  by (induction rule: aggregator_runs.induct) (auto intro: aggregator_runs.intros)

lemma drain_runs: "aggregator_runs S deps torn ag (snd (producer_drain S torn ag))"
proof (induction S torn ag rule: producer_drain.induct)
  case (1 S torn ag)
  show ?case
  proof (cases "producer_step S torn ag")
    case None
    then show ?thesis by (simp add: producer_drain_none stays)
  next
    case (Some ag')
    then show ?thesis using 1 [OF Some] runs_first [OF _ produces [OF Some]] by (simp add: producer_drain_some)
  qed
qed

definition forwarder_moves :: "'d subscriber_deps \<Rightarrow> ('st, 'd) aggregator \<Rightarrow> ('st, 'd) aggregator \<Rightarrow> bool" where
  "forwarder_moves deps ag ag' \<longleftrightarrow> forwarder_step deps ag = Some ag'"

text \<open>With room for them in the channel, the forwarder passes on the deltas of its stream.\<close>

lemma forwarder_reads:
  assumes "into_stream deps n sq c = (rs, Ret (sq', c'))" "\<forall>r \<in> set rs. \<exists>data. r = Inr data"
    and "forwarder ag = Listening sq c" "length (queue ag) + n \<le> buffer_size ag"
    and "\<And>why. producer ag \<noteq> Producer_Done why"
  shows "(forwarder_moves deps)\<^sup>*\<^sup>* ag (ag\<lparr>forwarder := Listening sq' c', queue := queue ag @ stream_deltas rs\<rparr>)"
  using assms
proof (induction n arbitrary: sq c rs ag)
  case 0
  then have "Listening sq' c' = forwarder ag" "rs = []" by auto
  then show ?case by simp
next
  case (Suc n)
  obtain r s1 c1 where nxt: "sequencer_next deps sq c = Ret (Return r s1 c1)"
    using Suc.prems(1) by (auto split: run.splits block.splits)
  then obtain rs1 where rs1: "into_stream deps n s1 c1 = (rs1, Ret (sq', c'))" "rs = r # rs1"
    using Suc.prems(1) by (auto split: prod.splits)
  obtain data where data: "r = Inr data" using Suc.prems(2) rs1(2) by auto
  let ?q = "case get_delta data of Some d \<Rightarrow> [d] | None \<Rightarrow> []"
  let ?ag = "ag\<lparr>forwarder := Listening s1 c1, queue := queue ag @ ?q\<rparr>"
  have "(forwarder_moves deps)\<^sup>*\<^sup>* ?ag
      (?ag\<lparr>forwarder := Listening sq' c', queue := queue ?ag @ stream_deltas rs1\<rparr>)"
    by (rule Suc.IH [OF rs1(1)]) (use Suc.prems rs1(2) in \<open>simp_all split: option.split\<close>)
  moreover have "?ag\<lparr>forwarder := Listening sq' c', queue := queue ?ag @ stream_deltas rs1\<rparr> =
      ag\<lparr>forwarder := Listening sq' c', queue := queue ag @ stream_deltas rs\<rparr>"
    unfolding rs1(2) data by (simp add: stream_deltas_def map_filter_simps split: option.split)
  moreover have "(forwarder_moves deps)\<^sup>*\<^sup>* ag ?ag"
  proof (cases "get_delta data")
    case None
    then have "forwarder_moves deps ag ?ag"
      using Suc.prems(3) nxt data by (simp add: forwarder_moves_def forwarder_step_def)
    then show ?thesis by simp
  next
    case (Some d)
    let ?ag1 = "ag\<lparr>forwarder := Sending d s1 c1\<rparr>"
    have "forwarder_moves deps ag ?ag1"
      using Suc.prems(3) nxt data Some by (simp add: forwarder_moves_def forwarder_step_def)
    moreover have "forwarder_moves deps ?ag1 ?ag"
      using Suc.prems(4,5) Some by (simp add: forwarder_moves_def forwarder_step_def split: producer.split)
    ultimately show ?thesis by simp
  qed
  ultimately show ?case using rtranclp_trans [of "forwarder_moves deps"] by metis
qed

lemma forwarder_runs:
  assumes "into_stream deps n sq c = (rs, Ret (sq', c'))" "\<forall>r \<in> set rs. \<exists>data. r = Inr data"
    and "forwarder ag = Listening sq c" "length (queue ag) + n \<le> buffer_size ag"
    and "\<And>why. producer ag \<noteq> Producer_Done why"
  shows "aggregator_runs S deps torn ag (ag\<lparr>forwarder := Listening sq' c', queue := queue ag @ stream_deltas rs\<rparr>)"
  using forwarder_reads [OF assms]
  by (induction rule: rtranclp_induct) (auto simp: forwarder_moves_def intro: stays goes_on forwards)

end
