(* ===== verification/Delivery.thy ===== *)
theory Delivery
  imports Sequencing
begin

text \<open>
  Progress of the sequencer: delivery without recovery when nothing is lost and nothing
  times out, the choice between the two recoveries after a timeout and their progress, the
  drain of a batch recovery, absence of panics, and the head-of-line block when the
  recovery service cannot supply the wanted message.
\<close>

section \<open>Nothing lost, nothing late\<close>

text \<open>The sequences that have been received or are still to come from the socket.\<close>

definition heard :: "message_sequencer \<Rightarrow> int set" where
  "heard s = recv_seq ` set_mset (mm_items (heap s)) \<union>
     {msg_seq m | m. Datagram m \<in> set (udp_framed s)}"

text \<open>
  Calm: no batch recovery is under way, the socket yields datagrams only, and all readings
  of the clock lie within the deadline (before the first datagram: within one timeout of
  each other).
\<close>

definition calm :: "message_sequencer \<Rightarrow> clocks \<Rightarrow> bool" where
  "calm s c \<longleftrightarrow> recovery_stream s = None \<and>
     (\<forall>i j. instant_at c i \<le> instant_at c j + sequence_timeout s) \<and>
     (connected s \<longrightarrow> (\<forall>i. instant_at c i \<le> last_deadline s)) \<and>
     (\<forall>e. e \<in> set (udp_framed s) \<longrightarrow> (\<exists>m. e = Datagram m)) \<and>
     (\<forall>m. m \<in># mm_items (heap s) \<longrightarrow> origin m = Udp)"

text \<open>The messages a sequencer holds, and those that it can pass on.\<close>

definition held :: "message_sequencer \<Rightarrow> raw_message set" where
  "held s = raw ` set_mset (mm_items (heap s)) \<union> {m. Datagram m \<in> set (udp_framed s)}"

lemma heard_held: "heard s = msg_seq ` held s"
  by (auto simp: heard_def held_def image_def)

definition readable :: "'d subscriber_deps \<Rightarrow> raw_message \<Rightarrow> bool" where
  "readable deps m \<longleftrightarrow> in_i64 (msg_seq m + 1) \<and> log_entry deps m \<noteq> None"

text \<open>The next item is one of the messages held, and the later ones are still there.\<close>

definition gets_next :: "'d subscriber_deps \<Rightarrow> message_sequencer \<Rightarrow> 'd block run \<Rightarrow> bool" where
  "gets_next deps s res \<longleftrightarrow> (\<exists>st rt p s' c' m.
     res = Ret (Return (Inr (Stream_Message st rt Udp p)) s' c') \<and>
     want_sequence s' = want_sequence s + 1 \<and> calm s' c' \<and> sq_inv s' \<and> held s' \<subseteq> held s \<and>
     m \<in> held s \<and> msg_seq m = want_sequence s \<and> log_entry deps m = Some (st, p) \<and>
     {i \<in> heard s. want_sequence s < i} \<subseteq> heard s')"

lemma tick_simps [simp]:
  "instant_at (tick c) = instant_at c" "utc_at (tick c) = utc_at c"
  by (simp_all add: tick_def)

lemma advance_simps [simp]:
  "recovery_client (advance t s) = recovery_client s"
  "udp_framed (advance t s) = udp_framed s"
  "heap (advance t s) = heap s"
  "recovery_stream (advance t s) = recovery_stream s"
  "sequence_timeout (advance t s) = sequence_timeout s"
  "want_sequence (advance t s) = wrap_i64 (want_sequence s + 1)"
  "last_deadline (advance t s) = t"
  "connected (advance t s) = connected s"
  by (simp_all add: advance_def)

text \<open>Returning a message from a calm state.\<close>

lemma return_gets_next:
  assumes rm: "readable deps (raw rm)" "recv_seq rm = want_sequence s" "raw rm \<in> held s"
    and org: "origin rm = Udp" and calm: "calm s1 c" "sq_inv s1" and want: "want_sequence s1 = want_sequence s"
    and heard: "{i \<in> heard s. want_sequence s < i} \<subseteq> heard s1" "held s1 \<subseteq> held s"
    and c: "instant_at c1 = instant_at c"
  shows "gets_next deps s (return_parsed deps rm (advance (instant_at c i + sequence_timeout s1) s1) c1)"
proof -
  obtain st p where p: "try_parse deps rm = Ret (Inr (Stream_Message st (recv_ts rm) (origin rm) p))"
      "log_entry deps (raw rm) = Some (st, p)"
    using try_parse_entry rm(1) unfolding readable_def by blast
  let ?s' = "advance (instant_at c i + sequence_timeout s1) s1"
  have "in_i64 (want_sequence s + 1)" using rm(1,2) by (simp add: readable_def)
  then have "want_sequence ?s' = want_sequence s + 1" "calm ?s' c1" "sq_inv ?s'"
    using calm want c by (auto simp: calm_def sq_inv_def)
  moreover have "held ?s' = held s1" "heard ?s' = heard s1" by (simp_all add: held_def heard_def)
  ultimately show ?thesis using p org rm(2,3) heard
    by (auto simp: gets_next_def return_parsed_def)
qed

lemma gets_next_mono:
  assumes "gets_next deps s' res" "want_sequence s' = want_sequence s" "held s' \<subseteq> held s"
    and "{i \<in> heard s. want_sequence s \<le> i} \<subseteq> heard s'"
  shows "gets_next deps s res"
  using assms unfolding gets_next_def by fastforce

lemma listen_gets_next:
  shows "\<forall>m \<in> held s. readable deps m \<Longrightarrow> sq_inv s \<Longrightarrow> late s \<Longrightarrow> calm s c \<Longrightarrow>
    (\<And>i. instant_at c i \<le> last_deadline s) \<Longrightarrow> want_sequence s \<in> heard s \<Longrightarrow>
    gets_next deps s (listen_block deps s c)"
proof (induction "udp_framed s" arbitrary: s c)
  case Nil
  then show ?case by (auto simp: heard_def late_def)
next
  case (Cons ev evs)
  have evs: "udp_framed s = ev # evs" using Cons.hyps(2) by simp
  obtain m where ev: "ev = Datagram m" using Cons.prems(4) evs by (auto simp: calm_def)
  have m: "m \<in> held s" "readable deps m" using Cons.prems(1) evs ev by (auto simp: held_def)
  have nd: "\<not> last_deadline s < instant_at c (ticks c)" using Cons.prems(5) by (simp add: not_less)
  let ?s1 = "s\<lparr>udp_framed := evs\<rparr>"
  show ?case
  proof (cases "msg_seq m = want_sequence s")
    case True
    let ?s2 = "?s1\<lparr>connected := True\<rparr>"
    have "calm ?s2 c" using Cons.prems(4,5) evs by (auto simp: calm_def)
    moreover have "{i \<in> heard s. want_sequence s < i} \<subseteq> heard ?s2" "held ?s2 \<subseteq> held s" "sq_inv ?s2"
      using evs ev True Cons.prems(2) by (auto simp: heard_def held_def sq_inv_def)
    ultimately show ?thesis
      using return_gets_next [of deps "received_message_new (utc_at c (ticks (tick c))) m Udp" s ?s2 c
          "tick (tick c)" "ticks c"] m True ev
      by (simp add: listen_event [OF nd evs])
  next
    case False
    let ?s2 = "after_datagram ?s1 (tick c) m"
    have inv: "mm_inv (heap s)" using Cons.prems(2) by (simp add: sq_inv_def)
    have s2: "sq_inv ?s2" "late ?s2" "held ?s2 \<subseteq> held s"
      using Cons.prems(2,3) False evs ev inv
      by (auto simp: after_datagram_def sq_inv_def late_def held_def mm.push_items mm.push_invar)
    have "calm ?s2 (tick (tick c))"
      using Cons.prems(4,5) evs inv
      by (auto simp: calm_def after_datagram_def mm.push_items sq_inv_def)
    moreover have keep: "{i \<in> heard s. want_sequence s \<le> i} \<subseteq> heard ?s2"
      using evs ev False inv
      by (auto simp: heard_def after_datagram_def mm.push_items sq_inv_def)
    moreover have "want_sequence s \<in> heard ?s2" using keep Cons.prems(6) by blast
    ultimately have "gets_next deps ?s2 (listen_block deps ?s2 (tick (tick c)))"
      using Cons.hyps(1) [of ?s2 "tick (tick c)"] s2 Cons.prems(1,5) by auto
    then have "gets_next deps s (listen_block deps ?s2 (tick (tick c)))"
      by (rule gets_next_mono) (use keep s2(3) in auto)
    then show ?thesis using False ev by (simp add: listen_event [OF nd evs])
  qed
qed

lemma next_without_stream:
  assumes "recovery_stream s = None"
  shows "sequencer_next deps s c = run_bind (heap_block deps s c) (\<lambda>b. case b of
      Return r s' c' \<Rightarrow> Ret (Return r s' c')
    | Fall s2 c2 \<Rightarrow> listen_block deps (fst (connect_block s2 c2)) (snd (connect_block s2 c2)))"
  using assms
  by (simp add: sequencer_next_def sync_block_def case_prod_beta Let_def cong: block.case_cong)

lemma connect_block_instant [simp]: "instant_at (snd (connect_block s c)) = instant_at c"
  by (simp add: connect_block_def)

lemma next_gets_next:
  assumes s: "\<forall>m \<in> held s. readable deps m" "sq_inv s" "calm s c" "want_sequence s \<in> heard s"
  shows "gets_next deps s (sequencer_next deps s c)"
proof -
  have mm: "mm_inv (heap s)" and rs: "recovery_stream s = None"
    using s by (simp_all add: sq_inv_def calm_def)
  from heap_block_cases [OF mm, of deps c] show ?thesis
  proof
    assume "heap_returns deps s c"
    then obtain h r where call: "heap_block deps s c = return_parsed deps r
        (advance (instant_at c (ticks c) + sequence_timeout s) (s\<lparr>heap := h\<rparr>)) (tick c)"
      and h: "mm_inv h" "recv_seq r = want_sequence s" "r \<in># mm_items (heap s)"
        "later (want_sequence s) (mm_items (heap s)) \<subseteq># mm_items h" "mm_items h \<subseteq># mm_items (heap s)"
      by (auto simp: heap_returns_def)
    have held: "held (s\<lparr>heap := h\<rparr>) \<subseteq> held s" "raw r \<in> held s"
      using mset_subset_eqD [OF h(5)] h(3) by (auto simp: held_def)
    have "{i \<in> heard s. want_sequence s < i} \<subseteq> heard (s\<lparr>heap := h\<rparr>)"
      using mset_subset_eqD [OF h(4)] by (fastforce simp: heard_def)
    moreover have "calm (s\<lparr>heap := h\<rparr>) c"
      using s(3) mset_subset_eqD [OF h(5)] by (auto simp: calm_def)
    ultimately have "gets_next deps s (heap_block deps s c)"
      using return_gets_next [of deps r s "s\<lparr>heap := h\<rparr>" c "tick c" "ticks c"] h(1-3) s call held
      by (simp add: calm_def sq_inv_def)
    then show ?thesis by (auto simp: gets_next_def next_without_stream [OF rs])
  next
    assume "heap_falls deps s c"
    then obtain h where call: "heap_block deps s c = Ret (Fall (s\<lparr>heap := h\<rparr>) c)" and h: "mm_inv h"
      "mm_items h = later (want_sequence s) (mm_items (heap s))"
      "\<forall>m. m \<in># mm_items (heap s) \<longrightarrow> recv_seq m \<noteq> want_sequence s"
      by (auto simp: heap_falls_def)
    let ?s1 = "s\<lparr>heap := h\<rparr>"
    let ?s2 = "fst (connect_block ?s1 c)" and ?c2 = "snd (connect_block ?s1 c)"
    have s1: "sq_inv ?s1" "late ?s1"
      using s h by (auto simp: sq_inv_def late_def)
    have keep_held: "held ?s2 \<subseteq> held s" using h(2) by (auto simp: held_def)
    have dl: "instant_at c i \<le> last_deadline ?s2" for i
      using s(3) by (auto simp: connect_block_def calm_def)
    have "calm ?s2 ?c2" using s(3) dl h by (auto simp: calm_def)
    moreover have keep: "{i \<in> heard s. want_sequence s \<le> i} \<subseteq> heard ?s2"
      using h by (fastforce simp: heard_def)
    ultimately have "gets_next deps ?s2 (listen_block deps ?s2 ?c2)"
      using listen_gets_next [of ?s2 deps ?c2] s1 dl s(1,4) keep_held by auto
    then have "gets_next deps s (listen_block deps ?s2 ?c2)"
      by (rule gets_next_mono) (use keep keep_held in auto)
    then show ?thesis by (simp add: next_without_stream [OF rs] call)
  qed
qed

text \<open>An item that is a message received over the socket.\<close>

fun from_udp :: "'d stream_item \<Rightarrow> bool" where
  "from_udp (Inr (Stream_Message _ _ Udp _)) \<longleftrightarrow> True"
| "from_udp _ \<longleftrightarrow> False"

text \<open>Item \<open>j\<close> is a message held under sequence \<open>want_sequence s + j\<close>, as it parses.\<close>

definition passes_on :: "'d subscriber_deps \<Rightarrow> raw_message set \<Rightarrow> int \<Rightarrow> 'd stream_item \<Rightarrow> bool" where
  "passes_on deps ms i r \<longleftrightarrow> (\<exists>m \<in> ms. msg_seq m = i \<and>
     (\<exists>st rt p. log_entry deps m = Some (st, p) \<and> r = Inr (Stream_Message st rt Udp p)))"

lemma calm_reads:
  "\<forall>m \<in> held s. readable deps m \<Longrightarrow> sq_inv s \<Longrightarrow> calm s c \<Longrightarrow>
    (\<And>j. j < n \<Longrightarrow> want_sequence s + int j \<in> heard s) \<Longrightarrow>
    \<exists>rs s' c'. into_stream deps n s c = (rs, Ret (s', c')) \<and> length rs = n \<and>
      (\<forall>j < n. passes_on deps (held s) (want_sequence s + int j) (rs ! j)) \<and> want_sequence s' = want_sequence s + int n"
proof (induction n arbitrary: s c)
  case 0
  then show ?case by simp
next
  case (Suc n)
  have "want_sequence s \<in> heard s" using Suc.prems(4) [of 0] by simp
  then obtain r s1 c1 where nxt: "sequencer_next deps s c = Ret (Return r s1 c1)"
    and r: "passes_on deps (held s) (want_sequence s) r"
    and s1: "want_sequence s1 = want_sequence s + 1" "calm s1 c1" "sq_inv s1" "held s1 \<subseteq> held s"
      "{i \<in> heard s. want_sequence s < i} \<subseteq> heard s1"
    using next_gets_next [OF Suc.prems(1-3)] unfolding gets_next_def passes_on_def by blast
  have "want_sequence s1 + int j \<in> heard s1" if "j < n" for j
    using Suc.prems(4) [of "Suc j"] that s1(1,5) by (auto simp: add.assoc)
  then obtain rs s' c' where rs: "into_stream deps n s1 c1 = (rs, Ret (s', c'))" "length rs = n"
      "\<forall>j < n. passes_on deps (held s1) (want_sequence s1 + int j) (rs ! j)" "want_sequence s' = want_sequence s1 + int n"
    using Suc.IH [OF _ s1(3,2)] Suc.prems(1) s1(4) by blast
  have "passes_on deps (held s) (want_sequence s + int j) ((r # rs) ! j)" if "j < Suc n" for j
  proof (cases j)
    case (Suc k)
    then have "passes_on deps (held s1) (want_sequence s + int j) (rs ! k)"
      using rs(3) that s1(1) by (simp add: add.assoc)
    then show ?thesis using s1(4) Suc unfolding passes_on_def by auto
  qed (use r in simp)
  then show ?case using nxt s1(1) rs by auto
qed

lemma calm_stream:
  assumes L: "log_ok L" "parsable L deps" and s: "authentic L s" "sq_inv s" "calm s c"
    and heard: "\<And>j. j < n \<Longrightarrow> want_sequence s + int j \<in> heard s"
  shows "\<exists>rs s' c'. into_stream deps n s c = (rs, Ret (s', c')) \<and> length rs = n \<and>
      (\<forall>r \<in> set rs. from_udp r) \<and> want_sequence s' = want_sequence s + int n"
proof -
  have "in_log L m" if "m \<in> held s" for m using that s(1) by (auto simp: held_def authentic_def)
  moreover have "readable deps m" if "in_log L m" for m
    using in_logD [OF that L(1)] that L(2) by (auto simp: readable_def in_i64_def parsable_def in_log_def)
  ultimately obtain rs s' c' where rs: "into_stream deps n s c = (rs, Ret (s', c'))" "length rs = n"
      "\<forall>j < n. passes_on deps (held s) (want_sequence s + int j) (rs ! j)" "want_sequence s' = want_sequence s + int n"
    using calm_reads [OF _ s(2,3) heard] by blast
  have "from_udp (rs ! j)" if "j < n" for j using rs(3) that by (auto simp: passes_on_def)
  then show ?thesis using rs by (auto simp: in_set_conv_nth)
qed

section \<open>After the deadline\<close>

text \<open>A sequencer that waits for the wanted message, has later ones, and is past its deadline.\<close>

definition overdue :: "message_sequencer \<Rightarrow> clocks \<Rightarrow> bool" where
  "overdue s c \<longleftrightarrow> recovery_stream s = None \<and> connected s \<and> late s \<and> mm_items (heap s) \<noteq> {#} \<and>
     last_deadline s < instant_at c (ticks c)"

lemma next_overdue:
  assumes "sq_inv s" "overdue s c"
  shows "sequencer_next deps s c = deadline_block deps (instant_at c (ticks c)) s (tick c)"
proof -
  have mm: "mm_inv (heap s)" and rs: "recovery_stream s = None" and late: "late s"
    using assms by (simp_all add: sq_inv_def overdue_def)
  have "want_sequence s < rev_seq r" if "mm_peek (heap s) = Some r" for r
    using late mm.peek_in [OF mm that] by (simp add: late_def)
  then have "heap_block deps s c = Ret (Fall s c)" by (rule heap_block_fall)
  then show ?thesis using assms(2)
    by (simp add: next_without_stream [OF rs] connect_block_def overdue_def listen_deadline)
qed

lemma mm_has_gaps_Ret: "mm_inv h \<Longrightarrow> \<exists>b. mm_has_gaps h = Ret b"
  by (auto simp: mm_has_gaps_def mm_count_missing_def mm_inv_def mm_peek_def bh_peek_def Let_def
      split: option.split list.split)

lemma next_overdue_cases:
  assumes "sq_inv s" "overdue s c"
  shows "sequencer_next deps s c = recover_single deps (instant_at c (ticks c)) s (tick c) \<or>
    sequencer_next deps s c = recover_stream deps (instant_at c (ticks c)) s (tick c)"
proof -
  obtain r where r: "mm_peek (heap s) = Some r"
    using assms(2) mm.peek_none by (cases "mm_peek (heap s)") (auto simp: overdue_def)
  obtain b where "mm_has_gaps (heap s) = Ret b" using mm_has_gaps_Ret assms(1) by (auto simp: sq_inv_def)
  then show ?thesis
    by (simp add: next_overdue [OF assms] deadline_block_def r single_missing_def)
qed

text \<open>The test for a single missing message is exact.\<close>

definition only_want_missing :: "message_sequencer \<Rightarrow> bool" where
  "only_want_missing s \<longleftrightarrow> (\<forall>m j. m \<in># mm_items (heap s) \<and> want_sequence s < j \<and> j \<le> recv_seq m \<longrightarrow>
     (\<exists>x. x \<in># mm_items (heap s) \<and> recv_seq x = j))"

lemma next_overdue_choice:
  assumes inv: "sq_inv s" and over: "overdue s c"
    and range: "\<And>m. m \<in># mm_items (heap s) \<Longrightarrow> 0 \<le> recv_seq m \<and> in_i64 (recv_seq m)"
  shows "sequencer_next deps s c =
    (if only_want_missing s then recover_single deps (instant_at c (ticks c)) s (tick c)
     else recover_stream deps (instant_at c (ticks c)) s (tick c))"
proof -
  have mm: "mm_inv (heap s)" using inv by (simp add: sq_inv_def)
  obtain r where r: "mm_peek (heap s) = Some r"
    using over mm.peek_none by (cases "mm_peek (heap s)") (auto simp: overdue_def)
  obtain b where b: "mm_has_gaps (heap s) = Ret b" using mm_has_gaps_Ret [OF mm] by blast
  have late: "want_sequence s < recv_seq m" if "m \<in># mm_items (heap s)" for m
    using over that by (simp add: overdue_def late_def)
  have "in_i64 (want_sequence s + 1)"
    using late [OF mm.peek_in [OF mm r]] range [OF mm.peek_in [OF mm r]] inv
    by (simp add: in_i64_def sq_inv_def)
  then have "single_missing s r = Ret (want_sequence s + 1 = rev_seq r \<and> \<not> b)"
    by (simp add: single_missing_def b)
  also have "want_sequence s + 1 = rev_seq r \<and> \<not> b \<longleftrightarrow> only_want_missing s"
    unfolding only_want_missing_def
    by (rule mm.single_missing_iff [OF mm r b range late])
  finally show ?thesis by (simp add: next_overdue [OF inv over] deadline_block_def r)
qed

text \<open>A recovery service that can supply the wanted message.\<close>

definition supplies :: "recovery_client \<Rightarrow> int \<Rightarrow> bool" where
  "supplies cl w \<longleftrightarrow> (\<forall>t.
     (\<exists>m. rpc_get_message cl t \<lparr>sequence_id = w\<rparr> = Inr m \<and> msg_seq m = w) \<and>
     (\<exists>m items. rpc_stream_from cl t \<lparr>sequence_id = w\<rparr> = Inr (Inr m # items) \<and> msg_seq m = w))"

lemma return_parsed_logged:
  assumes "parsable L deps" "in_log L (raw rm)"
  shows "\<exists>st p. return_parsed deps rm s c =
    Ret (Return (Inr (Stream_Message st (recv_ts rm) (origin rm) p)) s c)"
proof -
  have "log_entry deps (raw rm) \<noteq> None" using assms unfolding parsable_def in_log_def by blast
  then show ?thesis using try_parse_entry by (fastforce simp: return_parsed_def)
qed

lemma overdue_recovers:
  assumes L: "log_ok L" "parsable L deps"
    and s: "authentic L s" "sq_inv s" "overdue s c" "supplies (recovery_client s) (want_sequence s)"
  shows "\<exists>st rt org p s' c'. sequencer_next deps s c = Ret (Return (Inr (Stream_Message st rt org p)) s' c') \<and>
    org \<in> {Missing, Sync} \<and> want_sequence s' = want_sequence s + 1 \<and> udp_framed s' = udp_framed s \<and>
    heap s' = heap s"
proof -
  let ?now = "instant_at c (ticks c)" and ?q = "\<lparr>sequence_id = want_sequence s\<rparr>"
  obtain m1 where m1: "rpc_get_message (recovery_client s) (ticks (tick c)) ?q = Inr m1"
      "msg_seq m1 = want_sequence s"
    using s(4) unfolding supplies_def by blast
  obtain m2 items where m2: "rpc_stream_from (recovery_client s) (ticks (tick c)) ?q = Inr (Inr m2 # items)"
      "msg_seq m2 = want_sequence s"
    using s(4) unfolding supplies_def by blast
  have log1: "in_log L m1" using s(1) m1 by (auto simp: authentic_def client_in_log_def)
  have log2: "in_log L m2"
    using s(1) m2 unfolding authentic_def client_in_log_def items_in_log_def by fastforce
  have i: "in_i64 (want_sequence s + 1)" using in_logD [OF log1 L(1)] m1(2) by (simp add: in_i64_def)
  from next_overdue_cases [OF s(2,3), of deps] show ?thesis
  proof
    assume "sequencer_next deps s c = recover_single deps ?now s (tick c)"
    then show ?thesis
      using return_parsed_logged [OF L(2), of "received_message_new _ m1 Missing"] log1 m1 i
      by (fastforce simp: recover_single_def)
  next
    assume "sequencer_next deps s c = recover_stream deps ?now s (tick c)"
    then show ?thesis
      using return_parsed_logged [OF L(2), of "received_message_new _ m2 Sync"] log2 m2 i
      by (fastforce simp: recover_stream_def)
  qed
qed

section \<open>Draining a batch recovery\<close>

fun from_sync :: "'d stream_item \<Rightarrow> bool" where
  "from_sync (Inr (Stream_Message _ _ Sync _)) \<longleftrightarrow> True"
| "from_sync _ \<longleftrightarrow> False"

lemma sync_drain:
  assumes L: "log_ok L" "parsable L deps"
  shows "recovery_stream s = Some (map Inr ms @ rest) \<Longrightarrow> (\<forall>m \<in> set ms. in_log L m) \<Longrightarrow>
    map msg_seq ms = map (\<lambda>j. want_sequence s + int j) [0..<length ms] \<Longrightarrow>
    \<exists>rs s' c'. into_stream deps (length ms) s c = (rs, Ret (s', c')) \<and> length rs = length ms \<and>
      (\<forall>r \<in> set rs. from_sync r) \<and> want_sequence s' = want_sequence s + int (length ms) \<and>
      recovery_stream s' = Some rest \<and> heap s' = heap s \<and> udp_framed s' = udp_framed s"
proof (induction ms arbitrary: s c)
  case Nil
  then show ?case by simp
next
  case (Cons m ms)
  have seqs: "msg_seq m = want_sequence s"
    "map msg_seq ms = map (\<lambda>j. want_sequence s + 1 + int j) [0..<length ms]"
    using Cons.prems(3) by (auto simp: map_upt_Suc add.assoc simp del: upt_Suc)
  have m: "in_log L m" using Cons.prems(2) by simp
  have i: "in_i64 (want_sequence s + 1)" using in_logD [OF m L(1)] seqs(1) by (simp add: in_i64_def)
  let ?rm = "received_message_new (utc_at c (ticks c)) m Sync"
  let ?s1 = "advance (instant_at c (ticks (tick c)) + sequence_timeout s)
    (s\<lparr>recovery_stream := Some (map Inr ms @ rest)\<rparr>)"
  obtain st p where "return_parsed deps ?rm ?s1 (tick (tick c)) =
      Ret (Return (Inr (Stream_Message st (recv_ts ?rm) Sync p)) ?s1 (tick (tick c)))"
    using return_parsed_logged [OF L(2), of ?rm] m by fastforce
  then have nxt: "sequencer_next deps s c =
      Ret (Return (Inr (Stream_Message st (recv_ts ?rm) Sync p)) ?s1 (tick (tick c)))"
    using Cons.prems(1) seqs(1) by (simp add: sequencer_next_def sync_block_def)
  have "recovery_stream ?s1 = Some (map Inr ms @ rest)" "want_sequence ?s1 = want_sequence s + 1"
    using i by simp_all
  then obtain rs s' c' where "into_stream deps (length ms) ?s1 (tick (tick c)) = (rs, Ret (s', c'))"
      "length rs = length ms" "\<forall>r \<in> set rs. from_sync r"
      "want_sequence s' = want_sequence s + 1 + int (length ms)"
      "recovery_stream s' = Some rest" "heap s' = heap s" "udp_framed s' = udp_framed s"
    using Cons.IH [of ?s1 "tick (tick c)"] Cons.prems(2) seqs(2) by auto
  then show ?case using nxt by simp
qed

section \<open>A message that cannot be recovered\<close>

text \<open>The recovery service never answers with the wanted message: it reports an error, an
  empty stream, or starts at another sequence.\<close>

definition cannot_supply :: "recovery_client \<Rightarrow> int \<Rightarrow> bool" where
  "cannot_supply cl w \<longleftrightarrow> (\<forall>t.
     (\<forall>m. rpc_get_message cl t \<lparr>sequence_id = w\<rparr> = Inr m \<longrightarrow> msg_seq m \<noteq> w) \<and>
     (\<forall>m items. rpc_stream_from cl t \<lparr>sequence_id = w\<rparr> = Inr (Inr m # items) \<longrightarrow> msg_seq m \<noteq> w))"

lemma stuck_next:
  assumes "sq_inv s" "overdue s c" "cannot_supply (recovery_client s) (want_sequence s)"
  shows "\<exists>e c'. sequencer_next deps s c = Ret (Return (Inl e) s c') \<and> instant_at c' = instant_at c"
proof -
  let ?now = "instant_at c (ticks c)"
  have no: "\<And>t m. rpc_get_message (recovery_client s) t \<lparr>sequence_id = want_sequence s\<rparr> = Inr m \<Longrightarrow>
      msg_seq m \<noteq> want_sequence s"
    "\<And>t m items. rpc_stream_from (recovery_client s) t \<lparr>sequence_id = want_sequence s\<rparr> = Inr (Inr m # items) \<Longrightarrow>
      msg_seq m \<noteq> want_sequence s"
    using assms(3) by (auto simp: cannot_supply_def)
  have "\<exists>e c'. recover_single deps ?now s (tick c) = Ret (Return (Inl e) s c') \<and> instant_at c' = instant_at c"
    using no(1) by (auto simp: recover_single_def split: sum.split)
  moreover have "\<exists>e c'. recover_stream deps ?now s (tick c) = Ret (Return (Inl e) s c') \<and> instant_at c' = instant_at c"
    using no(2) by (auto simp: recover_stream_def split: sum.split list.split)
  ultimately show ?thesis using next_overdue_cases [OF assms(1,2), of deps] by metis
qed

lemma stuck_stream:
  "sq_inv s \<Longrightarrow> (\<And>i. last_deadline s < instant_at c i) \<Longrightarrow> overdue s c \<Longrightarrow>
   cannot_supply (recovery_client s) (want_sequence s) \<Longrightarrow>
   \<exists>es c'. into_stream deps n s c = (map Inl es, Ret (s, c')) \<and> length es = n"
proof (induction n arbitrary: c)
  case 0
  then show ?case by simp
next
  case (Suc n)
  obtain e c1 where nxt: "sequencer_next deps s c = Ret (Return (Inl e) s c1)"
    and c1: "instant_at c1 = instant_at c"
    using stuck_next [OF Suc.prems(1,3,4)] by blast
  have "overdue s c1" using Suc.prems(2,3) c1 by (simp add: overdue_def)
  then obtain es c' where "into_stream deps n s c1 = (map Inl es, Ret (s, c'))" "length es = n"
    using Suc.IH [of c1] Suc.prems c1 by auto
  then show ?case using nxt by (intro exI [of _ "e # es"]) simp
qed

section \<open>No panics\<close>

text \<open>
  What chrono documents for \<open>NaiveDateTime::from_timestamp_opt\<close>, on the seconds an \<open>i64\<close>
  of nanoseconds can reach: the instant when the nanoseconds are below one second, nothing
  when they are two seconds or more.
\<close>

definition chrono_spec :: "(int \<Rightarrow> int \<Rightarrow> datetime option) \<Rightarrow> bool" where
  "chrono_spec f \<longleftrightarrow>
     (\<forall>secs ns. \<bar>secs\<bar> \<le> 2 ^ 63 div NANO \<and> 0 \<le> ns \<and> ns < NANO \<longrightarrow> f secs ns = Some (secs * NANO + ns)) \<and>
     (\<forall>secs ns. 2 * NANO \<le> ns \<longrightarrow> f secs ns = None)"

lemma in_i64_abs: "in_i64 t \<Longrightarrow> \<bar>t\<bar> \<le> 2 ^ 63"
  by (simp add: in_i64_def abs_le_iff)

lemma abs_rust_div: "\<bar>rust_div t NANO\<bar> = \<bar>t\<bar> div NANO"
  by (cases "t = 0") (simp_all add: rust_div_def abs_mult NANO_def pos_imp_zdiv_nonneg_iff)

lemma ns_to_datetime_exact:
  assumes f: "chrono_spec (from_timestamp_opt deps)" and t: "in_i64 t" and nn: "0 \<le> t \<or> t mod NANO = 0"
  shows "ns_to_datetime deps t = Ret t"
proof -
  have secs: "\<bar>rust_div t NANO\<bar> \<le> 2 ^ 63 div NANO"
    using zdiv_mono1 [OF in_i64_abs [OF t], of NANO] unfolding abs_rust_div by (simp add: NANO_def)
  have rem: "0 \<le> rust_rem t NANO \<and> rust_rem t NANO < NANO"
  proof (cases "0 \<le> t")
    case True
    then show ?thesis by (simp add: rust_rem_nonneg NANO_def)
  next
    case False
    then have "rust_rem t NANO = - ((- t) mod NANO)" by (simp add: rust_rem_neg NANO_def)
    moreover have "(- t) mod NANO = 0" using nn False by (simp add: zmod_zminus1_eq_if)
    ultimately show ?thesis by (simp add: NANO_def)
  qed
  have "rust_rem t NANO mod 2 ^ 32 = rust_rem t NANO" using rem by (simp add: NANO_def)
  moreover have "rust_div t NANO * NANO + rust_rem t NANO = t" by (simp add: rust_rem_def)
  ultimately show ?thesis using f secs rem by (simp add: ns_to_datetime_def chrono_spec_def)
qed

text \<open>A negative remainder becomes a \<open>u32\<close> of more than three seconds of nanoseconds.\<close>

lemma ns_to_datetime_negative:
  assumes f: "chrono_spec (from_timestamp_opt deps)" and t: "t < 0" "t mod NANO \<noteq> 0"
  shows "ns_to_datetime deps t = Panic"
proof -
  have rem: "rust_rem t NANO = - ((- t) mod NANO)" using t by (simp add: rust_rem_neg NANO_def)
  have pos: "0 < (- t) mod NANO" and less: "(- t) mod NANO < NANO"
    using t(2) by (auto simp: zmod_zminus1_eq_if NANO_def)
  have "rust_rem t NANO mod 2 ^ 32 = (rust_rem t NANO + 2 ^ 32) mod 2 ^ 32" by simp
  also have "\<dots> = rust_rem t NANO + 2 ^ 32"
    by (rule mod_pos_pos_trivial) (use pos less in \<open>simp_all add: rem, simp_all add: NANO_def\<close>)
  finally have "2 * NANO \<le> rust_rem t NANO mod 2 ^ 32" using less unfolding rem by (simp add: NANO_def)
  then show ?thesis using f by (simp add: ns_to_datetime_def chrono_spec_def)
qed

text \<open>Messages with a timestamp from after the epoch.\<close>

definition dated :: "log \<Rightarrow> bool" where
  "dated L \<longleftrightarrow> (\<forall>i m. L i = Some m \<longrightarrow> 0 \<le> msg_ts m \<and> in_i64 (msg_ts m))"

lemma return_parsed_no_panic:
  assumes "chrono_spec (from_timestamp_opt deps)" "dated L" "in_log L (raw msg)"
  shows "return_parsed deps msg s c \<noteq> Panic"
proof -
  have "0 \<le> msg_ts (raw msg)" "in_i64 (msg_ts (raw msg))" using assms(2,3) unfolding dated_def in_log_def by blast+
  then have "ns_to_datetime deps (msg_ts (raw msg)) = Ret (msg_ts (raw msg))"
    using ns_to_datetime_exact [OF assms(1)] by simp
  then show ?thesis by (simp add: return_parsed_def try_parse_def split: sum.split)
qed

lemma sync_block_no_panic:
  assumes "chrono_spec (from_timestamp_opt deps)" "dated L" "authentic L s"
  shows "sync_block deps s c \<noteq> Panic"
proof -
  have "in_log L m" if "recovery_stream s = Some (Inr m # rest)" for m rest
    using that assms(3) by (auto simp: authentic_def items_in_log_def)
  then show ?thesis using return_parsed_no_panic [OF assms(1,2)]
    by (auto simp: sync_block_def Let_def split: option.split list.split sum.split)
qed

lemma heap_block_no_panic:
  assumes "chrono_spec (from_timestamp_opt deps)" "dated L" "authentic L s" "sq_inv s"
  shows "heap_block deps s c \<noteq> Panic"
  using heap_block_cases [of s deps c] assms(3,4) return_parsed_no_panic [OF assms(1,2)]
  by (auto simp: sq_inv_def authentic_def heap_falls_def heap_returns_def)

lemma deadline_block_no_panic:
  assumes "chrono_spec (from_timestamp_opt deps)" "dated L" "authentic L s" "sq_inv s"
  shows "deadline_block deps now s c \<noteq> Panic"
proof -
  obtain b where b: "mm_has_gaps (heap s) = Ret b" using mm_has_gaps_Ret assms(4) by (auto simp: sq_inv_def)
  have "recover_single deps now s c \<noteq> Panic"
    using assms(3) return_parsed_no_panic [OF assms(1,2)]
    by (auto simp: recover_single_def authentic_def client_in_log_def split: sum.split)
  moreover have "in_log L m" if "rpc_stream_from (recovery_client s) t q = Inr (Inr m # rest)" for t q m rest
    using that assms(3) by (meson authentic_def client_in_log_def items_in_log_def list.set_intros(1))
  then have "recover_stream deps now s c \<noteq> Panic"
    using return_parsed_no_panic [OF assms(1,2)]
    by (auto simp: recover_stream_def Let_def split: sum.split list.split)
  ultimately show ?thesis by (simp add: deadline_block_def single_missing_def b split: option.split)
qed

lemma listen_block_no_panic:
  assumes D: "chrono_spec (from_timestamp_opt deps)" "dated L"
  shows "authentic L s \<Longrightarrow> sq_inv s \<Longrightarrow> late s \<Longrightarrow> listen_block deps s c \<noteq> Panic"
proof (induction "length (udp_framed s)" arbitrary: s c rule: less_induct)
  case less
  consider "last_deadline s < instant_at c (ticks c)"
    | "\<not> last_deadline s < instant_at c (ticks c)" "udp_framed s = []"
    | ev evs where "\<not> last_deadline s < instant_at c (ticks c)" "udp_framed s = ev # evs"
    by (cases "udp_framed s") auto
  then show ?case
  proof cases
    case 1
    then show ?thesis using deadline_block_no_panic [OF D less.prems(1,2)] by (simp add: listen_deadline)
  next
    case 2
    then show ?thesis by (simp add: listen_pending)
  next
    case 3
    let ?s1 = "s\<lparr>udp_framed := evs\<rparr>"
    have s1: "authentic L ?s1" "sq_inv ?s1" "late ?s1"
      using less.prems 3(2) by (auto simp: authentic_def sq_inv_def late_def)
    have IH: "listen_block deps s2 c2 \<noteq> Panic"
      if "authentic L s2" "sq_inv s2" "late s2" "udp_framed s2 = evs" for s2 c2
      using less.hyps [of s2 c2] that 3(2) by simp
    show ?thesis
    proof (cases ev)
      case (Datagram m)
      then have m: "in_log L m" using less.prems(1) 3(2) by (auto simp: authentic_def)
      then show ?thesis
        using IH [of "after_datagram ?s1 (tick c) m"] after_datagram_ok [OF s1(1,2) m _ s1(3)]
          return_parsed_no_panic [OF D] Datagram
        by (auto simp: listen_event [OF 3])
    next
      case Elapsed
      then show ?thesis using IH [OF s1] by (simp add: listen_event [OF 3])
    qed (simp_all add: listen_event [OF 3])
  qed
qed

lemma sequencer_next_no_panic:
  assumes L: "log_ok L" and D: "chrono_spec (from_timestamp_opt deps)" "dated L"
    and s: "authentic L s" "sq_inv s"
  shows "sequencer_next deps s c \<noteq> Panic"
proof (cases "sync_block deps s c")
  case (Ret b1)
  show ?thesis
  proof (cases b1)
    case (Fall s1 c1)
    then have s1: "authentic L s1" "sq_inv s1" using sync_block_ok [OF L s Ret] by auto
    show ?thesis
    proof (cases "heap_block deps s1 c1")
      case b2: (Ret b2)
      show ?thesis
      proof (cases b2)
        case fall2: (Fall s2 c2)
        have "listen_block deps (fst (connect_block s2 c2)) (snd (connect_block s2 c2)) \<noteq> Panic"
          using listen_block_no_panic [OF D, of "fst (connect_block s2 c2)"] heap_block_ok [OF L s1 b2]
            fall2 by auto
        then show ?thesis using Ret Fall b2 fall2 by (simp add: sequencer_next_def case_prod_beta Let_def)
      qed (use Ret Fall b2 in \<open>simp add: sequencer_next_def\<close>)
    next
      case Panic
      then show ?thesis using heap_block_no_panic [OF D s1, of c1] by simp
    next
      case Pending
      then show ?thesis using Ret Fall by (simp add: sequencer_next_def)
    qed
  qed (use Ret in \<open>simp add: sequencer_next_def\<close>)
next
  case Panic
  then show ?thesis using sync_block_no_panic [OF D s(1), of c] by simp
qed (simp add: sequencer_next_def)

lemma into_stream_no_panic:
  assumes L: "log_ok L" and D: "chrono_spec (from_timestamp_opt deps)" "dated L"
  shows "authentic L s \<Longrightarrow> sq_inv s \<Longrightarrow> snd (into_stream deps n s c) \<noteq> Panic"
proof (induction n arbitrary: s c)
  case 0
  then show ?case by simp
next
  case (Suc n)
  show ?case
  proof (cases "sequencer_next deps s c")
    case (Ret b)
    then obtain r s' c' where b: "b = Return r s' c'" using sequencer_next_Return by blast
    then have "authentic L s'" "sq_inv s'" using sequencer_next_ok [OF L Suc.prems Ret] by auto
    then show ?thesis using Suc.IH [of s' c'] Ret b by (simp add: case_prod_beta)
  qed (use sequencer_next_no_panic [OF L D Suc.prems] in auto)
qed

end
