(* ===== verification/Catch_Up.thy ===== *)
theory Catch_Up
  imports Delivery
begin

text \<open>
  How far one recovery takes the subscriber: past everything that it has buffered.
\<close>

text \<open>The stream of \<open>n + k\<close> items.\<close>

lemma into_stream_append:
  "into_stream deps n s c = (rs, Ret (s1, c1)) \<Longrightarrow> into_stream deps k s1 c1 = (rs', fin) \<Longrightarrow>
   into_stream deps (n + k) s c = (rs @ rs', fin)"
proof (induction n arbitrary: s c rs)
  case (Suc n)
  obtain r s2 c2 where nxt: "sequencer_next deps s c = Ret (Return r s2 c2)"
    using Suc.prems(1) by (auto split: run.splits block.splits)
  then obtain rs2 where "into_stream deps n s2 c2 = (rs2, Ret (s1, c1))" "rs = r # rs2"
    using Suc.prems(1) by (auto split: prod.splits)
  with Suc.IH [of s2 c2 rs2] Suc.prems(2) nxt show ?case by simp
qed simp

lemma into_stream_one: "sequencer_next deps s c = Ret (Return r s' c') \<Longrightarrow> into_stream deps 1 s c = ([r], Ret (s', c'))"
  by simp

text \<open>Where an item that is a message came from.\<close>

fun item_origin :: "'d stream_item \<Rightarrow> origin option" where
  "item_origin (Inr (Stream_Message _ _ org _)) = Some org"
| "item_origin _ = None"

lemma from_sync_origin: "from_sync r \<longleftrightarrow> item_origin r = Some Sync"
  by (cases r rule: from_sync.cases) simp_all

lemma from_udp_origin: "from_udp r \<longleftrightarrow> item_origin r = Some Udp"
  by (cases r rule: from_udp.cases) simp_all

text \<open>The stream takes \<open>s\<close> to \<open>s'\<close> by messages of the origins \<open>os\<close>.\<close>

definition delivers ::
  "'d subscriber_deps \<Rightarrow> origin list \<Rightarrow> message_sequencer \<Rightarrow> clocks \<Rightarrow> message_sequencer \<Rightarrow> clocks \<Rightarrow> bool" where
  "delivers deps os s c s' c' \<longleftrightarrow> (\<exists>rs. into_stream deps (length os) s c = (rs, Ret (s', c')) \<and>
     map item_origin rs = map Some os \<and> want_sequence s' = want_sequence s + int (length os))"

lemma delivers_want: "delivers deps os s c s' c' \<Longrightarrow> want_sequence s' = want_sequence s + int (length os)"
  by (auto simp: delivers_def)

lemma delivers_append:
  assumes "delivers deps os s c s1 c1" "delivers deps os' s1 c1 s' c'"
  shows "delivers deps (os @ os') s c s' c'"
proof -
  from assms obtain rs rs' where
    "into_stream deps (length os) s c = (rs, Ret (s1, c1))" "into_stream deps (length os') s1 c1 = (rs', Ret (s', c'))"
    "map item_origin rs = map Some os" "map item_origin rs' = map Some os'"
    "want_sequence s1 = want_sequence s + int (length os)" "want_sequence s' = want_sequence s1 + int (length os')"
    unfolding delivers_def by blast
  then show ?thesis unfolding delivers_def
    by (intro exI [of _ "rs @ rs'"]) (auto intro!: into_stream_append)
qed

lemma delivers_one:
  "sequencer_next deps s c = Ret (Return r s' c') \<Longrightarrow> item_origin r = Some org \<Longrightarrow>
   want_sequence s' = want_sequence s + 1 \<Longrightarrow> delivers deps [org] s c s' c'"
  unfolding delivers_def using into_stream_one by fastforce

lemma delivers_none: "delivers deps [] s c s c"
  by (simp add: delivers_def)

text \<open>What is buffered without a gap is delivered, with the origins it has, whatever the clocks say.\<close>

lemma heap_drain:
  assumes L: "log_ok L" "parsable L deps"
  shows "recovery_stream s = None \<Longrightarrow> authentic L s \<Longrightarrow> sq_inv s \<Longrightarrow>
    (\<And>j. j < n \<Longrightarrow> \<exists>m. m \<in># mm_items (heap s) \<and> recv_seq m = want_sequence s + int j) \<Longrightarrow>
    \<exists>os s' c'. delivers deps os s c s' c' \<and> length os = n \<and> set os \<subseteq> origin ` set_mset (mm_items (heap s))"
proof (induction n arbitrary: s c)
  case 0
  show ?case using delivers_none [of deps s c] by (intro exI [of _ "[]"]) auto
next
  case (Suc n)
  have mm: "mm_inv (heap s)" using Suc.prems(3) by (simp add: sq_inv_def)
  have "\<exists>m. m \<in># mm_items (heap s) \<and> recv_seq m = want_sequence s" using Suc.prems(4) [of 0] by simp
  then have "\<not> heap_falls deps s c" by (auto simp: heap_falls_def)
  then obtain h r where call: "heap_block deps s c = return_parsed deps r
      (advance (instant_at c (ticks c) + sequence_timeout s) (s\<lparr>heap := h\<rparr>)) (tick c)"
    and r: "recv_seq r = want_sequence s" "r \<in># mm_items (heap s)"
    and h: "later (want_sequence s) (mm_items (heap s)) \<subseteq># mm_items h" "mm_items h \<subseteq># mm_items (heap s)"
    using heap_block_cases [OF mm] unfolding heap_returns_def by blast
  let ?s1 = "advance (instant_at c (ticks c) + sequence_timeout s) (s\<lparr>heap := h\<rparr>)"
  have log: "in_log L (raw r)" using Suc.prems(2) r(2) by (auto simp: authentic_def)
  obtain st p where ret: "return_parsed deps r ?s1 (tick c) =
      Ret (Return (Inr (Stream_Message st (recv_ts r) (origin r) p)) ?s1 (tick c))"
    using return_parsed_logged [OF L(2) log] by blast
  have nxt: "sequencer_next deps s c = Ret (Return (Inr (Stream_Message st (recv_ts r) (origin r) p)) ?s1 (tick c))"
    by (simp add: next_without_stream [OF Suc.prems(1)] call ret)
  have want: "want_sequence ?s1 = want_sequence s + 1"
    using in_logD [OF log L(1)] r(1) by (simp add: in_i64_def)
  have s1: "authentic L ?s1" "sq_inv ?s1" using sequencer_next_ok [OF L(1) Suc.prems(2,3) nxt] by simp_all
  have "\<exists>m. m \<in># mm_items (heap ?s1) \<and> recv_seq m = want_sequence ?s1 + int j" if "j < n" for j
  proof -
    obtain m where m: "m \<in># mm_items (heap s)" "recv_seq m = want_sequence s + int (Suc j)"
      using Suc.prems(4) [of "Suc j"] \<open>j < n\<close> by auto
    then have "m \<in># later (want_sequence s) (mm_items (heap s))" by simp
    then have "m \<in># mm_items h" by (rule mset_subset_eqD [OF h(1)])
    then show ?thesis using m(2) want by (intro exI [of _ m]) simp
  qed
  then obtain os s' c' where os: "delivers deps os ?s1 (tick c) s' c'" "length os = n"
      "set os \<subseteq> origin ` set_mset (mm_items h)"
    using Suc.IH [of ?s1 "tick c"] s1 Suc.prems(1) by auto
  have "delivers deps ([origin r] @ os) s c s' c'"
    by (rule delivers_append [OF delivers_one [OF nxt _ want] os(1)]) simp
  moreover have "set os \<subseteq> origin ` set_mset (mm_items (heap s))" using os(3) set_mset_mono [OF h(2)] by blast
  ultimately show ?case using os(2) r(2) by (intro exI [of _ "[origin r] @ os"]) auto
qed

text \<open>
  A service that, from the moment \<open>t0\<close> on, answers from a log that grows without holes: what it holds at
  the moment \<open>t\<close> from the sequence \<open>w\<close> on are the messages below \<open>e t\<close>. It returns the message, or all of
  those.
\<close>

definition log_from :: "log \<Rightarrow> int \<Rightarrow> int \<Rightarrow> raw_message list" where
  "log_from L w e = map (\<lambda>j. the (L (w + int j))) [0..<nat (e - w)]"

definition healthy :: "log \<Rightarrow> int \<Rightarrow> (nat \<Rightarrow> int) \<Rightarrow> nat \<Rightarrow> recovery_client \<Rightarrow> bool" where
  "healthy L w e t0 cl \<longleftrightarrow> (\<forall>t \<ge> t0.
     (\<forall>i. w \<le> i \<longrightarrow> i < e t \<longrightarrow> L i \<noteq> None) \<and>
     (w < e t \<longrightarrow> rpc_get_message cl t \<lparr>sequence_id = w\<rparr> = Inr (the (L w))) \<and>
     rpc_stream_from cl t \<lparr>sequence_id = w\<rparr> = Inr (map Inr (log_from L w (e t))))"

lemma healthyD:
  assumes "healthy L w e t0 cl" "t0 \<le> t"
  shows "w \<le> i \<Longrightarrow> i < e t \<Longrightarrow> L i \<noteq> None"
    "w < e t \<Longrightarrow> rpc_get_message cl t \<lparr>sequence_id = w\<rparr> = Inr (the (L w))"
    "rpc_stream_from cl t \<lparr>sequence_id = w\<rparr> = Inr (map Inr (log_from L w (e t)))"
  using assms unfolding healthy_def by blast+

lemma log_from_Cons:
  assumes "w < e" shows "log_from L w e = the (L w) # log_from L (w + 1) e"
proof -
  have "nat (e - w) = Suc (nat (e - (w + 1)))" using assms by simp
  then show ?thesis unfolding log_from_def by (simp add: map_upt_Suc add.assoc del: upt_Suc)
qed

lemma log_from_seqs:
  assumes "log_ok L" "\<And>i. w \<le> i \<Longrightarrow> i < e \<Longrightarrow> L i \<noteq> None"
  shows "\<forall>m \<in> set (log_from L w e). in_log L m"
    "map msg_seq (log_from L w e) = map (\<lambda>j. w + int j) [0..<length (log_from L w e)]"
proof -
  have entry: "\<exists>m. L (w + int j) = Some m \<and> msg_seq m = w + int j" if "j < nat (e - w)" for j
  proof -
    have "w + int j < e" using that by (simp add: zless_nat_eq_int_zless)
    then obtain m where "L (w + int j) = Some m" using assms(2) [of "w + int j"] by auto
    then show ?thesis using assms(1) by (auto simp: log_ok_def)
  qed
  show "\<forall>m \<in> set (log_from L w e). in_log L m"
    using entry by (fastforce simp: log_from_def in_log_def)
  show "map msg_seq (log_from L w e) = map (\<lambda>j. w + int j) [0..<length (log_from L w e)]"
    using entry by (fastforce simp: log_from_def)
qed

text \<open>
  Past the deadline, with a healthy service: one message is recovered and what is buffered follows it,
  up to the last one, or everything comes from a stream, up to the end of the log at the moment of the
  call.
\<close>

definition catches_up ::
  "'d subscriber_deps \<Rightarrow> int \<Rightarrow> message_sequencer \<Rightarrow> clocks \<Rightarrow> origin list \<Rightarrow> message_sequencer \<Rightarrow> clocks \<Rightarrow> bool" where
  "catches_up deps e s c os s' c' \<longleftrightarrow> delivers deps os s c s' c' \<and>
     (if only_want_missing s
      then (\<exists>os'. os = Missing # os' \<and> set os' \<subseteq> origin ` set_mset (mm_items (heap s))) \<and>
        (\<exists>m. m \<in># mm_items (heap s) \<and> recv_seq m = want_sequence s' - 1)
      else os = replicate (length os) Sync \<and> want_sequence s' = e)"

lemma overdue_delivers:
  assumes L: "log_ok L" "parsable L deps" and s: "authentic L s" "sq_inv s" "overdue s c"
    and up: "healthy L (want_sequence s) e (ticks c) (recovery_client s)"
    and has: "\<And>t m. ticks c \<le> t \<Longrightarrow> m \<in># mm_items (heap s) \<Longrightarrow> recv_seq m < e t"
  shows "\<exists>os s' c'. catches_up deps (e (Suc (ticks c))) s c os s' c' \<and> (\<forall>m. m \<in># mm_items (heap s) \<longrightarrow> recv_seq m < want_sequence s')"
proof -
  let ?w = "want_sequence s" and ?now = "instant_at c (ticks c)" and ?e = "e (Suc (ticks c))"
  have late: "?w < recv_seq m" and logged: "in_log L (raw m)" if "m \<in># mm_items (heap s)" for m
    using s(1,3) that by (auto simp: overdue_def late_def authentic_def)
  note up = healthyD [OF up le_SucI [OF le_refl]] and below = has [OF le_SucI [OF le_refl]]
  have range: "0 \<le> recv_seq m \<and> in_i64 (recv_seq m)" if "m \<in># mm_items (heap s)" for m
    using in_logD [OF logged [OF that] L(1)] by (simp add: in_i64_def)
  obtain m0 where m0: "m0 \<in># mm_items (heap s)" using s(3) by (auto simp: overdue_def)
  then have we: "?w < ?e" using late below by fastforce
  then obtain m where m: "L ?w = Some m" using up(1) [of ?w] by auto
  then have log: "in_log L m" and mw: "msg_seq m = ?w" using L(1) by (auto simp: log_ok_def in_log_def)
  have i: "wrap_i64 (?w + 1) = ?w + 1" using in_logD [OF log L(1)] mw by (simp add: in_i64_def)
  show ?thesis
  proof (cases "only_want_missing s")
    case True
    let ?rm = "received_message_new (utc_at c (ticks (tick (tick c)))) m Missing" and ?c = "tick (tick (tick c))"
    let ?s1 = "advance (?now + sequence_timeout s) s"
    obtain st p where "return_parsed deps ?rm ?s1 ?c = Ret (Return (Inr (Stream_Message st (recv_ts ?rm) Missing p)) ?s1 ?c)"
      using return_parsed_logged [OF L(2), of ?rm] log by fastforce
    then have nxt: "sequencer_next deps s c = Ret (Return (Inr (Stream_Message st (recv_ts ?rm) Missing p)) ?s1 ?c)"
      using next_overdue_choice [OF s(2,3) range, of deps] True up(2) [OF we] m mw
      by (simp add: recover_single_def utc_now_def Let_def tick_def)
    have s1: "authentic L ?s1" "sq_inv ?s1" using sequencer_next_ok [OF L(1) s(1,2) nxt] by simp_all
    obtain mx where mx: "mx \<in># mm_items (heap s)" "\<And>x. x \<in># mm_items (heap s) \<Longrightarrow> recv_seq x \<le> recv_seq mx"
    proof -
      let ?M = "recv_seq ` set_mset (mm_items (heap s))"
      have "Max ?M \<in> ?M" using m0 by (intro Max_in) auto
      then obtain mx where "mx \<in># mm_items (heap s)" "recv_seq mx = Max ?M" by force
      then show ?thesis using that [of mx] by simp
    qed
    have buffered: "\<exists>x. x \<in># mm_items (heap ?s1) \<and> recv_seq x = want_sequence ?s1 + int j"
      if "j < nat (recv_seq mx - ?w)" for j
    proof -
      have "?w < ?w + 1 + int j" "?w + 1 + int j \<le> recv_seq mx" using that by auto
      then have "\<exists>x. x \<in># mm_items (heap s) \<and> recv_seq x = ?w + 1 + int j"
        using True mx(1) unfolding only_want_missing_def by blast
      then show ?thesis using i by simp
    qed
    moreover have "recovery_stream ?s1 = None" using s(3) by (simp add: overdue_def)
    ultimately obtain os s' c' where os: "delivers deps os ?s1 ?c s' c'" "length os = nat (recv_seq mx - ?w)"
        "set os \<subseteq> origin ` set_mset (mm_items (heap ?s1))"
      using heap_drain [OF L _ s1] by blast
    then have all: "delivers deps ([Missing] @ os) s c s' c'"
      by (intro delivers_append [OF delivers_one [OF nxt] os(1)]) (use i in simp_all)
    from delivers_want [OF this] have "want_sequence s' = recv_seq mx + 1" using late [OF mx(1)] os(2) by simp
    then show ?thesis using all os(3) mx True unfolding catches_up_def
      by (intro exI [of _ "[Missing] @ os"] exI [of _ s'] exI [of _ c']) fastforce
  next
    case False
    let ?rm = "received_message_new (utc_at c (ticks (tick (tick c)))) m Sync" and ?c = "tick (tick (tick c))"
    let ?ms = "log_from L (?w + 1) ?e"
    let ?s1 = "(advance (?now + sequence_timeout s) s)\<lparr>recovery_stream := Some (map Inr ?ms)\<rparr>"
    obtain st p where "return_parsed deps ?rm ?s1 ?c = Ret (Return (Inr (Stream_Message st (recv_ts ?rm) Sync p)) ?s1 ?c)"
      using return_parsed_logged [OF L(2), of ?rm] log by fastforce
    then have nxt: "sequencer_next deps s c = Ret (Return (Inr (Stream_Message st (recv_ts ?rm) Sync p)) ?s1 ?c)"
      using next_overdue_choice [OF s(2,3) range, of deps] False up(3) m mw log_from_Cons [OF we]
      by (simp add: recover_stream_def utc_now_def Let_def tick_def)
    obtain rs s' c' where "into_stream deps (length ?ms) ?s1 ?c = (rs, Ret (s', c'))" "length rs = length ?ms"
        "\<forall>r \<in> set rs. from_sync r" "want_sequence s' = want_sequence ?s1 + int (length ?ms)"
      using sync_drain [OF L, of ?s1 ?ms "[]" ?c] log_from_seqs [OF L(1), of "?w + 1" ?e] up(1) i by auto
    then have "delivers deps (replicate (length ?ms) Sync) ?s1 ?c s' c'"
      by (auto simp: delivers_def from_sync_origin intro!: replicate_eqI [of _ "length ?ms"])
    then have all: "delivers deps ([Sync] @ replicate (length ?ms) Sync) s c s' c'"
      by (intro delivers_append [OF delivers_one [OF nxt]]) (use i in simp_all)
    from delivers_want [OF this] have "want_sequence s' = ?e" using we by (simp add: log_from_def)
    then show ?thesis using all below False unfolding catches_up_def
      by (intro exI [of _ "[Sync] @ replicate (length ?ms) Sync"] exI [of _ s'] exI [of _ c']) simp
  qed
qed

section \<open>The client stays\<close>

fun block_client :: "'d block \<Rightarrow> recovery_client" where
  "block_client (Return r s c) = recovery_client s"
| "block_client (Fall s c) = recovery_client s"

lemma return_parsed_client: "return_parsed deps msg s c = Ret b \<Longrightarrow> block_client b = recovery_client s"
  using return_parsed_Return by fastforce

lemma sync_block_client: "sync_block deps s c = Ret b \<Longrightarrow> block_client b = recovery_client s"
  by (auto simp: sync_block_def Let_def split: option.splits list.splits sum.splits prod.splits if_splits
      dest!: return_parsed_client)

lemma heap_block_client:
  assumes "mm_inv (heap s)" "heap_block deps s c = Ret b"
  shows "block_client b = recovery_client s"
  using heap_block_cases [OF assms(1), of deps c] assms(2)
  by (auto simp: heap_falls_def heap_returns_def dest!: return_parsed_client [OF sym])

lemma deadline_block_client:
  assumes "deadline_block deps now s c = Ret b" shows "block_client b = recovery_client s"
proof -
  have "block_client b = recovery_client s" if "recover_single deps now s c = Ret b"
    using that by (auto simp: recover_single_def Let_def split: sum.splits prod.splits if_splits dest!: return_parsed_client)
  moreover have "block_client b = recovery_client s" if "recover_stream deps now s c = Ret b"
    using that by (auto simp: recover_stream_def Let_def split: sum.splits list.splits prod.splits if_splits
        dest!: return_parsed_client)
  ultimately show ?thesis using assms
    by (auto simp: deadline_block_def run_simps split: option.splits if_splits)
qed

lemma listen_block_client: "listen_block deps s c = Ret b \<Longrightarrow> block_client b = recovery_client s"
proof (induction "length (udp_framed s)" arbitrary: s c rule: less_induct)
  case less
  show ?case
  proof (cases "last_deadline s < instant_at c (ticks c)")
    case True
    then show ?thesis using less.prems by (simp add: listen_deadline deadline_block_client)
  next
    case False
    show ?thesis
    proof (cases "udp_framed s")
      case Nil
      then show ?thesis using False less.prems by (simp add: listen_pending)
    next
      case (Cons ev evs)
      have IH: "block_client b = recovery_client s1"
        if "listen_block deps s1 c1 = Ret b" "udp_framed s1 = evs" for s1 c1
        using less.hyps [of s1 c1] that Cons by simp
      show ?thesis
      proof (cases ev)
        case (Datagram m)
        then show ?thesis using less.prems IH
          by (cases "msg_seq m = want_sequence s")
            (auto simp: listen_event [OF False Cons] dest!: return_parsed_client)
      next
        case Elapsed
        then show ?thesis using less.prems IH [of "s\<lparr>udp_framed := evs\<rparr>" "tick c"]
          by (simp add: listen_event [OF False Cons])
      qed (use less.prems in \<open>auto simp: listen_event [OF False Cons]\<close>)
    qed
  qed
qed

lemma sequencer_next_client:
  assumes "log_ok L" "authentic L s" "sq_inv s" and res: "sequencer_next deps s c = Ret b"
  shows "block_client b = recovery_client s"
proof -
  obtain b1 where b1: "sync_block deps s c = Ret b1" using res by (auto simp: sequencer_next_def run_simps)
  note k1 = sync_block_client [OF b1] and ok1 = sync_block_ok [OF assms(1-3) b1]
  show ?thesis
  proof (cases b1)
    case (Return r s' c')
    then show ?thesis using k1 b1 res by (auto simp: sequencer_next_def)
  next
    case (Fall s1 c1)
    then have mm: "mm_inv (heap s1)" using ok1 by (simp add: sq_inv_def)
    obtain b2 where b2: "heap_block deps s1 c1 = Ret b2"
      using res b1 Fall by (auto simp: sequencer_next_def run_simps)
    note k2 = heap_block_client [OF mm b2]
    show ?thesis
    proof (cases b2)
      case (Return r s' c')
      then show ?thesis using k1 k2 b1 b2 Fall res by (auto simp: sequencer_next_def)
    next
      case fall2: (Fall s2 c2)
      have "listen_block deps (fst (connect_block s2 c2)) (snd (connect_block s2 c2)) = Ret b"
        using res b1 b2 Fall fall2 by (simp add: sequencer_next_def case_prod_beta Let_def)
      from listen_block_client [OF this] show ?thesis using k1 k2 Fall fall2 by simp
    qed
  qed
qed

text \<open>What any number of items leaves.\<close>

lemma into_stream_keeps:
  assumes L: "log_ok L"
  shows "authentic L s \<Longrightarrow> sq_inv s \<Longrightarrow> into_stream deps n s c = (rs, Ret (s', c')) \<Longrightarrow>
    authentic L s' \<and> sq_inv s' \<and> recovery_client s' = recovery_client s"
proof (induction n arbitrary: s c rs)
  case (Suc n)
  obtain r s1 c1 where nxt: "sequencer_next deps s c = Ret (Return r s1 c1)"
    using Suc.prems(3) by (auto split: run.splits block.splits)
  then obtain rs1 where rs1: "into_stream deps n s1 c1 = (rs1, Ret (s', c'))"
    using Suc.prems(3) by (auto split: prod.splits)
  have "authentic L s1" "sq_inv s1" using sequencer_next_ok [OF L Suc.prems(1,2) nxt] by simp_all
  with Suc.IH [OF this rs1] sequencer_next_client [OF L Suc.prems(1,2) nxt] show ?case by simp
qed simp

end
