(* ===== verification/Subscriber_Theorems.thy ===== *)
theory Subscriber_Theorems
  imports Catch_Up
begin

text \<open>
  The properties of the subscriber: its buffer (\<open>subscriber/min_max_heap.rs\<close>) and its
  sequencer (\<open>subscriber/sequencer.rs\<close>), each with an instance on a small publisher's log.
\<close>

section \<open>A small instance\<close>

text \<open>A log of four deltas, a recovery service that answers from it, a clock that stands still.\<close>

definition demo_msg :: "int \<Rightarrow> raw_message" where
  "demo_msg i = \<lparr>metadata = \<lparr>timestamp = 7 * NANO + i, sequence = i\<rparr>,
     payload = Some (Delta \<lparr>body = [word_of_int i]\<rparr>)\<rparr>"

definition demo_log :: log where
  "demo_log i = (if 0 \<le> i \<and> i < 4 then Some (demo_msg i) else None)"

definition demo_deps :: "byte list subscriber_deps" where
  "demo_deps = \<lparr>delta_decode = Inr, from_timestamp_opt = (\<lambda>secs ns.
     if ns < 2 * NANO then Some (secs * NANO + ns) else None)\<rparr>"

definition demo_client :: recovery_client where
  "demo_client = \<lparr>rpc_get_message = (\<lambda>t q. ok_or (status_internal ''none'') (demo_log (sequence_id q))),
     rpc_stream_from = (\<lambda>t q. Inr (map (\<lambda>i. Inr (demo_msg i)) (filter (\<lambda>i. sequence_id q \<le> i) [0, 1, 2, 3])))\<rparr>"

definition demo_clock :: "nat \<Rightarrow> clocks" where
  "demo_clock now = \<lparr>instant_at = (\<lambda>_. now), utc_at = int, ticks = 0\<rparr>"

definition demo_sequencer :: "int list \<Rightarrow> message_sequencer" where
  "demo_sequencer is = fst (sequencer_new (map (\<lambda>i. Datagram (demo_msg i)) is) demo_client 0 10 (demo_clock 0))"

lemma demo_msg_simps [simp]: "msg_seq (demo_msg i) = i" "msg_ts (demo_msg i) = 7 * NANO + i"
  by (simp_all add: demo_msg_def)

lemma demo_log_ok: "log_ok demo_log"
  by (simp add: log_ok_def demo_log_def)

lemma demo_chrono: "chrono_spec (from_timestamp_opt demo_deps)"
  by (simp add: chrono_spec_def demo_deps_def NANO_def)


lemma demo_in_log [simp]: "in_log demo_log (demo_msg i) \<longleftrightarrow> 0 \<le> i \<and> i < 4"
  by (simp add: in_log_def demo_log_def)

lemma demo_parse:
  assumes "0 \<le> i" "i < 4" "raw rm = demo_msg i"
  shows "try_parse demo_deps rm =
    Ret (Inr (Stream_Message (7 * NANO + i) (recv_ts rm) (origin rm) (SDelta [word_of_int i])))"
proof -
  have "ns_to_datetime demo_deps (7 * NANO + i) = Ret (7 * NANO + i)"
    by (rule ns_to_datetime_exact [OF demo_chrono]) (use assms in \<open>auto simp: NANO_def in_i64_def\<close>)
  then show ?thesis using assms(3) by (simp add: try_parse_def parse_payload_def demo_msg_def demo_deps_def)
qed

lemma demo_entry: "0 \<le> i \<Longrightarrow> i < 4 \<Longrightarrow> log_entry demo_deps (demo_msg i) = Some (7 * NANO + i, SDelta [word_of_int i])"
  by (simp add: log_entry_def demo_parse [of i])

lemma demo_parsable: "parsable demo_log demo_deps"
  by (auto simp: parsable_def demo_log_def demo_entry split: if_splits)

lemma demo_client_in_log: "client_in_log demo_log demo_client"
  by (auto simp: client_in_log_def demo_client_def items_in_log_def run_simps demo_log_def split: if_splits)

lemma demo_sequencer_simps [simp]:
  "recovery_client (demo_sequencer is) = demo_client"
  "udp_framed (demo_sequencer is) = map (\<lambda>i. Datagram (demo_msg i)) is"
  "heap (demo_sequencer is) = mm_new" "recovery_stream (demo_sequencer is) = None"
  "sequence_timeout (demo_sequencer is) = 10" "want_sequence (demo_sequencer is) = 0"
  "last_deadline (demo_sequencer is) = 0" "connected (demo_sequencer is) = False"
  by (simp_all add: demo_sequencer_def sequencer_new_def demo_clock_def)

lemma demo_authentic: "\<forall>i \<in> set is. 0 \<le> i \<and> i < 4 \<Longrightarrow> authentic demo_log (demo_sequencer is)"
  by (auto simp: authentic_def demo_client_in_log mm_new_def mm_items_def)

lemma demo_inv: "sq_inv (demo_sequencer is)"
  by (simp add: sq_inv_def mm_inv_new)

section \<open>Delivery\<close>

text \<open>C1: the sequencer delivers in order and exactly once. Whatever the socket, the clocks and
  the recovery service do (loss, reordering, duplication, timeouts, failed recoveries), if
  all they carry are messages of the publisher's log, then the payloads that a consumer
  reads from the stream, between the errors and the disconnections, are the entries of the
  log from the wanted sequence on: consecutive, none skipped, none twice; and the wanted
  sequence has advanced by exactly their number.\<close>

theorem delivers_in_order:
  assumes "log_ok L" "parsable L deps" "authentic L s" "sq_inv s"
    and "into_stream deps n s c = (rs, fin)"
  shows "\<exists>k. delivered rs = map (\<lambda>j. the (log_entry deps (the (L (want_sequence s + int j))))) [0..<k] \<and>
    (\<forall>j<k. L (want_sequence s + int j) \<noteq> None) \<and>
    (\<forall>s' c'. fin = Ret (s', c') \<longrightarrow> want_sequence s' = want_sequence s + int k)"
  using assms by (intro in_order_prefix)

theorem delivers_in_order_witness:
  "\<exists>k. delivered (fst (into_stream demo_deps 3 (demo_sequencer [1, 0, 1, 2]) (demo_clock 5))) =
    map (\<lambda>j. the (log_entry demo_deps (the (demo_log (0 + int j))))) [0..<k] \<and>
    (\<forall>j<k. demo_log (0 + int j) \<noteq> None)"
  using delivers_in_order [OF demo_log_ok demo_parsable demo_authentic demo_inv prod.collapse [symmetric],
      of "[1, 0, 1, 2]" 3 "demo_clock 5"]
  by auto




text \<open>C24: after a timeout the sequencer recovers a single message exactly when the wanted
  sequence is the only one absent up to the last buffered message, and otherwise restreams
  from it: the comparison with the next buffered sequence and the gap count are an exact test.\<close>

theorem recovery_choice_exact:
  assumes "sq_inv s" "overdue s c"
    and "\<And>m. m \<in># mm_items (heap s) \<Longrightarrow> 0 \<le> recv_seq m \<and> in_i64 (recv_seq m)"
  shows "sequencer_next deps s c =
    (if only_want_missing s then recover_single deps (instant_at c (ticks c)) s (tick c)
     else recover_stream deps (instant_at c (ticks c)) s (tick c))"
  using assms by (rule next_overdue_choice)

text \<open>A sequencer that wants 0, has buffered the given sequences and is past its deadline.\<close>

definition demo_overdue :: "int list \<Rightarrow> message_sequencer" where
  "demo_overdue is = (demo_sequencer [])\<lparr>connected := True,
     heap := foldl (\<lambda>h i. mm_push (Reverse (received_message_new 0 (demo_msg i) Udp)) h) mm_new is\<rparr>"

lemma demo_overdue_simps [simp]:
  "recovery_client (demo_overdue is) = demo_client" "udp_framed (demo_overdue is) = []"
  "recovery_stream (demo_overdue is) = None" "sequence_timeout (demo_overdue is) = 10"
  "want_sequence (demo_overdue is) = 0" "last_deadline (demo_overdue is) = 0" "connected (demo_overdue is)"
  by (simp_all add: demo_overdue_def)

lemma demo_heap:
  "mm_inv h \<Longrightarrow> mm_inv (foldl (\<lambda>h i. mm_push (Reverse (received_message_new 0 (demo_msg i) Udp)) h) h is)"
  "mm_items (foldl (\<lambda>h i. mm_push (Reverse (received_message_new 0 (demo_msg i) Udp)) h) h is) =
    mm_items h + image_mset (\<lambda>i. received_message_new 0 (demo_msg i) Udp) (mset is)"
  by (induction "is" arbitrary: h) (simp_all add: mm.push_invar mm.push_items)

lemma demo_overdue_items [simp]:
  "mm_items (heap (demo_overdue is)) = image_mset (\<lambda>i. received_message_new 0 (demo_msg i) Udp) (mset is)"
  by (simp add: demo_overdue_def demo_heap)

lemma demo_overdue_inv: "sq_inv (demo_overdue is)"
  by (simp add: sq_inv_def demo_overdue_def demo_heap mm_inv_new)

lemma demo_overdue_authentic: "\<forall>i \<in> set is. 0 \<le> i \<and> i < 4 \<Longrightarrow> authentic demo_log (demo_overdue is)"
  by (auto simp: authentic_def demo_client_in_log)

lemma demo_overdue_due: "is \<noteq> [] \<Longrightarrow> \<forall>i \<in> set is. 0 < i \<Longrightarrow> overdue (demo_overdue is) (demo_clock 20)"
  by (auto simp: overdue_def late_def demo_clock_def)

lemma demo_overdue_range:
  "\<forall>i \<in> set is. 0 \<le> i \<and> i < 4 \<Longrightarrow> m \<in># mm_items (heap (demo_overdue is)) \<Longrightarrow>
   0 \<le> recv_seq m \<and> in_i64 (recv_seq m)"
  by (auto simp: in_i64_def)

theorem recovery_choice_exact_witness:
  "sequencer_next demo_deps (demo_overdue [2, 1]) (demo_clock 20) =
     recover_single demo_deps 20 (demo_overdue [2, 1]) (tick (demo_clock 20)) \<and>
   sequencer_next demo_deps (demo_overdue [3, 1]) (demo_clock 20) =
     recover_stream demo_deps 20 (demo_overdue [3, 1]) (tick (demo_clock 20))"
proof -
  have "j = 1 \<or> j = 2" if "0 < j" "j \<le> 2" for j :: int using that by arith
  then have "only_want_missing (demo_overdue [2, 1])" by (fastforce simp: only_want_missing_def)
  moreover have "\<exists>m j. m \<in># mm_items (heap (demo_overdue [3, 1])) \<and> 0 < j \<and> j \<le> recv_seq m \<and>
      (\<forall>x. x \<in># mm_items (heap (demo_overdue [3, 1])) \<longrightarrow> recv_seq x \<noteq> j)"
    by (rule exI [of _ "received_message_new 0 (demo_msg 3) Udp"], rule exI [of _ 2]) auto
  then have "\<not> only_want_missing (demo_overdue [3, 1])" unfolding only_want_missing_def by fastforce
  moreover have "sequencer_next demo_deps (demo_overdue is) (demo_clock 20) =
      (if only_want_missing (demo_overdue is)
       then recover_single demo_deps 20 (demo_overdue is) (tick (demo_clock 20))
       else recover_stream demo_deps 20 (demo_overdue is) (tick (demo_clock 20)))"
    if "is \<noteq> []" "\<forall>i \<in> set is. 0 < i \<and> i < 4" for "is"
    using recovery_choice_exact [OF demo_overdue_inv demo_overdue_due demo_overdue_range,
        of "is" "\<lambda>_. is" demo_deps] that
    by (fastforce simp: demo_clock_def)
  ultimately show ?thesis by simp
qed




text \<open>C14: one recovery is enough to catch up, and it fetches no more than it must. A sequencer past its
  deadline has messages in its buffer, and from that moment on the recovery service answers from a
  log without holes that goes on growing and holds what is buffered. The next items of the stream are
  messages only. If nothing but the wanted message is missing, it alone is recovered (its origin is
  \<open>Missing\<close>), what is buffered follows with the origins it has, and the sequencer has then passed exactly
  the last buffered message. Otherwise all of them come from one batch recovery (their origin is \<open>Sync\<close>),
  up to the end the log had when the stream was requested. Either way everything that was buffered
  has been passed.\<close>

theorem overdue_catches_up:
  assumes "log_ok L" "parsable L deps" "authentic L s" "sq_inv s" "overdue s c"
    and "healthy L (want_sequence s) e (ticks c) (recovery_client s)"
    and "\<And>t m. ticks c \<le> t \<Longrightarrow> m \<in># mm_items (heap s) \<Longrightarrow> recv_seq m < e t"
  shows "\<exists>rs s' c'. into_stream deps (length rs) s c = (rs, Ret (s', c')) \<and>
    want_sequence s' = want_sequence s + int (length rs) \<and>
    (\<forall>m. m \<in># mm_items (heap s) \<longrightarrow> recv_seq m < want_sequence s') \<and>
    (if only_want_missing s
     then (\<exists>os. map item_origin rs = Some Missing # map Some os \<and> set os \<subseteq> origin ` set_mset (mm_items (heap s))) \<and>
       (\<exists>m. m \<in># mm_items (heap s) \<and> recv_seq m = want_sequence s' - 1)
     else map item_origin rs = replicate (length rs) (Some Sync) \<and> want_sequence s' = e (Suc (ticks c)))"
proof -
  obtain os s' c' where up: "catches_up deps (e (Suc (ticks c))) s c os s' c'"
      "\<forall>m. m \<in># mm_items (heap s) \<longrightarrow> recv_seq m < want_sequence s'"
    using overdue_delivers [OF assms] by blast
  then obtain rs where rs: "into_stream deps (length os) s c = (rs, Ret (s', c'))" "map item_origin rs = map Some os"
      "want_sequence s' = want_sequence s + int (length os)"
    unfolding catches_up_def delivers_def by blast
  have len: "length rs = length os" using arg_cong [OF rs(2), of length] by simp
  have "map item_origin rs = replicate (length rs) (Some Sync)" if "os = replicate (length os) Sync"
    using rs(2) that len by (metis map_replicate)
  then show ?thesis using up rs len unfolding catches_up_def
    by (intro exI [of _ rs] exI [of _ s'] exI [of _ c']) auto
qed

lemma demo_healthy: "healthy demo_log 0 (\<lambda>t. 4) t0 demo_client"
  by (simp add: healthy_def demo_client_def demo_log_def log_from_def upt_rec)

theorem overdue_catches_up_witness:
  "\<exists>rs s' c'. into_stream demo_deps 4 (demo_overdue [3, 1]) (demo_clock 20) = (rs, Ret (s', c')) \<and>
    map item_origin rs = [Some Sync, Some Sync, Some Sync, Some Sync] \<and> want_sequence s' = 4"
proof -
  let ?s = "demo_overdue [3, 1]"
  have gap: "\<not> only_want_missing ?s"
  proof
    assume only: "only_want_missing ?s"
    have "received_message_new 0 (demo_msg 3) Udp \<in># mm_items (heap ?s) \<and> want_sequence ?s < 2 \<and>
        2 \<le> recv_seq (received_message_new 0 (demo_msg 3) Udp)" by simp
    then have "\<exists>x. x \<in># mm_items (heap ?s) \<and> recv_seq x = 2" by (rule only [unfolded only_want_missing_def, rule_format])
    then show False by auto
  qed
  have has: "recv_seq m < 4" if "m \<in># mm_items (heap ?s)" for m using that by auto
  obtain rs s' c' where rs: "into_stream demo_deps (length rs) ?s (demo_clock 20) = (rs, Ret (s', c'))"
      "want_sequence s' = 0 + int (length rs)" "map item_origin rs = replicate (length rs) (Some Sync)" "want_sequence s' = 4"
    using overdue_catches_up [of demo_log demo_deps ?s "demo_clock 20" "\<lambda>t. 4", OF _ _ _ _ _ _ has] gap
      demo_log_ok demo_parsable demo_overdue_authentic [of "[3, 1]"] demo_overdue_inv demo_overdue_due [of "[3, 1]"]
      demo_healthy
    by auto
  then have "length rs = 4" by simp
  then show ?thesis using rs by (intro exI [of _ rs] exI [of _ s'] exI [of _ c']) (simp add: eval_nat_numeral)
qed

text \<open>A batch recovery is drained before anything else. When the recovery stream holds the
  next messages of the log, the following items are exactly those messages, marked as
  synced; neither the buffer nor the socket is touched meanwhile.\<close>

theorem batch_recovery_drained:
  assumes "log_ok L" "parsable L deps" "recovery_stream s = Some (map Inr ms @ rest)"
    and "\<forall>m \<in> set ms. in_log L m"
    and "map msg_seq ms = map (\<lambda>j. want_sequence s + int j) [0..<length ms]"
  shows "\<exists>rs s' c'. into_stream deps (length ms) s c = (rs, Ret (s', c')) \<and> length rs = length ms \<and>
    (\<forall>r \<in> set rs. from_sync r) \<and> want_sequence s' = want_sequence s + int (length ms) \<and>
    recovery_stream s' = Some rest \<and> heap s' = heap s \<and> udp_framed s' = udp_framed s"
  using assms by (rule sync_drain)

theorem batch_recovery_drained_witness:
  "\<exists>rs s' c'. into_stream demo_deps 2
      (demo_sequencer [3]\<lparr>recovery_stream := Some [Inr (demo_msg 0), Inr (demo_msg 1)]\<rparr>) (demo_clock 5) =
      (rs, Ret (s', c')) \<and>
    length rs = 2 \<and> (\<forall>r \<in> set rs. from_sync r) \<and> want_sequence s' = 2 \<and>
    recovery_stream s' = Some [] \<and> heap s' = mm_new \<and> udp_framed s' = [Datagram (demo_msg 3)]"
  using batch_recovery_drained [OF demo_log_ok demo_parsable,
      of "demo_sequencer [3]\<lparr>recovery_stream := Some [Inr (demo_msg 0), Inr (demo_msg 1)]\<rparr>"
        "[demo_msg 0, demo_msg 1]" "[]" "demo_clock 5"]
  by (simp add: upt_rec numeral_2_eq_2)

text \<open>A hole in the log blocks the subscriber. When the deadline has passed and the recovery
  service cannot supply the wanted sequence (the publisher's log has no such entry), every
  further item of the stream is an error and the sequencer never moves: the messages it has
  buffered are not delivered.\<close>

theorem hole_blocks_subscriber:
  assumes "sq_inv s" "\<And>i. last_deadline s < instant_at c i" "overdue s c"
    and "cannot_supply (recovery_client s) (want_sequence s)"
  shows "\<exists>es c'. into_stream deps n s c = (map Inl es, Ret (s, c')) \<and> length es = n"
  using assms by (rule stuck_stream)

text \<open>A recovery service over a log that lacks sequence 0.\<close>

definition holed_client :: recovery_client where
  "holed_client = demo_client\<lparr>rpc_get_message := (\<lambda>t q. if sequence_id q = 0 then Inl (status_internal ''none'')
       else rpc_get_message demo_client t q),
     rpc_stream_from := (\<lambda>t q. Inr (map (\<lambda>i. Inr (demo_msg i)) (filter (\<lambda>i. sequence_id q \<le> i) [1, 2, 3])))\<rparr>"

lemma holed_cannot_supply: "cannot_supply holed_client 0"
  by (simp add: cannot_supply_def holed_client_def)

theorem hole_blocks_subscriber_witness:
  "\<exists>es c'. into_stream demo_deps 9 (demo_overdue [1, 2]\<lparr>recovery_client := holed_client\<rparr>) (demo_clock 20) =
    (map Inl es, Ret (demo_overdue [1, 2]\<lparr>recovery_client := holed_client\<rparr>, c')) \<and> length es = 9"
proof (rule hole_blocks_subscriber)
  show "sq_inv (demo_overdue [1, 2]\<lparr>recovery_client := holed_client\<rparr>)"
    using demo_overdue_inv [of "[1, 2]"] by (simp add: sq_inv_def)
  show "overdue (demo_overdue [1, 2]\<lparr>recovery_client := holed_client\<rparr>) (demo_clock 20)"
    using demo_overdue_due [of "[1, 2]"] by (simp add: overdue_def late_def)
qed (simp_all add: demo_clock_def holed_cannot_supply)

section \<open>Errors, panics and disconnection\<close>



text \<open>C25: the conversion of the sender's timestamp is exact for timestamps from the epoch on and
  for whole seconds before it; every other negative timestamp panics, because its negative
  remainder is cast to an unsigned number of nanoseconds that no instant has.\<close>

theorem timestamp_conversion:
  assumes "chrono_spec (from_timestamp_opt deps)" "in_i64 t"
  shows "ns_to_datetime deps t = (if 0 \<le> t \<or> t mod NANO = 0 then Ret t else Panic)"
  using ns_to_datetime_exact [OF assms] ns_to_datetime_negative [OF assms(1), of t] by auto

theorem timestamp_conversion_witness:
  "ns_to_datetime demo_deps 1700000000123456789 = Ret 1700000000123456789 \<and>
   ns_to_datetime demo_deps (- 1) = Panic \<and> ns_to_datetime demo_deps (- 2000000000) = Ret (- 2000000000)"
  using timestamp_conversion [OF demo_chrono, of 1700000000123456789]
    timestamp_conversion [OF demo_chrono, of "- 1"] timestamp_conversion [OF demo_chrono, of "- 2000000000"]
  by (simp add: in_i64_def NANO_def)

text \<open>Silence is reported. A connected sequencer with nothing buffered and no batch recovery,
  past its deadline, reports the disconnection and changes nothing but its connected flag;
  the call after that waits one more full timeout before it reports again, so with no
  datagram and the clock within that timeout it is pending.\<close>

theorem silence_reported:
  assumes "recovery_stream s = None" "mm_items (heap s) = {#}" "connected s"
    and "last_deadline s < instant_at c (ticks c)"
    and "udp_framed s = []" "instant_at c (ticks c + 2) \<le> instant_at c (ticks c + 1) + sequence_timeout s"
  shows "sequencer_next deps s c = Ret (Return (Inr Disconnected) (s\<lparr>connected := False\<rparr>) (tick c)) \<and>
    sequencer_next deps (s\<lparr>connected := False\<rparr>) (tick c) = Pending"
proof -
  have peek: "mm_peek (heap s) = None" using assms(2) by (simp add: mm.peek_none)
  have fall: "heap_block deps s' c' = Ret (Fall s' c')" if "heap s' = heap s" for s' c'
    using that peek by (intro heap_block_fall) simp
  show ?thesis using assms peek
    by (simp add: next_without_stream fall connect_block_def listen_deadline listen_pending deadline_block_def
        tick_def)
qed

theorem silence_reported_witness:
  "sequencer_next demo_deps (demo_sequencer []\<lparr>connected := True\<rparr>) (demo_clock 20) =
     Ret (Return (Inr Disconnected) (demo_sequencer []\<lparr>connected := False\<rparr>) (tick (demo_clock 20)))"
  using silence_reported [of "demo_sequencer []\<lparr>connected := True\<rparr>" "demo_clock 20" demo_deps]
  by (simp add: mm_items_def mm_new_def demo_clock_def)

section \<open>The buffer\<close>

text \<open>C26: no sequence of operations on the buffer panics, and after each one the gap count agrees
  with its meaning: with sequences that fit, \<open>count_missing\<close> is the number of sequences
  between the smallest and the largest buffered one that are absent.\<close>

theorem buffer_counts_gaps:
  assumes "run_ops ps mm_new = res"
  shows "\<exists>h. res = Ret h \<and> (mm_ids h \<noteq> {#} \<longrightarrow>
    in_i64 (Max (set_mset (mm_ids h)) - Min (set_mset (mm_ids h))) \<longrightarrow>
    mm_count_missing h =
      Ret (int (card ({Min (set_mset (mm_ids h))..Max (set_mset (mm_ids h))} - set_mset (mm_ids h)))))"
  using run_ops_ok [OF mm_inv_new, of ps] mm_count_missing_card assms by blast

text \<open>Five pushes with a duplicate, and a pop: the buffer holds 4, 4, 7 and 9.\<close>

definition demo_ops :: "buffer_op list" where
  "demo_ops = map (\<lambda>i. Op_Push (Reverse (received_message_new 0 (demo_msg i) Udp))) [4, 2, 9, 4, 7] @ [Op_Pop]"

lemma demo_pushes:
  "run_ops (map (\<lambda>i. Op_Push (Reverse (received_message_new 0 (demo_msg i) Udp))) is @ ps) h =
   run_ops ps (foldl (\<lambda>h i. mm_push (Reverse (received_message_new 0 (demo_msg i) Udp)) h) h is)"
  by (induction "is" arbitrary: h) simp_all

lemma demo_run: "\<exists>h. run_ops demo_ops mm_new = Ret h \<and> mm_ids h = {#4, 4, 7, 9#}"
proof -
  let ?h = "foldl (\<lambda>h i. mm_push (Reverse (received_message_new 0 (demo_msg i) Udp)) h) mm_new [4, 2, 9, 4, 7]"
  have inv: "mm_inv ?h" by (rule demo_heap) (rule mm_inv_new)
  have items: "mm_items ?h = image_mset (\<lambda>i. received_message_new 0 (demo_msg i) Udp) {#4, 2, 9, 4, 7#}"
    by (subst demo_heap) simp
  have "recv_seq (received_message_new 0 (demo_msg 2) Udp) \<le> recv_seq x" if "x \<in># mm_items ?h" for x
    using that unfolding items by auto
  moreover have "received_message_new 0 (demo_msg 2) Udp \<in># mm_items ?h" unfolding items by simp
  ultimately obtain r where r: "mm_peek ?h = Some r" "rev_seq r = 2"
    using mm.peek_wanted [OF inv, of "received_message_new 0 (demo_msg 2) Udp"]
    unfolding received_message_new_simps demo_msg_simps by blast
  obtain h where h: "mm_pop ?h = Ret (Some r, h)" "mm_items ?h = add_mset (unreverse r) (mm_items h)"
    using mm.pop_peek [OF inv r(1)] by blast
  have "mm_ids ?h = add_mset 2 (mm_ids h)" using h(2) r(2) by (simp add: mm_ids_items)
  moreover have "mm_ids ?h = add_mset 2 {#4, 4, 7, 9#}" unfolding mm_ids_items items by simp
  ultimately have "mm_ids h = {#4, 4, 7, 9#}" by simp
  moreover have "run_ops demo_ops mm_new = Ret h" unfolding demo_ops_def demo_pushes using h(1) by simp
  ultimately show ?thesis by blast
qed

theorem buffer_counts_gaps_witness:
  "\<exists>h. run_ops demo_ops mm_new = Ret h \<and> mm_ids h = {#4, 4, 7, 9#} \<and> mm_count_missing h = Ret 3"
proof -
  obtain h where h: "run_ops demo_ops mm_new = Ret h" "mm_ids h = {#4, 4, 7, 9#}" using demo_run by blast
  have "{4 :: int..9} - {4, 7, 9} = {5, 6, 8}" by auto
  then have "mm_count_missing h = Ret 3"
    using buffer_counts_gaps [OF h(1)] by (simp add: h(2) in_i64_def)
  then show ?thesis using h by blast
qed

text \<open>Popping the buffer empty yields its messages in the order of their sequences, every one
  of them as often as it was pushed.\<close>

theorem buffer_drains_in_order:
  assumes "mm_inv h" "size (mm_items h) = n"
  shows "\<exists>rs h'. mm_drain n h = Ret (rs, h') \<and> mset rs = mm_items h \<and> sorted (map recv_seq rs) \<and>
    mm_items h' = {#}"
  using assms by (rule mm_drain_sorted)

theorem buffer_drains_in_order_witness:
  "\<exists>rs h'. mm_drain 4 (heap (demo_overdue [3, 1, 2, 1])) = Ret (rs, h') \<and>
    mset rs = image_mset (\<lambda>i. received_message_new 0 (demo_msg i) Udp) {#3, 1, 2, 1#} \<and>
    sorted (map recv_seq rs) \<and> mm_items h' = {#}"
  using buffer_drains_in_order [of "heap (demo_overdue [3, 1, 2, 1])" 4] demo_overdue_inv
  by (simp add: sq_inv_def)

end
