(* ===== verification/Codec.thy ===== *)
theory Codec
  imports Proto
begin

text \<open>
  \<open>codec/\<close> and \<open>constants.rs\<close>: the frame of a datagram, a header of three bytes (a
  compression flag that is always zero and the length of the body, big endian) and the
  protobuf bytes of the message. The encoding of messages is prost's; its two functions are
  parameters. A \<open>BytesMut\<close> is the list of its readable bytes; errors keep the bytes that
  the failed call leaves behind.
\<close>

section \<open>Constants\<close>

definition MTU :: nat where
  "MTU = 1500"

text \<open>\<open>size_of::<u8>() + size_of::<u16>()\<close>\<close>

definition HEADER_SIZE :: nat where
  "HEADER_SIZE = 1 + 2"

definition MAX_PAYLOAD_SIZE :: nat where
  "MAX_PAYLOAD_SIZE = MTU - HEADER_SIZE - 100"

section \<open>What the codec calls\<close>

text \<open>
  \<open>Message::encode\<close> of prost appends the bytes of a message to the buffer, or fails and appends
  nothing; \<open>Message::decode\<close> reads a whole buffer and consumes it, or fails with the
  unread rest left in the buffer. Errors are what \<open>to_string\<close> prints of them.
  \<open>status_display\<close> is \<open>Display\<close> of tonic's \<open>Status\<close>; \<open>header_memory\<close> is the content of the
  memory that \<open>advance_mut\<close> exposes for the header.
\<close>

record 'm codec_deps =
  prost_encode :: "'m \<Rightarrow> (string, byte list) result"
  prost_decode :: "byte list \<Rightarrow> (string, 'm) result"
  prost_unread :: "byte list \<Rightarrow> byte list"
  status_display :: "status \<Rightarrow> string"
  header_memory :: "byte list"

section \<open>Encoder\<close>

text \<open>\<open>put_u16\<close> and \<open>get_u16\<close>: big endian.\<close>

definition put_u16 :: "16 word \<Rightarrow> byte list" where
  "put_u16 w = [ucast (drop_bit 8 w), ucast w]"

definition get_u16 :: "byte \<Rightarrow> byte \<Rightarrow> 16 word" where
  "get_u16 hi lo = or (push_bit 8 (ucast hi)) (ucast lo)"

definition encode_message :: "'m codec_deps \<Rightarrow> 'm \<Rightarrow> byte list \<Rightarrow> (status, byte list) result" where
  "encode_message p item buf =
     map_err status_internal (and_then (prost_encode p item) (\<lambda>bytes. Inr (buf @ bytes)))"

definition encode ::
  "'m codec_deps \<Rightarrow> 'm \<Rightarrow> byte list \<Rightarrow> (status, unit) result \<times> byte list" where
  "encode p item dst =
     (let dst1 = dst @ header_memory p
      in case encode_message p item dst1 of
           Inl err \<Rightarrow> (Inl (status_internal (''Error encoding: '' @ status_display p err)), dst1)
         | Inr dst2 \<Rightarrow>
             let len = length dst2 - HEADER_SIZE
             in if len > MAX_PAYLOAD_SIZE
                then (Inl (status_internal (''Message too large: '' @ show_nat len)), dst2)
                else (Inr (), 0 # put_u16 (word_of_nat len) @ drop HEADER_SIZE dst2))"

section \<open>Decoder\<close>

datatype decoder_state = Read_Header | Read_Body nat

definition decoder_new :: decoder_state where
  "decoder_new = Read_Header"

definition from_decode_error :: "string \<Rightarrow> status" where
  "from_decode_error e = \<lparr>code = Internal, message = e\<rparr>"

definition decode_payload :: "'m codec_deps \<Rightarrow> byte list \<Rightarrow> (status, 'm option) result \<times> byte list" where
  "decode_payload p buf =
     (case prost_decode p buf of
        Inl e \<Rightarrow> (Inl (from_decode_error e), prost_unread p buf)
      | Inr m \<Rightarrow> (Inr (Some m), []))"

text \<open>The part of \<open>decode\<close> after the header: it waits for \<open>len\<close> bytes, then decodes all there are.\<close>

definition decode_body ::
  "'m codec_deps \<Rightarrow> nat \<Rightarrow> byte list \<Rightarrow> (status, 'm option) result \<times> decoder_state \<times> byte list" where
  "decode_body p len src =
     (if length src < len then (Inr None, Read_Body len, src)
      else case decode_payload p src of
             (Inl e, rest) \<Rightarrow> (Inl e, Read_Body len, rest)
           | (Inr msg, rest) \<Rightarrow> (Inr msg, Read_Header, rest))"

fun decode ::
  "'m codec_deps \<Rightarrow> decoder_state \<Rightarrow> byte list \<Rightarrow> (status, 'm option) result \<times> decoder_state \<times> byte list" where
  "decode p (Read_Body len) src = decode_body p len src"
| "decode p Read_Header src =
     (case src of
        flag # hi # lo # rest \<Rightarrow>
          if flag = 0 then decode_body p (unat (get_u16 hi lo)) rest
          else (Inl \<lparr>code = Internal,
                  message = ''Compression not supported: found '' @ show_nat (unat flag)\<rparr>,
                Read_Header, hi # lo # rest)
      | _ \<Rightarrow> (Inr None, Read_Header, src))"

section \<open>The header\<close>

lemma sizes [codec_simps]: "HEADER_SIZE = 3" "MAX_PAYLOAD_SIZE = 1397"
  by (simp_all add: HEADER_SIZE_def MAX_PAYLOAD_SIZE_def MTU_def)

lemma length_put_u16 [simp]: "length (put_u16 w) = 2"
  by (simp add: put_u16_def)

lemma get_put_u16: "get_u16 (ucast (drop_bit 8 w)) (ucast w) = w"
  by (rule bit_word_eqI) (auto simp: get_u16_def bit_simps)

lemma put_u16_inj: "put_u16 a = put_u16 b \<Longrightarrow> a = b"
  by (metis get_put_u16 list.inject put_u16_def)

lemma header_length: "n \<le> MAX_PAYLOAD_SIZE \<Longrightarrow> unat (word_of_nat n :: 16 word) = n"
  by (simp add: codec_simps unsigned_of_nat take_bit_nat_eq_self)

section \<open>Frames\<close>

text \<open>The frame of a body: the datagram that carries it.\<close>

definition frame :: "byte list \<Rightarrow> byte list" where
  "frame bytes = 0 # put_u16 (word_of_nat (length bytes)) @ bytes"

definition header_ok :: "'m codec_deps \<Rightarrow> bool" where
  "header_ok p \<longleftrightarrow> length (header_memory p) = HEADER_SIZE"

lemma length_frame [codec_simps]: "length (frame bytes) = HEADER_SIZE + length bytes"
  by (simp add: frame_def codec_simps)

lemma drop_frame [codec_simps]: "drop HEADER_SIZE (frame bytes) = bytes"
  by (simp add: frame_def codec_simps put_u16_def)

lemma drop_3_frame [simp]: "drop 3 (frame bytes) = bytes"
  using drop_frame [of bytes] by (simp add: sizes)

text \<open>The three outcomes of the encoder on an empty buffer.\<close>

lemma encode_empty:
  assumes "header_ok p"
  shows "encode p m [] =
    (case prost_encode p m of
       Inl e \<Rightarrow> (Inl (status_internal (''Error encoding: '' @ status_display p (status_internal e))), header_memory p)
     | Inr bytes \<Rightarrow>
         if MAX_PAYLOAD_SIZE < length bytes
         then (Inl (status_internal (''Message too large: '' @ show_nat (length bytes))), header_memory p @ bytes)
         else (Inr (), frame bytes))"
  using assms
  by (auto simp: encode_def encode_message_def header_ok_def frame_def split: sum.split)

lemma encode_Inr_iff:
  assumes "header_ok p"
  shows "encode p m [] = (Inr u, f) \<longleftrightarrow>
    (\<exists>bytes. prost_encode p m = Inr bytes \<and> length bytes \<le> MAX_PAYLOAD_SIZE \<and> f = frame bytes)"
  by (auto simp: encode_empty [OF assms] split: sum.split)

lemma decode_frame_prefix:
  "decode p Read_Header (0 # put_u16 (word_of_nat n) @ rest) =
     decode_body p (unat (word_of_nat n :: 16 word)) rest"
  by (simp add: put_u16_def get_put_u16)

lemma decode_frame:
  assumes "length bytes \<le> MAX_PAYLOAD_SIZE" "prost_decode p bytes = Inr m"
  shows "decode p Read_Header (frame bytes) = (Inr (Some m), Read_Header, [])"
  using assms unfolding frame_def decode_frame_prefix
  by (simp add: header_length decode_body_def decode_payload_def)

text \<open>A frame that arrives in two pieces.\<close>

lemma decode_piece:
  assumes len: "length bytes \<le> MAX_PAYLOAD_SIZE" and m: "prost_decode p bytes = Inr m"
    and split: "frame bytes = a @ b" "b \<noteq> []"
  shows "\<exists>st rest. decode p Read_Header a = (Inr None, st, rest) \<and>
    decode p st (rest @ b) = (Inr (Some m), Read_Header, [])"
proof (cases "length a < HEADER_SIZE")
  case True
  have "\<nexists>x y z zs. a = x # y # z # zs" using True by (auto simp: codec_simps)
  then have "decode p Read_Header a = (Inr None, Read_Header, a)" by (auto split: list.split)
  then show ?thesis using decode_frame [OF len m] split(1) by auto
next
  case False
  let ?w = "word_of_nat (length bytes) :: 16 word"
  have "take 3 a = take 3 (frame bytes)" using False split(1) by (simp add: codec_simps)
  also have "\<dots> = 0 # put_u16 ?w" by (simp add: frame_def put_u16_def)
  finally have a: "a = 0 # put_u16 ?w @ drop 3 a" by (metis append_take_drop_id append_Cons)
  have bytes: "bytes = drop 3 a @ b"
    using drop_frame [of bytes] split(1) False by (simp add: codec_simps)
  have "length (drop 3 a) < length bytes" using split(2) by (simp add: bytes)
  then have "decode p Read_Header a = (Inr None, Read_Body (length bytes), drop 3 a)"
    by (subst a, subst decode_frame_prefix) (simp add: header_length [OF len] decode_body_def)
  moreover have "decode p (Read_Body (length bytes)) (drop 3 a @ b) = (Inr (Some m), Read_Header, [])"
    using m by (simp add: bytes [symmetric] decode_body_def decode_payload_def)
  ultimately show ?thesis by blast
qed

section \<open>The contract of the codec\<close>

text \<open>
  What a publisher and a subscriber rely on: a frame fits a datagram, and decoding it gives
  back the message when the codec underneath does.
\<close>

locale frame_codec =
  fixes enc :: "'c \<Rightarrow> 'm \<Rightarrow> byte list option"
    and dec :: "'c \<Rightarrow> byte list \<Rightarrow> 'm option"
    and sound :: "'c \<Rightarrow> 'm \<Rightarrow> bool"
    and limit :: nat
  assumes enc_bound: "enc c m = Some f \<Longrightarrow> length f \<le> limit"
    and dec_enc: "sound c m \<Longrightarrow> enc c m = Some f \<Longrightarrow> dec c f = Some m"
begin

lemma enc_inj: "sound c a \<Longrightarrow> sound c b \<Longrightarrow> enc c a = Some f \<Longrightarrow> enc c b = Some f \<Longrightarrow> a = b"
  using dec_enc by (metis option.inject)

lemma dec_map: "\<forall>m \<in> set ms. sound c m \<Longrightarrow> map (enc c) ms = map Some fs \<Longrightarrow> map (dec c) fs = map Some ms"
  by (induction ms arbitrary: fs) (auto simp: dec_enc)

end

text \<open>prost reads back what it wrote for this message.\<close>

definition prost_sound :: "'m codec_deps \<Rightarrow> 'm \<Rightarrow> bool" where
  "prost_sound p m \<longleftrightarrow> header_ok p \<and> (\<forall>bytes. prost_encode p m = Inr bytes \<longrightarrow> prost_decode p bytes = Inr m)"

text \<open>The datagram of a message, and the message of a datagram for a fresh decoder.\<close>

definition to_datagram :: "'m codec_deps \<Rightarrow> 'm \<Rightarrow> byte list option" where
  "to_datagram p m = (if header_ok p then case encode p m [] of (Inr _, f) \<Rightarrow> Some f | _ \<Rightarrow> None else None)"

definition of_datagram :: "'m codec_deps \<Rightarrow> byte list \<Rightarrow> 'm option" where
  "of_datagram p f = (case decode p decoder_new f of (Inr (Some m), Read_Header, []) \<Rightarrow> Some m | _ \<Rightarrow> None)"

lemma to_datagram_Some:
  "to_datagram p m = Some f \<longleftrightarrow> header_ok p \<and>
     (\<exists>bytes. prost_encode p m = Inr bytes \<and> length bytes \<le> MAX_PAYLOAD_SIZE \<and> f = frame bytes)"
  by (auto simp: to_datagram_def encode_empty split: sum.split)

lemma of_datagram_frame:
  assumes "length bytes \<le> MAX_PAYLOAD_SIZE" "prost_decode p bytes = Inr m"
  shows "of_datagram p (frame bytes) = Some m"
  unfolding of_datagram_def decoder_new_def decode_frame [OF assms] by simp

interpretation datagram: frame_codec to_datagram of_datagram prost_sound "HEADER_SIZE + MAX_PAYLOAD_SIZE"
  by unfold_locales (auto simp: to_datagram_Some prost_sound_def length_frame of_datagram_frame)

section \<open>Properties\<close>

text \<open>An instance: messages that are their own bytes, but may not begin with 255.\<close>

definition bytes_codec :: "byte list codec_deps" where
  "bytes_codec = \<lparr>prost_encode = Inr,
     prost_decode = (\<lambda>bs. if take 1 bs = [255] then Inl ''bad tag'' else Inr bs), prost_unread = drop 1,
     status_display = message, header_memory = [7, 7, 7]\<rparr>"

lemma bytes_codec_simps [simp]:
  "prost_encode bytes_codec = Inr" "header_ok bytes_codec"
  "prost_decode bytes_codec bs = (if take 1 bs = [255] then Inl ''bad tag'' else Inr bs)"
  "prost_unread bytes_codec = drop 1" "status_display bytes_codec = message"
  by (simp_all add: bytes_codec_def header_ok_def codec_simps)

text \<open>C18: encode and decode are inverse. When prost reads back what it wrote for a message and the
  encoder accepts the message on an empty buffer, the frame it leaves is at most 1400 bytes
  (it fits a datagram with 100 bytes to spare below the MTU), and a fresh decoder turns
  exactly that frame into the message, consuming all of it and ready for the next frame.\<close>

theorem codec_roundtrip:
  assumes "header_ok p" "encode p m [] = (Inr u, f)"
    and "\<And>bytes. prost_encode p m = Inr bytes \<Longrightarrow> prost_decode p bytes = Inr m"
  shows "length f + 100 \<le> MTU \<and> decode p decoder_new f = (Inr (Some m), decoder_new, [])"
proof -
  obtain bytes where bytes: "prost_encode p m = Inr bytes" "length bytes \<le> MAX_PAYLOAD_SIZE" "f = frame bytes"
    using assms(2) unfolding encode_Inr_iff [OF assms(1)] by blast
  then show ?thesis
    unfolding decoder_new_def bytes(3) decode_frame [OF bytes(2) assms(3) [OF bytes(1)]]
    by (simp add: codec_simps MTU_def)
qed

theorem codec_roundtrip_witness:
  "encode bytes_codec [1, 2, 3] [] = (Inr (), [0, 0, 3, 1, 2, 3]) \<and>
   decode bytes_codec decoder_new [0, 0, 3, 1, 2, 3] = (Inr (Some [1, 2, 3]), decoder_new, [])"
proof -
  have "encode bytes_codec [1, 2, 3] [] = (Inr (), [0, 0, 3, 1, 2, 3])"
    by (simp add: encode_empty codec_simps frame_def put_u16_def)
  then show ?thesis using codec_roundtrip [of bytes_codec "[1, 2, 3]"] by fastforce
qed

text \<open>The decoder reassembles. Wherever a frame is cut in two, the decoder reports no message
  for the first piece and, once the second piece is appended to what it left unread, gives
  the message.\<close>

theorem decoder_reassembles:
  assumes "length bytes \<le> MAX_PAYLOAD_SIZE" "prost_decode p bytes = Inr m"
    and "frame bytes = a @ b" "b \<noteq> []"
  shows "\<exists>st rest. decode p Read_Header a = (Inr None, st, rest) \<and>
    decode p st (rest @ b) = (Inr (Some m), Read_Header, [])"
  using assms by (rule decode_piece)

theorem decoder_reassembles_witness:
  "\<exists>st rest. decode bytes_codec Read_Header [0, 0, 3, 9] = (Inr None, st, rest) \<and>
    decode bytes_codec st (rest @ [8, 7]) = (Inr (Some [9, 8, 7]), Read_Header, [])"
  using decoder_reassembles [of "[9, 8, 7]" bytes_codec _ "[0, 0, 3, 9]" "[8, 7]"]
  by (simp add: codec_simps frame_def put_u16_def)

text \<open>C27: the size limit is exact. On an empty buffer a message is accepted if and only if prost
  encodes it to at most 1397 bytes; a larger one is refused with its size in the error, and
  an error of prost is passed on.\<close>

theorem encoder_size_limit:
  assumes "header_ok p" "prost_encode p m = Inr bytes"
  shows "encode p m [] =
    (if length bytes \<le> 1397 then (Inr (), frame bytes)
     else (Inl (status_internal (''Message too large: '' @ show_nat (length bytes))), header_memory p @ bytes))"
  using assms by (simp add: encode_empty codec_simps)

theorem encoder_size_limit_witness:
  "fst (encode bytes_codec (replicate 1398 1) []) = Inl (status_internal (''Message too large: '' @ ''1398''))"
proof -
  have "show_nat 1398 = ''1398''" by code_simp
  then show ?thesis using encoder_size_limit [of bytes_codec "replicate 1398 1" "replicate 1398 1"]
    by simp
qed

text \<open>C28: the decoder does not enforce the length of a frame. Bytes after the announced body (a
  second frame in the same buffer, or trailing bytes of the datagram) are handed to prost
  together with it, and the whole buffer is consumed.\<close>

theorem decoder_ignores_length:
  assumes "length bytes \<le> MAX_PAYLOAD_SIZE"
  shows "decode p Read_Header (frame bytes @ extra) =
    (case prost_decode p (bytes @ extra) of
       Inr m \<Rightarrow> (Inr (Some m), Read_Header, [])
     | Inl e \<Rightarrow> (Inl (from_decode_error e), Read_Body (length bytes), prost_unread p (bytes @ extra)))"
proof -
  have "decode p Read_Header (frame bytes @ extra) = decode_body p (length bytes) (bytes @ extra)"
    using decode_frame_prefix [of p "length bytes" "bytes @ extra"] header_length [OF assms]
    by (simp add: frame_def)
  then show ?thesis by (simp add: decode_body_def decode_payload_def split: sum.split)
qed

theorem decoder_ignores_length_witness:
  "decode bytes_codec Read_Header (frame [1] @ frame [2]) = (Inr (Some [1, 0, 0, 1, 2]), Read_Header, [])"
  using decoder_ignores_length [of "[1]" bytes_codec "frame [2]"]
  by (simp add: codec_simps frame_def put_u16_def)

text \<open>C29: a failed body poisons the decoder. After prost rejects a body, the decoder still expects
  one of that length, so the next frame, if its length reaches it, is handed to prost with
  its header as part of the body instead of being decoded.\<close>

theorem decode_error_keeps_state:
  assumes "length bad \<le> MAX_PAYLOAD_SIZE" "prost_decode p bad = Inl e" "length bad \<le> length (frame good)"
  shows "\<exists>st rest. decode p Read_Header (frame bad) = (Inl (from_decode_error e), st, rest) \<and>
    fst (decode p st (frame good)) = fst (decode_payload p (frame good))"
proof -
  have "decode p Read_Header (frame bad) = (Inl (from_decode_error e), Read_Body (length bad), prost_unread p bad)"
    using decode_frame_prefix [of p "length bad" bad] header_length [OF assms(1)] assms(2)
    by (simp add: frame_def decode_body_def decode_payload_def)
  moreover have "fst (decode p (Read_Body (length bad)) (frame good)) = fst (decode_payload p (frame good))"
    using assms(3) by (simp add: decode_body_def split: prod.split sum.split)
  ultimately show ?thesis by blast
qed

theorem decode_error_keeps_state_witness:
  "\<exists>st rest. decode bytes_codec Read_Header (frame [255]) = (Inl (from_decode_error ''bad tag''), st, rest) \<and>
    fst (decode bytes_codec st (frame [1])) = Inr (Some [0, 0, 1, 1])"
  using decode_error_keeps_state [of "[255]" bytes_codec "''bad tag''" "[1]"]
  by (simp add: codec_simps frame_def put_u16_def decode_payload_def)

end
