(* ===== verification/Persistence.thy ===== *)
theory Persistence
  imports Proto BTree_Map
begin

text \<open>
  \<open>persistence/\<close>: the two traits, their in-memory implementations (\<open>mock/\<close>) and the ones on
  sqlite (\<open>sqlite/\<close>). A trait is a record of its operations, each passing the state of the
  store on; futures that only wait for a lock or a connection return their value.
\<close>

section \<open>The traits\<close>

text \<open>\<open>PublisherPersistence\<close>; the last field is the bound \<open>Error: Into<Status>\<close>.\<close>

record ('s, 'e) publisher_persistence =
  next_sequence :: "'s \<Rightarrow> ('e, int) result \<times> 's"
  write_message :: "int \<Rightarrow> int \<Rightarrow> byte list \<Rightarrow> 's \<Rightarrow> ('e, unit) result \<times> 's"
  read_sequence :: "int \<Rightarrow> 's \<Rightarrow> ('e, byte list) result \<times> 's"
  stream_from_sequence :: "int \<Rightarrow> 's \<Rightarrow> ('e, (status, byte list) result list) result \<times> 's"
  into_status :: "'e \<Rightarrow> status"

text \<open>\<open>SubscriberPersistence\<close>: \<open>write_message\<close> takes the sequence, the sender's timestamp, the
  time of receipt, whether it is a replay, and the bytes.\<close>

record ('s, 'e) subscriber_persistence =
  read_last_sequence :: "'s \<Rightarrow> ('e, int option) result \<times> 's"
  write_replica :: "int \<Rightarrow> int \<Rightarrow> int \<Rightarrow> bool \<Rightarrow> byte list \<Rightarrow> 's \<Rightarrow> ('e, unit) result \<times> 's"
  replica_status :: "'e \<Rightarrow> status"

section \<open>In memory\<close>

datatype mock_error = Sequence_Exists int | Sequence_Not_Found int | Connection_Error

fun mock_error_display :: "mock_error \<Rightarrow> string" where
  "mock_error_display (Sequence_Exists i) = ''sequence '' @ show_int i @ '' already exists''"
| "mock_error_display (Sequence_Not_Found i) = ''sequence '' @ show_int i @ '' not found''"
| "mock_error_display Connection_Error = ''connection error''"

definition mock_error_status :: "mock_error \<Rightarrow> status" where
  "mock_error_status e = status_internal (''mock persistence error '' @ mock_error_display e)"

type_synonym mock_store = "(int, byte list) btree_map"

definition mock_next_sequence :: "mock_store \<Rightarrow> (mock_error, int) result \<times> mock_store" where
  "mock_next_sequence s = (Inr (case bt_max_key s of Some k \<Rightarrow> k | None \<Rightarrow> 0), s)"

definition mock_write_message ::
  "int \<Rightarrow> int \<Rightarrow> byte list \<Rightarrow> mock_store \<Rightarrow> (mock_error, unit) result \<times> mock_store" where
  "mock_write_message seq_id ts buf s =
     (if bt_get s seq_id = None then (Inr (), bt_insert seq_id buf s)
      else (Inl (Sequence_Exists seq_id), s))"

definition mock_read_sequence :: "int \<Rightarrow> mock_store \<Rightarrow> (mock_error, byte list) result \<times> mock_store" where
  "mock_read_sequence seq_id s = (ok_or (Sequence_Exists seq_id) (bt_get s seq_id), s)"

definition mock_stream_from_sequence ::
  "int \<Rightarrow> mock_store \<Rightarrow> (mock_error, (status, byte list) result list) result \<times> mock_store" where
  "mock_stream_from_sequence seq_id s =
     (let rows = map snd (bt_range_from seq_id s) in (Inr (map Inr rows), s))"

definition mock_publisher :: "(mock_store, mock_error) publisher_persistence" where
  "mock_publisher = \<lparr>next_sequence = mock_next_sequence, write_message = mock_write_message,
     read_sequence = mock_read_sequence, stream_from_sequence = mock_stream_from_sequence,
     into_status = mock_error_status\<rparr>"

definition mock_read_last_sequence :: "mock_store \<Rightarrow> (mock_error, int option) result \<times> mock_store" where
  "mock_read_last_sequence s = (Inr (bt_max_key s), s)"

definition mock_write_replica ::
  "int \<Rightarrow> int \<Rightarrow> int \<Rightarrow> bool \<Rightarrow> byte list \<Rightarrow> mock_store \<Rightarrow> (mock_error, unit) result \<times> mock_store" where
  "mock_write_replica seq_id ts recv_ts replay buf s = (Inr (), bt_insert seq_id buf s)"

definition mock_subscriber :: "(mock_store, mock_error) subscriber_persistence" where
  "mock_subscriber = \<lparr>read_last_sequence = mock_read_last_sequence, write_replica = mock_write_replica,
     replica_status = mock_error_status\<rparr>"

section \<open>Sqlite\<close>

text \<open>
  A database is its tables, lists of rows in the order of insertion (\<open>grapevine/migrations\<close>:
  the \<open>id\<close> columns are primary keys), and the faults of the environment: what, if anything,
  goes wrong with the \<open>n\<close>-th use of the pool (acquiring a connection, or a statement). A
  statement that fails changes nothing.
\<close>

datatype sqlx_error = Row_Not_Found | Unique_Violation | Fault string

text \<open>\<open>SqlError\<close> wraps it and prints as a constant.\<close>

definition sql_error_display :: "sqlx_error \<Rightarrow> string" where
  "sql_error_display e = ''sqlx error''"

definition sql_error_status :: "sqlx_error \<Rightarrow> status" where
  "sql_error_status e = status_internal (sql_error_display e)"

record 'row sqlite_pool =
  rows :: "'row list"
  faults :: "nat \<Rightarrow> string option"
  uses :: nat

definition use_pool :: "'row sqlite_pool \<Rightarrow> (sqlx_error, unit) result \<times> 'row sqlite_pool" where
  "use_pool p = (case faults p (uses p) of Some e \<Rightarrow> Inl (Fault e) | None \<Rightarrow> Inr (), p\<lparr>uses := Suc (uses p)\<rparr>)"

text \<open>\<open>pool.acquire().await?\<close>, then a statement on the connection, its \<open>await?\<close>.\<close>

definition run_statement ::
  "('row sqlite_pool \<Rightarrow> (sqlx_error, 'a) result \<times> 'row sqlite_pool) \<Rightarrow>
   'row sqlite_pool \<Rightarrow> (sqlx_error, 'a) result \<times> 'row sqlite_pool" where
  "run_statement statement p =
     (case use_pool p of
        (Inl e, p1) \<Rightarrow> (Inl e, p1)
      | (Inr _, p1) \<Rightarrow>
          (case use_pool p1 of
             (Inl e, p2) \<Rightarrow> (Inl e, p2)
           | (Inr _, p2) \<Rightarrow> statement p2))"

text \<open>\<open>INSERT INTO .. VALUES ..\<close> with the primary key given by \<open>key\<close>\<close>

definition insert_row :: "('row \<Rightarrow> int) \<Rightarrow> 'row \<Rightarrow> 'row sqlite_pool \<Rightarrow> (sqlx_error, unit) result \<times> 'row sqlite_pool" where
  "insert_row key r p =
     (if key r \<in> key ` set (rows p) then (Inl Unique_Violation, p)
      else (Inr (), p\<lparr>rows := rows p @ [r]\<rparr>))"

text \<open>\<open>SELECT id .. ORDER BY id DESC LIMIT 1\<close>, \<open>fetch_optional\<close>\<close>

definition select_last_id :: "('row \<Rightarrow> int) \<Rightarrow> 'row sqlite_pool \<Rightarrow> (sqlx_error, int option) result \<times> 'row sqlite_pool" where
  "select_last_id key p = (Inr (case rev (sort (map key (rows p))) of [] \<Rightarrow> None | i # _ \<Rightarrow> Some i), p)"

record master_row =
  master_id :: int
  master_ts :: int
  master_raw :: "byte list"

type_synonym master_pool = "master_row sqlite_pool"

definition sqlite_next_sequence :: "master_pool \<Rightarrow> (sqlx_error, int) result \<times> master_pool" where
  "sqlite_next_sequence p =
     (case run_statement (select_last_id master_id) p of
        (Inl e, p') \<Rightarrow> (Inl e, p')
      | (Inr maybe_row, p') \<Rightarrow> (Inr (case maybe_row of Some i \<Rightarrow> wrap_i64 (i + 1) | None \<Rightarrow> 0), p'))"

definition sqlite_write_message ::
  "int \<Rightarrow> int \<Rightarrow> byte list \<Rightarrow> master_pool \<Rightarrow> (sqlx_error, unit) result \<times> master_pool" where
  "sqlite_write_message seq_id ts buf =
     run_statement (insert_row master_id \<lparr>master_id = seq_id, master_ts = ts, master_raw = buf\<rparr>)"

text \<open>\<open>SELECT raw .. WHERE id = ?1\<close>, \<open>fetch_one\<close>\<close>

definition sqlite_read_sequence :: "int \<Rightarrow> master_pool \<Rightarrow> (sqlx_error, byte list) result \<times> master_pool" where
  "sqlite_read_sequence seq_id =
     run_statement (\<lambda>p. (case filter (\<lambda>r. master_id r = seq_id) (rows p) of
       [] \<Rightarrow> Inl Row_Not_Found | r # _ \<Rightarrow> Inr (master_raw r), p))"

text \<open>\<open>SELECT id, raw .. WHERE id >= ?1 ORDER BY id\<close>, \<open>fetch_all\<close>\<close>

definition sqlite_stream_from_sequence ::
  "int \<Rightarrow> master_pool \<Rightarrow> (sqlx_error, (status, byte list) result list) result \<times> master_pool" where
  "sqlite_stream_from_sequence seq_id =
     run_statement (\<lambda>p. (Inr (map (\<lambda>r. Inr (master_raw r))
       (sort_key master_id (filter (\<lambda>r. seq_id \<le> master_id r) (rows p)))), p))"

definition sqlite_publisher :: "(master_pool, sqlx_error) publisher_persistence" where
  "sqlite_publisher = \<lparr>next_sequence = sqlite_next_sequence, write_message = sqlite_write_message,
     read_sequence = sqlite_read_sequence, stream_from_sequence = sqlite_stream_from_sequence,
     into_status = sql_error_status\<rparr>"

record replica_row =
  replica_id :: int
  replica_ts :: int
  replica_recv_ts :: int
  replica_replay :: bool
  replica_raw :: "byte list"

type_synonym replica_pool = "replica_row sqlite_pool"

definition sqlite_read_last_sequence :: "replica_pool \<Rightarrow> (sqlx_error, int option) result \<times> replica_pool" where
  "sqlite_read_last_sequence = run_statement (select_last_id replica_id)"

definition sqlite_write_replica ::
  "int \<Rightarrow> int \<Rightarrow> int \<Rightarrow> bool \<Rightarrow> byte list \<Rightarrow> replica_pool \<Rightarrow> (sqlx_error, unit) result \<times> replica_pool" where
  "sqlite_write_replica seq_id ts recv_ts replay buf =
     run_statement (insert_row replica_id \<lparr>replica_id = seq_id, replica_ts = ts,
       replica_recv_ts = recv_ts, replica_replay = replay, replica_raw = buf\<rparr>)"

definition sqlite_subscriber :: "(replica_pool, sqlx_error) subscriber_persistence" where
  "sqlite_subscriber = \<lparr>read_last_sequence = sqlite_read_last_sequence, write_replica = sqlite_write_replica,
     replica_status = sql_error_status\<rparr>"

end
