(* ===== verification/Publisher.thy ===== *)
theory Publisher
  imports State_Sync Codec Persistence
begin

text \<open>
  \<open>publisher/\<close>: the state wrapper that stamps sequences, \<open>publish\<close>, the application's context,
  the heartbeat loop, the start of a publisher, and the destructor channels of \<open>util.rs\<close>.

  What the tasks of a publisher share (behind a lock, or an \<open>Arc\<close>) is one record. A critical
  section under the state's write lock and each awaited operation on the persistence and on
  the socket is one atomic step; the functions below compose the steps the way one task
  performs them, and the relation at the end interleaves the two tasks.
\<close>

section \<open>Destructor channels\<close>

text \<open>A \<open>std::sync::mpsc\<close> channel of units: what is queued and whether its ends are alive.\<close>

record destructor =
  queued :: nat
  sender_alive :: bool
  receiver_alive :: bool

datatype try_recv_result = Received | Empty | Disconnected

definition channel :: destructor where
  "channel = \<lparr>queued = 0, sender_alive = True, receiver_alive = True\<rparr>"

definition channel_send :: "destructor \<Rightarrow> bool \<times> destructor" where
  "channel_send ch = (if receiver_alive ch then (True, ch\<lparr>queued := Suc (queued ch)\<rparr>) else (False, ch))"

definition try_recv :: "destructor \<Rightarrow> try_recv_result \<times> destructor" where
  "try_recv ch =
     (if 0 < queued ch then (Received, ch\<lparr>queued := queued ch - 1\<rparr>)
      else (if sender_alive ch then Empty else Disconnected, ch))"

definition should_destruct :: "destructor \<Rightarrow> bool \<times> destructor" where
  "should_destruct rx =
     (case try_recv rx of
        (Empty, rx') \<Rightarrow> (False, rx')
      | (Received, rx') \<Rightarrow> (True, rx')
      | (Disconnected, rx') \<Rightarrow> (True, rx'))"

text \<open>
  \<open>destruct_future\<close>: a blocking receive whose \<open>expect\<close> panics, inside the spawned task, when
  the sender is gone; the panic is the \<open>JoinError\<close>. Pending while nothing is queued.
\<close>

definition destruct_future :: "destructor \<Rightarrow> ((unit, unit) result \<times> destructor) run" where
  "destruct_future rx =
     (if 0 < queued rx then Ret (Inr (), rx\<lparr>queued := queued rx - 1\<rparr>)
      else if sender_alive rx then Pending
      else Ret (Inl (), rx\<lparr>receiver_alive := False\<rparr>))"

section \<open>The shared state\<close>

record 'st state_wrapper =
  inner_state :: 'st
  wrapper_sequence :: int

definition stamp :: "'st state_wrapper \<Rightarrow> int \<times> 'st state_wrapper" where
  "stamp w = (wrapper_sequence w, w\<lparr>wrapper_sequence := wrap_i64 (wrapper_sequence w + 1)\<rparr>)"

definition with_sequence :: "('st, 'd, 'ae) state_sync \<Rightarrow> int \<Rightarrow> 'st state_wrapper" where
  "with_sequence S n = \<lparr>inner_state = default_state S, wrapper_sequence = n\<rparr>"

text \<open>The connected multicast socket: what was sent, and which sends the system refuses.\<close>

record udp_socket =
  sent :: "byte list list"
  send_error :: "nat \<Rightarrow> string option"
  attempts :: nat

definition socket_send :: "byte list \<Rightarrow> udp_socket \<Rightarrow> (string, nat) result \<times> udp_socket" where
  "socket_send buf sock =
     (case send_error sock (attempts sock) of
        Some e \<Rightarrow> (Inl e, sock\<lparr>attempts := Suc (attempts sock)\<rparr>)
      | None \<Rightarrow> (Inr (length buf), sock\<lparr>attempts := Suc (attempts sock), sent := sent sock @ [buf]\<rparr>))"

record ('st, 's) shared =
  wrapper :: "'st state_wrapper"
  store :: 's
  socket :: udp_socket

text \<open>The application's state, the bytes of its deltas (\<open>encode_to_vec\<close>), and the codec.\<close>

record ('st, 'd, 'ae) publisher_deps =
  sync :: "('st, 'd, 'ae) state_sync"
  delta_bytes :: "'d \<Rightarrow> byte list"
  codec :: "raw_message codec_deps"

text \<open>\<open>Box<dyn Error>\<close>\<close>

datatype ('ae, 'e) publish_error =
  Apply_Error 'ae | Encode_Error status | Write_Error 'e | Send_Error string

section \<open>Publish\<close>

text \<open>Encoding, on an empty buffer, and the write of the body to the persistence.\<close>

definition publish_store ::
  "('s, 'e) publisher_persistence \<Rightarrow> raw_message codec_deps \<Rightarrow> raw_message \<Rightarrow> ('st, 's) shared \<Rightarrow>
   (('ae, 'e) publish_error, byte list) result \<times> ('st, 's) shared" where
  "publish_store P C msg g =
     (case encode C msg [] of
        (Inl e, _) \<Rightarrow> (Inl (Encode_Error e), g)
      | (Inr _, buffer) \<Rightarrow>
          (case write_message P (msg_seq msg) (msg_ts msg) (drop HEADER_SIZE buffer) (store g) of
             (Inl e, s) \<Rightarrow> (Inl (Write_Error e), g\<lparr>store := s\<rparr>)
           | (Inr _, s) \<Rightarrow> (Inr buffer, g\<lparr>store := s\<rparr>)))"

definition publish_send ::
  "byte list \<Rightarrow> ('st, 's) shared \<Rightarrow> (('ae, 'e) publish_error, nat) result \<times> ('st, 's) shared" where
  "publish_send buffer g =
     (case socket_send buffer (socket g) of
        (Inl e, sock) \<Rightarrow> (Inl (Send_Error e), g\<lparr>socket := sock\<rparr>)
      | (Inr bytes, sock) \<Rightarrow> (Inr bytes, g\<lparr>socket := sock\<rparr>))"

definition publish ::
  "('s, 'e) publisher_persistence \<Rightarrow> raw_message codec_deps \<Rightarrow> raw_message \<Rightarrow> ('st, 's) shared \<Rightarrow>
   (('ae, 'e) publish_error, nat) result \<times> ('st, 's) shared" where
  "publish P C msg g =
     (case publish_store P C msg g of
        (Inl e, g') \<Rightarrow> (Inl e, g')
      | (Inr buffer, g') \<Rightarrow> publish_send buffer g')"

section \<open>The context\<close>

text \<open>The critical section of \<open>apply_delta\<close>; \<open>now\<close> is \<open>Utc::now().timestamp_nanos()\<close>.\<close>

definition stamp_delta ::
  "('st, 'd, 'ae) publisher_deps \<Rightarrow> 'd \<Rightarrow> int \<Rightarrow> ('st, 's) shared \<Rightarrow>
   ((('ae, 'e) publish_error, raw_message) result \<times> ('st, 's) shared) run" where
  "stamp_delta D d now g =
     (let (i, w) = stamp (wrapper g); bytes = delta_bytes D d
      in run_bind (apply_delta (sync D) d (inner_state w)) (\<lambda>(r, st).
           let g' = g\<lparr>wrapper := w\<lparr>inner_state := st\<rparr>\<rparr>
           in case r of
                Inl e \<Rightarrow> Ret (Inl (Apply_Error e), g')
              | Inr _ \<Rightarrow> Ret (Inr \<lparr>metadata = \<lparr>timestamp = now, sequence = i\<rparr>,
                  payload = Some (Delta \<lparr>body = bytes\<rparr>)\<rparr>, g')))"

definition context_apply_delta ::
  "('s, 'e) publisher_persistence \<Rightarrow> ('st, 'd, 'ae) publisher_deps \<Rightarrow> 'd \<Rightarrow> int \<Rightarrow> ('st, 's) shared \<Rightarrow>
   ((('ae, 'e) publish_error, int) result \<times> ('st, 's) shared) run" where
  "context_apply_delta P D d now g =
     run_bind (stamp_delta D d now g) (\<lambda>(r, g1).
       case r of
         Inl e \<Rightarrow> Ret (Inl e, g1)
       | Inr msg \<Rightarrow>
           (case publish P (codec D) msg g1 of
              (Inl e, g2) \<Rightarrow> Ret (Inl e, g2)
            | (Inr _, g2) \<Rightarrow> Ret (Inr (msg_seq msg), g2)))"

text \<open>\<open>Drop\<close>: a signal to each task, then the senders go with the context; errors are logged.\<close>

definition context_drop :: "destructor \<times> destructor \<Rightarrow> destructor \<times> destructor" where
  "context_drop chans =
     (case chans of (heartbeat, recovery) \<Rightarrow>
        ((snd (channel_send heartbeat))\<lparr>sender_alive := False\<rparr>,
         (snd (channel_send recovery))\<lparr>sender_alive := False\<rparr>))"

section \<open>Heartbeats\<close>

definition stamp_heartbeat :: "int \<Rightarrow> ('st, 's) shared \<Rightarrow> raw_message \<times> ('st, 's) shared" where
  "stamp_heartbeat now g =
     (let (i, w) = stamp (wrapper g)
      in (\<lparr>metadata = \<lparr>timestamp = now, sequence = i\<rparr>, payload = Some Heartbeat\<rparr>, g\<lparr>wrapper := w\<rparr>))"

text \<open>The error of a failed heartbeat is only logged.\<close>

definition heartbeat ::
  "('s, 'e) publisher_persistence \<Rightarrow> raw_message codec_deps \<Rightarrow> int \<Rightarrow> ('st, 's) shared \<Rightarrow> ('st, 's) shared" where
  "heartbeat P C now g =
     (let (msg, g1) = stamp_heartbeat now g
      in snd (publish P C msg g1 :: ((unit, _) publish_error, nat) result \<times> _))"

text \<open>
  The loop, as far as a script goes: each turn brings what the channel holds when it is
  polled and the time. The result tells whether the loop has ended.
\<close>

fun heartbeat_run ::
  "('s, 'e) publisher_persistence \<Rightarrow> raw_message codec_deps \<Rightarrow> (destructor \<times> int) list \<Rightarrow> ('st, 's) shared \<Rightarrow>
   bool \<times> ('st, 's) shared" where
  "heartbeat_run P C [] g = (False, g)"
| "heartbeat_run P C ((rx, now) # turns) g =
     (if fst (should_destruct rx) then (True, g)
      else heartbeat_run P C turns (heartbeat P C now g))"

section \<open>Starting a publisher\<close>

datatype ('ae, 'e) run_error = Next_Error 'e | Started_Error "('ae, 'e) publish_error"

definition stamp_started :: "int \<Rightarrow> ('st, 's) shared \<Rightarrow> raw_message \<times> ('st, 's) shared" where
  "stamp_started now g =
     (let (i, w) = stamp (wrapper g)
      in (\<lparr>metadata = \<lparr>timestamp = now, sequence = i\<rparr>, payload = Some Started\<rparr>, g\<lparr>wrapper := w\<rparr>))"

text \<open>
  \<open>run\<close>: on success the shared state and the channels of the context, in the order
  heartbeat, recovery. The spawned tasks are the recovery server and the heartbeat loop.
  On an error the shared state is what is left behind, and dropping the senders ends the
  recovery server.
\<close>

definition publisher_run ::
  "('s, 'e) publisher_persistence \<Rightarrow> ('st, 'd, 'ae) publisher_deps \<Rightarrow> int \<Rightarrow> 's \<Rightarrow> udp_socket \<Rightarrow>
   (('ae, 'e) run_error, ('st, 's) shared \<times> destructor \<times> destructor) result \<times> 's \<times> udp_socket" where
  "publisher_run P D now s sock =
     (case next_sequence P s of
        (Inl e, s1) \<Rightarrow> (Inl (Next_Error e), s1, sock)
      | (Inr n, s1) \<Rightarrow>
          let (msg, g) = stamp_started now \<lparr>wrapper = with_sequence (sync D) n, store = s1, socket = sock\<rparr>
          in (case publish P (codec D) msg g of
                (Inl e, g1) \<Rightarrow> (Inl (Started_Error e), store g1, socket g1)
              | (Inr _, g1) \<Rightarrow> (Inr (g1, channel, channel), store g1, socket g1)))"

section \<open>Two tasks\<close>

text \<open>Where a task is: between messages, holding a stamped one, or holding one it has stored.\<close>

datatype task = Waiting | Holding raw_message | Stored "byte list"

datatype role = Application | Heartbeats

record ('st, 's) system =
  shared :: "('st, 's) shared"
  task_of :: "role \<Rightarrow> task"

abbreviation goto :: "role \<Rightarrow> task \<Rightarrow> ('st, 's) shared \<Rightarrow> ('st, 's) system \<Rightarrow> ('st, 's) system" where
  "goto r t g y \<equiv> y\<lparr>shared := g, task_of := (task_of y)(r := t)\<rparr>"

text \<open>The times are values of \<open>timestamp_nanos()\<close>, an \<open>i64\<close>.\<close>

inductive system_step ::
  "('s, 'e) publisher_persistence \<Rightarrow> ('st, 'd, 'ae) publisher_deps \<Rightarrow> ('st, 's) system \<Rightarrow> ('st, 's) system \<Rightarrow> bool"
  for P :: "('s, 'e) publisher_persistence" and D :: "('st, 'd, 'ae) publisher_deps"
  where
    delta_stamped: "task_of y Application = Waiting \<Longrightarrow> in_i64 now \<Longrightarrow>
      stamp_delta D d now (shared y) = Ret (Inr m :: (('ae, 'e) publish_error, raw_message) result, g) \<Longrightarrow>
      system_step P D y (goto Application (Holding m) g y)"
  | delta_refused: "task_of y Application = Waiting \<Longrightarrow>
      stamp_delta D d now (shared y) = Ret (Inl err :: (('ae, 'e) publish_error, raw_message) result, g) \<Longrightarrow>
      system_step P D y (goto Application Waiting g y)"
  | heartbeat_stamped: "task_of y Heartbeats = Waiting \<Longrightarrow> in_i64 now \<Longrightarrow>
      stamp_heartbeat now (shared y) = (m, g) \<Longrightarrow>
      system_step P D y (goto Heartbeats (Holding m) g y)"
  | message_stored: "task_of y r = Holding m \<Longrightarrow>
      publish_store P (codec D) m (shared y) = (Inr f :: (('ae, 'e) publish_error, byte list) result, g) \<Longrightarrow>
      system_step P D y (goto r (Stored f) g y)"
  | store_failed: "task_of y r = Holding m \<Longrightarrow>
      publish_store P (codec D) m (shared y) = (Inl err :: (('ae, 'e) publish_error, byte list) result, g) \<Longrightarrow>
      system_step P D y (goto r Waiting g y)"
  | message_sent: "task_of y r = Stored f \<Longrightarrow>
      publish_send f (shared y) = (res :: (('ae, 'e) publish_error, nat) result, g) \<Longrightarrow>
      system_step P D y (goto r Waiting g y)"

text \<open>Runs, with their number of steps.\<close>

inductive system_runs ::
  "('s, 'e) publisher_persistence \<Rightarrow> ('st, 'd, 'ae) publisher_deps \<Rightarrow> nat \<Rightarrow> ('st, 's) system \<Rightarrow> ('st, 's) system \<Rightarrow> bool"
  for P :: "('s, 'e) publisher_persistence" and D :: "('st, 'd, 'ae) publisher_deps"
  where
    runs_none: "system_runs P D 0 y y"
  | runs_more: "system_runs P D n x y \<Longrightarrow> system_step P D y z \<Longrightarrow> system_runs P D (Suc n) x z"

inductive_simps system_runs_0 [simp]: "system_runs P D 0 x y"
inductive_cases system_stepE: "system_step P D y z"

end
