(* ===== verification/Master_Log.thy ===== *)
theory Master_Log
  imports Persistence
begin

text \<open>
  The contract of a publisher's persistence, as a locale: a write-once log of byte strings
  by sequence. Both implementations are interpreted; only sqlite also gives a fresh first
  sequence after a restart (the second locale).
\<close>

section \<open>The contract\<close>

locale master_log =
  fixes P :: "('s, 'e) publisher_persistence"
    and stored :: "'s \<Rightarrow> int \<rightharpoonup> byte list"
    and invar :: "'s \<Rightarrow> bool"
  assumes write_ok: "invar s \<Longrightarrow> write_message P i ts buf s = (Inr u, s') \<Longrightarrow>
      stored s i = None \<and> stored s' = (stored s)(i \<mapsto> buf)"
    and write_fails: "invar s \<Longrightarrow> write_message P i ts buf s = (Inl e, s') \<Longrightarrow> stored s' = stored s"
    and write_invar: "invar s \<Longrightarrow> write_message P i ts buf s = (r, s') \<Longrightarrow> invar s'"
    and read_ok: "invar s \<Longrightarrow> read_sequence P i s = (Inr buf, s') \<Longrightarrow> stored s i = Some buf"
    and read_keeps: "invar s \<Longrightarrow> read_sequence P i s = (r2, s') \<Longrightarrow> stored s' = stored s \<and> invar s'"
    and stream_ok: "invar s \<Longrightarrow> stream_from_sequence P i s = (Inr items, s') \<Longrightarrow>
      \<exists>ks. sorted_wrt (<) ks \<and> set ks = {k \<in> dom (stored s). i \<le> k} \<and>
        items = map (\<lambda>k. Inr (the (stored s k))) ks"
    and stream_keeps: "invar s \<Longrightarrow> stream_from_sequence P i s = (r3, s') \<Longrightarrow> stored s' = stored s \<and> invar s'"
    and next_keeps: "invar s \<Longrightarrow> next_sequence P s = (r4, s') \<Longrightarrow> stored s' = stored s \<and> invar s'"
begin

text \<open>No write changes what is stored, and a second write of a sequence fails.\<close>

lemma write_monotone:
  assumes "invar s" "write_message P i ts buf s = (r, s')" shows "stored s \<subseteq>\<^sub>m stored s'"
  using assms write_ok write_fails by (cases r) (fastforce simp: map_le_def)+

lemma write_twice:
  assumes "invar s" "stored s i = Some b" shows "\<exists>e s'. write_message P i ts buf s = (Inl e, s')"
  using assms write_ok by (cases "write_message P i ts buf s"; cases "fst (write_message P i ts buf s)") fastforce+

lemma read_back:
  assumes "invar s" "write_message P i ts buf s = (Inr u, s')" "read_sequence P i s' = (Inr buf', s'')"
  shows "buf' = buf"
  using write_ok [OF assms(1,2)] read_ok [OF write_invar [OF assms(1,2)] assms(3)] by simp

text \<open>A stream that starts at a stored sequence begins with it.\<close>

lemma stream_starts:
  assumes "invar s" "stored s i = Some buf" "stream_from_sequence P i s = (Inr items, s')"
  shows "\<exists>rest. items = Inr buf # rest"
proof -
  obtain ks where ks: "sorted_wrt (<) ks" "set ks = {k \<in> dom (stored s). i \<le> k}"
      "items = map (\<lambda>k. Inr (the (stored s k))) ks"
    using stream_ok [OF assms(1,3)] by blast
  have "i \<in> set ks" using ks(2) assms(2) by auto
  then obtain k ks' where k: "ks = k # ks'" by (cases ks) auto
  have "i \<le> k" using ks(2) k by auto
  moreover have "k \<le> i" using \<open>i \<in> set ks\<close> ks(1) k by auto
  ultimately show ?thesis using ks(3) k assms(2) by simp
qed

end

text \<open>A log that a publisher can resume: the next sequence is above every stored one.\<close>

locale resumable_log = master_log +
  assumes next_fresh: "invar s \<Longrightarrow> next_sequence P s = (Inr n, s') \<Longrightarrow>
      (\<And>k. k \<in> dom (stored s) \<Longrightarrow> 0 \<le> k \<and> k < 2 ^ 63 - 1) \<Longrightarrow> 0 \<le> n \<and> (\<forall>k \<in> dom (stored s). k < n)"
    and next_tight: "invar s \<Longrightarrow> next_sequence P s = (Inr n, s') \<Longrightarrow>
      (\<And>k. k \<in> dom (stored s) \<Longrightarrow> 0 \<le> k \<and> k < 2 ^ 63 - 1) \<Longrightarrow> n = 0 \<or> n - 1 \<in> dom (stored s)"
begin

lemma next_unused:
  assumes "invar s" "next_sequence P s = (Inr n, s')" "\<And>k. k \<in> dom (stored s) \<Longrightarrow> 0 \<le> k \<and> k < 2 ^ 63 - 1"
  shows "stored s' n = None"
  using next_fresh [OF assms] next_keeps [OF assms(1,2)] by (auto simp: dom_def)

end

section \<open>In memory\<close>

lemma mock_ops [simp]:
  "next_sequence mock_publisher = mock_next_sequence" "write_message mock_publisher = mock_write_message"
  "read_sequence mock_publisher = mock_read_sequence"
  "stream_from_sequence mock_publisher = mock_stream_from_sequence"
  "into_status mock_publisher = mock_error_status"
  by (simp_all add: mock_publisher_def)

interpretation mock: master_log mock_publisher bt_get bt_ok
proof unfold_locales
  show "\<exists>ks. sorted_wrt (<) ks \<and> set ks = {k \<in> dom (bt_get s). i \<le> k} \<and>
      items = map (\<lambda>k. Inr (the (bt_get s k))) ks"
    if "bt_ok s" "stream_from_sequence mock_publisher i s = (Inr items, s')" for s i items s'
  proof -
    note inv = that(1) and call = that(2)
    obtain ks where ks: "sorted_wrt (<) ks" "set ks = {k \<in> dom (bt_get s). i \<le> k}"
        "map snd (bt_range_from i s) = map (\<lambda>j. the (bt_get s j)) ks"
      using bt_range_from_entries [OF inv, of i] by blast
    have "items = map Inr (map (\<lambda>j. the (bt_get s j)) ks)"
      using call by (auto simp: mock_stream_from_sequence_def ks(3))
    then have "items = map (\<lambda>k. Inr (the (bt_get s k))) ks" by (simp add: comp_def)
    with ks(1,2) show ?thesis by blast
  qed
qed (auto simp: mock_write_message_def mock_read_sequence_def mock_stream_from_sequence_def
    mock_next_sequence_def run_simps split: if_splits)

section \<open>Sqlite\<close>

lemma sqlite_ops [simp]:
  "next_sequence sqlite_publisher = sqlite_next_sequence" "write_message sqlite_publisher = sqlite_write_message"
  "read_sequence sqlite_publisher = sqlite_read_sequence"
  "stream_from_sequence sqlite_publisher = sqlite_stream_from_sequence"
  "into_status sqlite_publisher = sql_error_status"
  by (simp_all add: sqlite_publisher_def)

text \<open>The rows as a map, and the primary key.\<close>

definition table_map :: "master_pool \<Rightarrow> int \<rightharpoonup> byte list" where
  "table_map p = map_of (map (\<lambda>r. (master_id r, master_raw r)) (rows p))"

definition key_ok :: "('row \<Rightarrow> int) \<Rightarrow> 'row sqlite_pool \<Rightarrow> bool" where
  "key_ok key p \<longleftrightarrow> distinct (map key (rows p))"

lemma use_pool_rows: "use_pool p = (r, p') \<Longrightarrow> rows p' = rows p"
  by (auto simp: use_pool_def)

text \<open>Either a fault, which leaves the rows alone, or the statement on the same rows.\<close>

lemma run_statement_cases:
  assumes "run_statement st p = (r, p')"
  obtains e where "r = Inl (Fault e)" "rows p' = rows p"
    | p2 where "rows p2 = rows p" "st p2 = (r, p')"
proof (cases "use_pool p")
  case (Pair r1 p1)
  show ?thesis
  proof (cases r1)
    case (Inl e)
    then show ?thesis using assms Pair that(1) by (auto simp: run_statement_def use_pool_def split: option.splits)
  next
    case (Inr u)
    obtain r2 p2 where p2: "use_pool p1 = (r2, p2)" by fastforce
    show ?thesis
    proof (cases r2)
      case (Inl e)
      then show ?thesis using assms Pair Inr p2 that(1)
        by (auto simp: run_statement_def use_pool_def split: option.splits)
    next
      case r2: (Inr u2)
      then show ?thesis using assms Pair Inr p2 that(2) use_pool_rows [OF Pair] use_pool_rows [OF p2]
        by (auto simp: run_statement_def)
    qed
  qed
qed

lemma dom_table_map: "dom (table_map p) = master_id ` set (rows p)"
  by (simp add: table_map_def dom_map_of_conv_image_fst image_image)

lemma table_map_row: "key_ok master_id p \<Longrightarrow> r \<in> set (rows p) \<Longrightarrow> table_map p (master_id r) = Some (master_raw r)"
  by (auto simp: table_map_def key_ok_def comp_def intro!: map_of_is_SomeI)

lemma sqlite_write_cases:
  assumes "sqlite_write_message i ts buf p = (r, p')"
  shows "(\<exists>e. r = Inl e \<and> rows p' = rows p) \<or>
    (r = Inr () \<and> i \<notin> master_id ` set (rows p) \<and>
     rows p' = rows p @ [\<lparr>master_id = i, master_ts = ts, master_raw = buf\<rparr>])"
  using assms unfolding sqlite_write_message_def
  by (rule run_statement_cases) (auto simp: insert_row_def split: if_splits)

lemma sort_rows:
  assumes "key_ok master_id p"
  shows "\<exists>ks. sorted_wrt (<) ks \<and> set ks = {k \<in> dom (table_map p). i \<le> k} \<and>
    map (\<lambda>r. Inr (master_raw r)) (sort_key master_id (filter (\<lambda>r. i \<le> master_id r) (rows p))) =
    map (\<lambda>k. Inr (the (table_map p k))) ks"
proof (intro exI conjI)
  let ?rs = "sort_key master_id (filter (\<lambda>r. i \<le> master_id r) (rows p))"
  have "distinct (map master_id ?rs)"
    using assms by (simp add: key_ok_def distinct_map_filter distinct_map inj_on_def)
  moreover have "sorted (map master_id ?rs)" by simp
  ultimately show "sorted_wrt (<) (map master_id ?rs)" by (rule strict_sorted_iff [THEN iffD2, OF conjI, rotated])
  show "set (map master_id ?rs) = {k \<in> dom (table_map p). i \<le> k}" by (auto simp: dom_table_map)
  show "map (\<lambda>r. Inr (master_raw r)) ?rs = map (\<lambda>k. Inr (the (table_map p k))) (map master_id ?rs)"
    using table_map_row [OF assms] by simp
qed

lemma select_last_id_Some:
  assumes "rev (sort (map key (rows p))) = i # is"
  shows "i \<in> key ` set (rows p) \<and> (\<forall>j \<in> key ` set (rows p). j \<le> i)"
proof -
  have eq: "sort (map key (rows p)) = rev is @ [i]" using assms by (metis rev.simps(2) rev_rev_ident)
  have keys: "key ` set (rows p) = set (rev is @ [i])" unfolding eq [symmetric] by simp
  have "sorted (rev is @ [i])" unfolding eq [symmetric] by simp
  then have "\<forall>j \<in> set (rev is). j \<le> i" unfolding sorted_append by simp
  then show ?thesis unfolding keys by simp
qed

lemma sqlite_next_cases:
  assumes "sqlite_next_sequence p = (r, p')"
  shows "rows p' = rows p \<and> ((\<exists>e. r = Inl e) \<or>
    (rows p = [] \<and> r = Inr 0) \<or>
    (\<exists>i. i \<in> master_id ` set (rows p) \<and> (\<forall>j \<in> master_id ` set (rows p). j \<le> i) \<and> r = Inr (wrap_i64 (i + 1))))"
proof -
  obtain q p1 where q: "run_statement (select_last_id master_id) p = (q, p1)" by fastforce
  from q show ?thesis
  proof (rule run_statement_cases)
    fix e assume "q = Inl (Fault e)" "rows p1 = rows p"
    then show ?thesis using assms q by (auto simp: sqlite_next_sequence_def)
  next
    fix p2 assume p2: "rows p2 = rows p" "select_last_id master_id p2 = (q, p1)"
    show ?thesis
    proof (cases "rev (sort (map master_id (rows p2)))")
      case Nil
      then have "rows p2 = []" by (metis length_0_conv length_map length_rev length_sort)
      then show ?thesis using Nil assms q p2 by (auto simp: sqlite_next_sequence_def select_last_id_def)
    next
      case (Cons i "is")
      then show ?thesis using assms q p2 select_last_id_Some [OF Cons]
        by (auto simp: sqlite_next_sequence_def select_last_id_def)
    qed
  qed
qed

interpretation sqlite: resumable_log sqlite_publisher table_map "key_ok master_id"
proof unfold_locales
  show "table_map s i = None \<and> table_map s' = (table_map s)(i \<mapsto> buf)"
    if "key_ok master_id s" "write_message sqlite_publisher i ts buf s = (Inr u, s')" for s i ts buf u s'
  proof -
    have "i \<notin> master_id ` set (rows s)" and
      "rows s' = rows s @ [\<lparr>master_id = i, master_ts = ts, master_raw = buf\<rparr>]"
      using sqlite_write_cases [of i ts buf s] that(2) by auto
    then show ?thesis
      using dom_table_map [of s] by (auto simp: table_map_def fun_eq_iff map_add_def domIff split: option.split)
  qed
  show "table_map s' = table_map s"
    if "write_message sqlite_publisher i ts buf s = (Inl e, s')" for s i ts buf e s'
    using sqlite_write_cases [of i ts buf s] that by (auto simp: table_map_def)
  show "key_ok master_id s'"
    if "key_ok master_id s" "write_message sqlite_publisher i ts buf s = (r, s')" for s i ts buf r s'
    using sqlite_write_cases [of i ts buf s r s'] that by (auto simp: key_ok_def)
  show "table_map s i = Some buf"
    if "key_ok master_id s" "read_sequence sqlite_publisher i s = (Inr buf, s')" for s i buf s'
  proof -
    have "run_statement (\<lambda>p. (case filter (\<lambda>r. master_id r = i) (rows p) of
        [] \<Rightarrow> Inl Row_Not_Found | r # _ \<Rightarrow> Inr (master_raw r), p)) s = (Inr buf, s')"
      using that(2) by (simp add: sqlite_read_sequence_def)
    then obtain r rs where "filter (\<lambda>r. master_id r = i) (rows s) = r # rs" "buf = master_raw r"
      by (rule run_statement_cases) (auto split: list.splits)
    then have "r \<in> set (filter (\<lambda>r. master_id r = i) (rows s))" by simp
    then have "r \<in> set (rows s)" "master_id r = i" by simp_all
    then show ?thesis using table_map_row [OF that(1)] \<open>buf = master_raw r\<close> by auto
  qed
  show "table_map s' = table_map s \<and> key_ok master_id s'"
    if "key_ok master_id s" "read_sequence sqlite_publisher i s = (r, s')" for s i r s'
    using that(2) unfolding sqlite_ops sqlite_read_sequence_def
    by (rule run_statement_cases) (use that(1) in \<open>auto simp: table_map_def key_ok_def\<close>)
  show "table_map s' = table_map s \<and> key_ok master_id s'"
    if "key_ok master_id s" "stream_from_sequence sqlite_publisher i s = (r, s')" for s i r s'
    using that(2) unfolding sqlite_ops sqlite_stream_from_sequence_def
    by (rule run_statement_cases) (use that(1) in \<open>auto simp: table_map_def key_ok_def\<close>)
  show "\<exists>ks. sorted_wrt (<) ks \<and> set ks = {k \<in> dom (table_map s). i \<le> k} \<and>
      items = map (\<lambda>k. Inr (the (table_map s k))) ks"
    if "key_ok master_id s" "stream_from_sequence sqlite_publisher i s = (Inr items, s')" for s i items s'
  proof -
    have "items = map (\<lambda>r. Inr (master_raw r)) (sort_key master_id (filter (\<lambda>r. i \<le> master_id r) (rows s)))"
      using that(2) unfolding sqlite_ops sqlite_stream_from_sequence_def
      by (rule run_statement_cases) auto
    then show ?thesis using sort_rows [OF that(1), of i] by metis
  qed
  show "table_map s' = table_map s \<and> key_ok master_id s'"
    if "key_ok master_id s" "next_sequence sqlite_publisher s = (r, s')" for s r s'
    using sqlite_next_cases [of s r s'] that by (auto simp: table_map_def key_ok_def)
  have next_exact: "0 \<le> n \<and> (\<forall>k \<in> dom (table_map s). k < n) \<and> (n = 0 \<or> n - 1 \<in> dom (table_map s))"
    if "sqlite_next_sequence s = (Inr n, s')" "\<And>k. k \<in> dom (table_map s) \<Longrightarrow> 0 \<le> k \<and> k < 2 ^ 63 - 1" for s n s'
  proof -
    have "wrap_i64 (i + 1) = i + 1" if "i \<in> dom (table_map s)" for i
      using that \<open>\<And>k. k \<in> dom (table_map s) \<Longrightarrow> 0 \<le> k \<and> k < 2 ^ 63 - 1\<close> [of i]
      by (intro wrap_i64_succ) (auto simp: in_i64_def)
    then show ?thesis using sqlite_next_cases [of s "Inr n" s'] that
      unfolding dom_table_map by fastforce
  qed
  show "0 \<le> n \<and> (\<forall>k \<in> dom (table_map s). k < n)"
    if "next_sequence sqlite_publisher s = (Inr n, s')"
      "\<And>k. k \<in> dom (table_map s) \<Longrightarrow> 0 \<le> k \<and> k < 2 ^ 63 - 1" for s n s'
    using next_exact [of s n s'] that by simp
  show "n = 0 \<or> n - 1 \<in> dom (table_map s)"
    if "next_sequence sqlite_publisher s = (Inr n, s')"
      "\<And>k. k \<in> dom (table_map s) \<Longrightarrow> 0 \<le> k \<and> k < 2 ^ 63 - 1" for s n s'
    using next_exact [of s n s'] that by simp
qed

text \<open>Without faults the reads are exact.\<close>

lemma run_statement_healthy:
  "faults p = (\<lambda>_. None) \<Longrightarrow> run_statement st p = st (p\<lparr>uses := uses p + 2\<rparr>)"
  by (simp add: run_statement_def use_pool_def)

lemma sqlite_read_healthy:
  assumes "key_ok master_id s" "faults s = (\<lambda>_. None)"
  shows "fst (sqlite_read_sequence i s) =
    (case table_map s i of Some buf \<Rightarrow> Inr buf | None \<Rightarrow> Inl Row_Not_Found)"
proof (cases "filter (\<lambda>r. master_id r = i) (rows s)")
  case Nil
  then have "i \<notin> dom (table_map s)" unfolding dom_table_map by (auto simp: filter_empty_conv)
  then show ?thesis using Nil assms(2) by (simp add: sqlite_read_sequence_def run_statement_healthy domIff)
next
  case (Cons r rs)
  then have "r \<in> set (filter (\<lambda>r. master_id r = i) (rows s))" by simp
  then have "table_map s i = Some (master_raw r)" using table_map_row [OF assms(1)] by auto
  then show ?thesis using Cons assms(2) by (simp add: sqlite_read_sequence_def run_statement_healthy)
qed

lemma sqlite_stream_healthy:
  "faults s = (\<lambda>_. None) \<Longrightarrow> \<exists>items. fst (sqlite_stream_from_sequence i s) = Inr items"
  by (simp add: sqlite_stream_from_sequence_def run_statement_healthy)

section \<open>Properties\<close>

definition demo_pool :: master_pool where
  "demo_pool = \<lparr>rows = [\<lparr>master_id = 4, master_ts = 0, master_raw = [4]\<rparr>,
     \<lparr>master_id = 2, master_ts = 0, master_raw = [2]\<rparr>, \<lparr>master_id = 7, master_ts = 0, master_raw = [7]\<rparr>],
     faults = (\<lambda>_. None), uses = 0\<rparr>"

lemma demo_pool_simps [simp]:
  "faults demo_pool = (\<lambda>_. None)" "key_ok master_id demo_pool"
  "dom (table_map demo_pool) = {4, 2, 7}"
  by (simp_all add: demo_pool_def key_ok_def dom_table_map)

text \<open>The master log on sqlite is write-once. After a successful write of a sequence, whatever
  is read back under it are the bytes written, every other entry is as it was, and a second
  write of the same sequence fails.\<close>

theorem sqlite_write_once:
  assumes "key_ok master_id s" "sqlite_write_message i ts buf s = (Inr u, s')"
  shows "table_map s' = (table_map s)(i \<mapsto> buf) \<and>
    (\<forall>b s''. sqlite_read_sequence i s' = (Inr b, s'') \<longrightarrow> b = buf) \<and>
    (\<exists>e s''. sqlite_write_message i ts2 buf2 s' = (Inl e, s''))"
proof -
  have w: "table_map s' = (table_map s)(i \<mapsto> buf)"
    using sqlite.write_ok [OF assms(1), of i ts buf u s'] assms(2) by simp
  have inv: "key_ok master_id s'" using sqlite.write_invar [OF assms(1)] assms(2) by simp
  show ?thesis
    using w sqlite.read_ok [OF inv, of i] sqlite.write_twice [OF inv, of i buf ts2 buf2] by auto
qed

theorem sqlite_write_once_witness:
  "\<exists>s' e s''. sqlite_write_message 9 0 [9] demo_pool = (Inr (), s') \<and>
    sqlite_write_message 9 1 [8] s' = (Inl e, s'')"
proof -
  obtain s' where s': "sqlite_write_message 9 0 [9] demo_pool = (Inr (), s')"
    by (simp add: sqlite_write_message_def run_statement_def use_pool_def insert_row_def demo_pool_def)
  then show ?thesis using sqlite_write_once [of demo_pool 9 0 "[9]" "()" s' 1 "[8]"] by auto
qed

text \<open>Streaming from a sequence yields exactly the entries from it on, in the order of their
  sequences, however the rows were inserted.\<close>

theorem sqlite_stream_in_order:
  assumes "key_ok master_id s" "sqlite_stream_from_sequence i s = (Inr items, s')"
  shows "\<exists>ks. sorted_wrt (<) ks \<and> set ks = {k \<in> dom (table_map s). i \<le> k} \<and>
    items = map (\<lambda>k. Inr (the (table_map s k))) ks \<and> table_map s' = table_map s"
  using sqlite.stream_ok [OF assms(1), of i items s'] sqlite.stream_keeps [OF assms(1), of i "Inr items" s'] assms(2)
  by auto

theorem sqlite_stream_in_order_witness:
  "\<exists>s'. sqlite_stream_from_sequence 3 demo_pool = (Inr [Inr [4], Inr [7]], s') \<and>
    (\<exists>ks. sorted_wrt (<) ks \<and> set ks = {k \<in> dom (table_map demo_pool). 3 \<le> k} \<and>
      [Inr [4], Inr [7] :: (status, byte list) result] = map (\<lambda>k. Inr (the (table_map demo_pool k))) ks \<and> table_map s' = table_map demo_pool)"
proof -
  obtain s' where s': "sqlite_stream_from_sequence 3 demo_pool = (Inr [Inr [4], Inr [7]], s')"
    by (simp add: sqlite_stream_from_sequence_def run_statement_def use_pool_def demo_pool_def)
  show ?thesis
    by (rule exI [of _ s'], rule conjI, rule s', rule sqlite_stream_in_order [OF demo_pool_simps(2) s'])
qed

text \<open>C22: a publisher that restarts on sqlite resumes above everything in its log: the next sequence
  is larger than every stored one and unused (0 for an empty log).\<close>

theorem sqlite_resumes_above_log:
  assumes "key_ok master_id s" "sqlite_next_sequence s = (Inr n, s')"
    and "\<And>k. k \<in> dom (table_map s) \<Longrightarrow> 0 \<le> k \<and> k < 2 ^ 63 - 1"
  shows "0 \<le> n \<and> (\<forall>k \<in> dom (table_map s). k < n) \<and> table_map s' n = None"
  using sqlite.next_fresh [OF assms(1), of n s'] sqlite.next_unused [OF assms(1), of n s'] assms(2,3) by simp

theorem sqlite_resumes_above_log_witness:
  "\<exists>s'. sqlite_next_sequence demo_pool = (Inr 8, s') \<and> table_map s' 8 = None"
proof -
  obtain s' where s': "sqlite_next_sequence demo_pool = (Inr 8, s')"
    by (simp add: sqlite_next_sequence_def run_statement_def use_pool_def select_last_id_def demo_pool_def in_i64_def)
  have "0 \<le> k \<and> k < 2 ^ 63 - 1" if "k \<in> dom (table_map demo_pool)" for k
    using that by auto
  from sqlite_resumes_above_log [OF demo_pool_simps(2) s' this] s' show ?thesis by blast
qed

text \<open>The in-memory log cannot be resumed. On a non-empty store its \<open>next_sequence\<close> is the
  largest stored sequence itself, not the one after it, so the first message of a restarted
  publisher is refused as a duplicate.\<close>

theorem mock_resume_collides:
  assumes "bt_ok s" "s \<noteq> []" "mock_next_sequence s = (Inr n, s')"
  shows "n \<in> dom (bt_get s') \<and> mock_write_message n ts buf s' = (Inl (Sequence_Exists n), s')"
proof -
  obtain k where k: "bt_max_key s = Some k" using assms(2) by (cases "bt_max_key s") auto
  then have "n = k" "s' = s" using assms(3) by (auto simp: mock_next_sequence_def)
  then show ?thesis using bt_max_key_Some [OF k] by (auto simp: mock_write_message_def)
qed

theorem mock_resume_collides_witness:
  "mock_next_sequence [(0, [1]), (5, [2])] = (Inr 5, [(0, [1]), (5, [2])]) \<and>
   mock_write_message 5 0 [3] [(0, [1]), (5, [2])] = (Inl (Sequence_Exists 5), [(0, [1]), (5, [2])])"
  using mock_resume_collides [of "[(0, [1]), (5, [2])]" 5 _ 0 "[3]"]
  by (simp add: mock_next_sequence_def bt_max_key_def)

text \<open>The two replica logs disagree on a message that arrives twice: in memory the second copy
  replaces the first and the write succeeds, on sqlite the write fails (no matter what the
  faults are) and the stored row stays.\<close>

theorem replica_duplicates:
  assumes "bt_ok m" "i \<in> replica_id ` set (rows p)"
  shows "fst (mock_write_replica i ts recv replay buf m) = Inr () \<and>
    bt_get (snd (mock_write_replica i ts recv replay buf m)) i = Some buf \<and>
    (\<exists>e p'. sqlite_write_replica i ts recv replay buf p = (Inl e, p') \<and> rows p' = rows p)"
proof -
  obtain r p' where w: "sqlite_write_replica i ts recv replay buf p = (r, p')" by fastforce
  from w have "(\<exists>e. r = Inl e) \<and> rows p' = rows p"
    unfolding sqlite_write_replica_def
    by (rule run_statement_cases) (use assms(2) in \<open>auto simp: insert_row_def split: if_splits\<close>)
  then show ?thesis using assms(1) w by (auto simp: mock_write_replica_def)
qed

theorem replica_duplicates_witness:
  "\<exists>e p'. sqlite_write_replica 1 0 0 True [9] \<lparr>rows = [\<lparr>replica_id = 1, replica_ts = 0,
      replica_recv_ts = 0, replica_replay = False, replica_raw = [8]\<rparr>], faults = (\<lambda>_. None), uses = 0\<rparr> =
    (Inl e, p')"
  using replica_duplicates [of "[]" 1 "\<lparr>rows = [\<lparr>replica_id = 1, replica_ts = 0,
      replica_recv_ts = 0, replica_replay = False, replica_raw = [8]\<rparr>], faults = (\<lambda>_. None), uses = 0\<rparr>"
      0 0 True "[9]"]
  by auto

end
