(* ===== verification/Publishing.thy ===== *)
theory Publishing
  imports Publisher Master_Log
begin

text \<open>
  What the publisher guarantees, for every persistence that is a master log: sequences are
  handed out once, a datagram is sent only after its message is stored, and a sequence that
  was stamped but not stored is lost for good.
\<close>

section \<open>Evaluation of the steps\<close>

definition codec_sound :: "raw_message codec_deps \<Rightarrow> bool" where
  "codec_sound C \<longleftrightarrow> header_ok C \<and>
     (\<forall>m bytes. wf_raw m \<longrightarrow> prost_encode C m = Inr bytes \<longrightarrow> prost_decode C bytes = Inr m)"

lemma stamp_simps [simp]:
  "fst (stamp w) = wrapper_sequence w"
  "inner_state (snd (stamp w)) = inner_state w"
  "wrapper_sequence (snd (stamp w)) = wrap_i64 (wrapper_sequence w + 1)"
  by (simp_all add: stamp_def)

text \<open>The message a critical section produces, and what it leaves alone.\<close>

lemma stamp_delta_Ret:
  assumes "stamp_delta D d now g = Ret (r, g')"
  shows "store g' = store g" "socket g' = socket g"
    and "wrapper_sequence (wrapper g') = wrap_i64 (wrapper_sequence (wrapper g) + 1)"
    and "\<exists>res. apply_delta (sync D) d (inner_state (wrapper g)) = Ret (res, inner_state (wrapper g')) \<and>
      (case res of Inl e \<Rightarrow> r = Inl (Apply_Error e)
       | Inr _ \<Rightarrow> r = Inr \<lparr>metadata = \<lparr>timestamp = now, sequence = wrapper_sequence (wrapper g)\<rparr>,
           payload = Some (Delta \<lparr>body = delta_bytes D d\<rparr>)\<rparr>)"
proof -
  obtain res st where ap: "apply_delta (sync D) d (inner_state (wrapper g)) = Ret (res, st)"
    using assms by (cases "apply_delta (sync D) d (inner_state (wrapper g))")
      (auto simp: stamp_delta_def stamp_def)
  show "store g' = store g" "socket g' = socket g"
    "wrapper_sequence (wrapper g') = wrap_i64 (wrapper_sequence (wrapper g) + 1)"
    "\<exists>res. apply_delta (sync D) d (inner_state (wrapper g)) = Ret (res, inner_state (wrapper g')) \<and>
      (case res of Inl e \<Rightarrow> r = Inl (Apply_Error e)
       | Inr _ \<Rightarrow> r = Inr \<lparr>metadata = \<lparr>timestamp = now, sequence = wrapper_sequence (wrapper g)\<rparr>,
           payload = Some (Delta \<lparr>body = delta_bytes D d\<rparr>)\<rparr>)"
    using assms ap by (cases res; auto simp: stamp_delta_def stamp_def)+
qed

lemma stamp_delta_message:
  assumes "stamp_delta D d now g = Ret (Inr m, g')"
  shows "m = \<lparr>metadata = \<lparr>timestamp = now, sequence = wrapper_sequence (wrapper g)\<rparr>,
      payload = Some (Delta \<lparr>body = delta_bytes D d\<rparr>)\<rparr>"
    and "apply_delta (sync D) d (inner_state (wrapper g)) = Ret (Inr (), inner_state (wrapper g'))"
proof -
  note ex = stamp_delta_Ret(4) [OF assms]
  show "m = \<lparr>metadata = \<lparr>timestamp = now, sequence = wrapper_sequence (wrapper g)\<rparr>,
      payload = Some (Delta \<lparr>body = delta_bytes D d\<rparr>)\<rparr>"
    by (rule exE [OF ex]) (auto split: sum.splits)
  show "apply_delta (sync D) d (inner_state (wrapper g)) = Ret (Inr (), inner_state (wrapper g'))"
    by (rule exE [OF ex]) (auto split: sum.splits)
qed

lemma stamp_heartbeat_eq:
  "stamp_heartbeat now g = (\<lparr>metadata = \<lparr>timestamp = now, sequence = wrapper_sequence (wrapper g)\<rparr>,
     payload = Some Heartbeat\<rparr>,
     g\<lparr>wrapper := (wrapper g)\<lparr>wrapper_sequence := wrap_i64 (wrapper_sequence (wrapper g) + 1)\<rparr>\<rparr>)"
  by (simp add: stamp_heartbeat_def stamp_def)

lemma publish_store_keeps:
  assumes "publish_store P C m g = (r, g')"
  shows "wrapper g' = wrapper g" "socket g' = socket g"
  using assms by (auto simp: publish_store_def split: prod.splits sum.splits)

lemma publish_store_Inr:
  assumes C: "header_ok C" and res: "publish_store P C m g = (Inr f, g')"
  shows "\<exists>bytes u. prost_encode C m = Inr bytes \<and> length bytes \<le> MAX_PAYLOAD_SIZE \<and> f = frame bytes \<and>
    write_message P (msg_seq m) (msg_ts m) bytes (store g) = (Inr u, store g')"
proof -
  obtain u where "encode C m [] = (Inr u, f)"
    and w: "\<exists>u. write_message P (msg_seq m) (msg_ts m) (drop HEADER_SIZE f) (store g) = (Inr u, store g')"
    using res by (auto simp: publish_store_def split: prod.splits sum.splits)
  then obtain bytes where "prost_encode C m = Inr bytes" "length bytes \<le> MAX_PAYLOAD_SIZE" "f = frame bytes"
    unfolding encode_Inr_iff [OF C] by blast
  then show ?thesis using w by (auto simp: drop_frame)
qed

lemma publish_store_Inl:
  assumes "publish_store P C m g = (Inl err, g')"
  shows "g' = g \<or> (\<exists>bytes e. write_message P (msg_seq m) (msg_ts m) bytes (store g) = (Inl e, store g') \<and>
    err = Write_Error e)"
  using assms by (auto simp: publish_store_def split: prod.splits sum.splits)

lemma publish_send_keeps:
  assumes "publish_send f g = (r, g')"
  shows "wrapper g' = wrapper g" "store g' = store g"
    "sent (socket g') = sent (socket g) \<or> sent (socket g') = sent (socket g) @ [f]"
  using assms by (auto simp: publish_send_def socket_send_def split: option.splits)

lemma publish_keeps:
  assumes "publish P C m g = (r :: (('ae, 'e) publish_error, nat) result, g')"
  shows "wrapper g' = wrapper g"
proof -
  obtain q g1 where q: "publish_store P C m g = (q :: (('ae, 'e) publish_error, byte list) result, g1)" by fastforce
  note k = publish_store_keeps(1) [OF q]
  show ?thesis
  proof (cases q)
    case (Inl e)
    then show ?thesis using assms q k by (simp add: publish_def)
  next
    case (Inr f)
    then have "publish_send f g1 = (r, g')" using assms q by (simp add: publish_def)
    then show ?thesis using publish_send_keeps(1) k by metis
  qed
qed

section \<open>The invariant\<close>

definition next_of :: "('st, 's) system \<Rightarrow> int" where
  "next_of y = wrapper_sequence (wrapper (shared y))"

definition store_of :: "('st, 's) system \<Rightarrow> 's" where
  "store_of y = store (shared y)"

definition sent_of :: "('st, 's) system \<Rightarrow> byte list list" where
  "sent_of y = sent (socket (shared y))"

lemma goto_simps [simp]:
  "next_of (goto r t g y) = wrapper_sequence (wrapper g)"
  "store_of (goto r t g y) = store g" "sent_of (goto r t g y) = sent (socket g)"
  by (simp_all add: next_of_def store_of_def sent_of_def)

text \<open>A stored entry is a message of its own sequence; a frame carries a stored entry.\<close>

definition entry_ok :: "raw_message codec_deps \<Rightarrow> int \<Rightarrow> byte list \<Rightarrow> bool" where
  "entry_ok C i bytes \<longleftrightarrow> (\<exists>m. prost_decode C bytes = Inr m \<and> msg_seq m = i \<and> wf_raw m)"

definition frame_stored :: "(int \<rightharpoonup> byte list) \<Rightarrow> byte list \<Rightarrow> bool" where
  "frame_stored M f \<longleftrightarrow> (\<exists>i bytes. M i = Some bytes \<and> f = frame bytes \<and> length bytes \<le> MAX_PAYLOAD_SIZE)"

definition held_ok :: "(int \<rightharpoonup> byte list) \<Rightarrow> int \<Rightarrow> raw_message \<Rightarrow> bool" where
  "held_ok M w m \<longleftrightarrow> 0 \<le> msg_seq m \<and> msg_seq m < w \<and> M (msg_seq m) = None \<and> wf_raw m"

definition map_ok :: "raw_message codec_deps \<Rightarrow> (int \<rightharpoonup> byte list) \<Rightarrow> int \<Rightarrow> bool" where
  "map_ok C M w \<longleftrightarrow> (\<forall>i bytes. M i = Some bytes \<longrightarrow> 0 \<le> i \<and> i < w \<and> entry_ok C i bytes)"

definition tasks_ok :: "(int \<rightharpoonup> byte list) \<Rightarrow> int \<Rightarrow> (role \<Rightarrow> task) \<Rightarrow> bool" where
  "tasks_ok M w t \<longleftrightarrow>
     (\<forall>r m. t r = Holding m \<longrightarrow> held_ok M w m) \<and>
     (\<forall>r f. t r = Stored f \<longrightarrow> frame_stored M f) \<and>
     (\<forall>r r' m m'. t r = Holding m \<longrightarrow> t r' = Holding m' \<longrightarrow> r \<noteq> r' \<longrightarrow> msg_seq m \<noteq> msg_seq m')"

definition publisher_inv ::
  "('s \<Rightarrow> int \<rightharpoonup> byte list) \<Rightarrow> ('s \<Rightarrow> bool) \<Rightarrow> raw_message codec_deps \<Rightarrow> ('st, 's) system \<Rightarrow> bool" where
  "publisher_inv stored invar C y \<longleftrightarrow>
     invar (store_of y) \<and> 0 \<le> next_of y \<and> in_i64 (next_of y) \<and>
     map_ok C (stored (store_of y)) (next_of y) \<and>
     tasks_ok (stored (store_of y)) (next_of y) (task_of y) \<and>
     (\<forall>f \<in> set (sent_of y). frame_stored (stored (store_of y)) f)"

lemma tasks_ok_wait: "tasks_ok M w t \<Longrightarrow> tasks_ok M w (t(r := Waiting))"
  unfolding tasks_ok_def by (auto split: if_splits)

lemma tasks_okD:
  assumes "tasks_ok M w t"
  shows "t r = Holding m \<Longrightarrow> held_ok M w m" "t r = Stored f \<Longrightarrow> frame_stored M f"
    "t r = Holding m \<Longrightarrow> t r' = Holding m' \<Longrightarrow> r \<noteq> r' \<Longrightarrow> msg_seq m \<noteq> msg_seq m'"
  using assms unfolding tasks_ok_def by blast+

lemma tasks_okI:
  assumes "\<And>r m. t r = Holding m \<Longrightarrow> held_ok M w m" "\<And>r f. t r = Stored f \<Longrightarrow> frame_stored M f"
    "\<And>r r' m m'. t r = Holding m \<Longrightarrow> t r' = Holding m' \<Longrightarrow> r \<noteq> r' \<Longrightarrow> msg_seq m \<noteq> msg_seq m'"
  shows "tasks_ok M w t"
  using assms unfolding tasks_ok_def by blast

lemma tasks_ok_mono:
  assumes "tasks_ok M w t" "w \<le> w'" shows "tasks_ok M w' t"
proof (rule tasks_okI)
  show "held_ok M w' m" if "t r = Holding m" for r m
    using tasks_okD(1) [OF assms(1) that] assms(2) by (simp add: held_ok_def)
qed (use tasks_okD(2,3) [OF assms(1)] in blast)+

lemma tasks_ok_hold:
  assumes t: "tasks_ok M w t" and m: "msg_seq m = w" "0 \<le> w" "wf_raw m" "M w = None"
  shows "tasks_ok M (w + 1) (t(r := Holding m))"
proof (rule tasks_okI)
  have old: "held_ok M (w + 1) m' \<and> msg_seq m' \<noteq> w" if "t q = Holding m'" for q m'
    using tasks_okD(1) [OF t that] by (simp add: held_ok_def)
  show "held_ok M (w + 1) m'" if "(t(r := Holding m)) q = Holding m'" for q m'
    using that old m by (auto simp: held_ok_def split: if_splits)
  show "frame_stored M f" if "(t(r := Holding m)) q = Stored f" for q f
    using that tasks_okD(2) [OF t] by (auto split: if_splits)
  show "msg_seq a \<noteq> msg_seq b"
    if "(t(r := Holding m)) q = Holding a" "(t(r := Holding m)) q' = Holding b" "q \<noteq> q'" for q q' a b
    using that old [of q a] old [of q' b] tasks_okD(3) [OF t, of q a q' b] m(1) by (auto split: if_splits)
qed

lemma frame_stored_mono: "frame_stored M f \<Longrightarrow> M \<subseteq>\<^sub>m M' \<Longrightarrow> frame_stored M' f"
  unfolding frame_stored_def map_le_def by (metis domI)

lemma map_le_upd: "M i = None \<Longrightarrow> M \<subseteq>\<^sub>m M(i \<mapsto> x)"
  by (auto simp: map_le_def)

lemma tasks_ok_store:
  assumes t: "tasks_ok M w t" and r: "t r = Holding m" and len: "length bytes \<le> MAX_PAYLOAD_SIZE"
  shows "tasks_ok (M(msg_seq m \<mapsto> bytes)) w (t(r := Stored (frame bytes)))"
proof (rule tasks_okI)
  have le: "M \<subseteq>\<^sub>m M(msg_seq m \<mapsto> bytes)"
    using tasks_okD(1) [OF t r] by (intro map_le_upd) (simp add: held_ok_def)
  show "held_ok (M(msg_seq m \<mapsto> bytes)) w a" if "(t(r := Stored (frame bytes))) q = Holding a" for q a
    using that tasks_okD(1) [OF t, of q a] tasks_okD(3) [OF t r, of q a]
    by (auto simp: held_ok_def split: if_splits)
  show "frame_stored (M(msg_seq m \<mapsto> bytes)) f" if "(t(r := Stored (frame bytes))) q = Stored f" for q f
  proof (cases "q = r")
    case True
    then show ?thesis using that len by (auto simp: frame_stored_def)
  next
    case False
    then show ?thesis using that tasks_okD(2) [OF t, of q f] frame_stored_mono [OF _ le] by simp
  qed
  show "msg_seq a \<noteq> msg_seq b" if "(t(r := Stored (frame bytes))) q = Holding a"
    "(t(r := Stored (frame bytes))) q' = Holding b" "q \<noteq> q'" for q q' a b
    using that tasks_okD(3) [OF t, of q a q' b] by (auto split: if_splits)
qed

lemma map_ok_mono: "map_ok C M w \<Longrightarrow> w \<le> w' \<Longrightarrow> map_ok C M w'"
  by (fastforce simp: map_ok_def)

lemma map_ok_store:
  assumes "map_ok C M w" "held_ok M w m" "entry_ok C (msg_seq m) bytes"
  shows "map_ok C (M(msg_seq m \<mapsto> bytes)) w"
  using assms by (simp add: map_ok_def held_ok_def)

section \<open>Every step keeps it\<close>

text \<open>A critical section: the next sequence is handed out, the store and the socket stay.\<close>

lemma inv_stamp:
  assumes inv: "publisher_inv stored invar C y" and room: "next_of y < 2 ^ 63 - 1"
    and g: "store g = store (shared y)" "socket g = socket (shared y)"
      "wrapper_sequence (wrapper g) = wrap_i64 (next_of y + 1)"
    and t: "t = Waiting \<or> (\<exists>m. t = Holding m \<and> msg_seq m = next_of y \<and> wf_raw m)"
  shows "publisher_inv stored invar C (goto r t g y)" "next_of (goto r t g y) = next_of y + 1"
proof -
  let ?M = "stored (store_of y)" and ?w = "next_of y"
  have w: "wrapper_sequence (wrapper g) = ?w + 1" "in_i64 (?w + 1)" "0 \<le> ?w + 1"
    using inv room g(3) by (auto simp: publisher_inv_def in_i64_def)
  show "next_of (goto r t g y) = ?w + 1" using w by simp
  have M: "map_ok C ?M (?w + 1)" and T: "tasks_ok ?M ?w (task_of y)"
    using inv map_ok_mono [of C ?M ?w] by (auto simp: publisher_inv_def)
  have free: "?M ?w = None"
    using inv unfolding publisher_inv_def map_ok_def by (metis not_None_eq order_less_irrefl)
  have "tasks_ok ?M (?w + 1) ((task_of y)(r := t))"
  proof (cases "t = Waiting")
    case True
    have "tasks_ok ?M (?w + 1) (task_of y)"
      by (rule tasks_ok_mono [OF T]) simp
    then show ?thesis using True tasks_ok_wait by blast
  next
    case False
    then obtain m where "t = Holding m" "msg_seq m = ?w" "wf_raw m" using t by blast
    then show ?thesis using tasks_ok_hold [OF T _ _ _ free] inv by (simp add: publisher_inv_def)
  qed
  then show "publisher_inv stored invar C (goto r t g y)"
    using inv M w g(1,2) by (simp add: publisher_inv_def store_of_def sent_of_def)
qed

lemma inv_no_frame:
  assumes inv: "publisher_inv stored invar C y"
    and g: "wrapper g = wrapper (shared y)" "socket g = socket (shared y)"
      "stored (store g) = stored (store_of y)" "invar (store g)"
  shows "publisher_inv stored invar C (goto r Waiting g y)"
  using inv g tasks_ok_wait
  by (simp add: publisher_inv_def next_of_def sent_of_def)

lemma inv_send:
  assumes inv: "publisher_inv stored invar C y" and t: "task_of y r = Stored f"
    and g: "wrapper g = wrapper (shared y)" "store g = store (shared y)"
      "sent (socket g) = sent_of y \<or> sent (socket g) = sent_of y @ [f]"
  shows "publisher_inv stored invar C (goto r Waiting g y)"
proof -
  have T: "tasks_ok (stored (store_of y)) (next_of y) (task_of y)" using inv by (simp add: publisher_inv_def)
  have "frame_stored (stored (store_of y)) f" by (rule tasks_okD(2) [OF T t])
  then show ?thesis
    using inv g tasks_ok_wait [OF T] by (auto simp: publisher_inv_def next_of_def store_of_def)
qed

text \<open>What may change: the next sequence goes up by at most one, the store only grows, and what
  was sent stays sent.\<close>

definition advances :: "('s \<Rightarrow> int \<rightharpoonup> byte list) \<Rightarrow> nat \<Rightarrow> ('st, 's) system \<Rightarrow> ('st, 's) system \<Rightarrow> bool" where
  "advances stored n y z \<longleftrightarrow> next_of y \<le> next_of z \<and> next_of z \<le> next_of y + int n \<and>
     stored (store_of y) \<subseteq>\<^sub>m stored (store_of z) \<and> (\<exists>fs. sent_of z = sent_of y @ fs)"

text \<open>A sequence that is neither stored nor held, below the next one, is lost.\<close>

definition lost :: "('s \<Rightarrow> int \<rightharpoonup> byte list) \<Rightarrow> int \<Rightarrow> ('st, 's) system \<Rightarrow> bool" where
  "lost stored i y \<longleftrightarrow> i < next_of y \<and> stored (store_of y) i = None \<and>
     (\<forall>r m. task_of y r = Holding m \<longrightarrow> msg_seq m \<noteq> i)"

lemma advances_trans: "advances stored n x y \<Longrightarrow> advances stored k y z \<Longrightarrow> advances stored (n + k) x z"
  unfolding advances_def using map_le_trans by fastforce

context master_log
begin

text \<open>The outcome of one step, by what moved.\<close>

lemma step_cases:
  assumes C: "codec_sound C" "C = codec D" and step: "system_step P D y z"
    and inv: "publisher_inv stored invar C y" and room: "next_of y < 2 ^ 63 - 1"
  shows "publisher_inv stored invar C z \<and> advances stored 1 y z \<and> (\<forall>i. lost stored i y \<longrightarrow> lost stored i z)"
  using step
proof cases
  case (delta_stamped now d m g)
  note sd = stamp_delta_Ret [OF delta_stamped(4)]
  have m: "msg_seq m = next_of y \<and> wf_raw m"
    using stamp_delta_message(1) [OF delta_stamped(4)] inv delta_stamped(3)
    by (auto simp: next_of_def wf_raw_def publisher_inv_def)
  have g: "store g = store (shared y)" "socket g = socket (shared y)"
      "wrapper_sequence (wrapper g) = wrap_i64 (next_of y + 1)"
    using sd(1-3) by (simp_all add: next_of_def)
  have "publisher_inv stored invar C z" "next_of z = next_of y + 1"
    using inv_stamp [OF inv room g, of "Holding m" Application] m delta_stamped(1) by auto
  then show ?thesis using delta_stamped(1) g m
    by (auto simp: advances_def lost_def store_of_def sent_of_def)
next
  case (delta_refused d now err g)
  note sd = stamp_delta_Ret [OF delta_refused(3)]
  have g: "store g = store (shared y)" "socket g = socket (shared y)"
      "wrapper_sequence (wrapper g) = wrap_i64 (next_of y + 1)"
    using sd(1-3) by (simp_all add: next_of_def)
  have "publisher_inv stored invar C z" "next_of z = next_of y + 1"
    using inv_stamp [OF inv room g, of Waiting Application] delta_refused(1) by auto
  then show ?thesis using delta_refused(1) g
    by (auto simp: advances_def lost_def store_of_def sent_of_def)
next
  case (heartbeat_stamped now m g)
  have g: "store g = store (shared y)" "socket g = socket (shared y)"
      "wrapper_sequence (wrapper g) = wrap_i64 (next_of y + 1)" and m: "msg_seq m = next_of y" "wf_raw m"
    using heartbeat_stamped(3,4) inv
    by (auto simp: stamp_heartbeat_eq next_of_def wf_raw_def publisher_inv_def)
  have "publisher_inv stored invar C z" "next_of z = next_of y + 1"
    using inv_stamp [OF inv room g, of "Holding m" Heartbeats] m heartbeat_stamped(1) by auto
  then show ?thesis using heartbeat_stamped(1) g m
    by (auto simp: advances_def lost_def store_of_def sent_of_def)
next
  case (message_stored r m f g)
  note keep = publish_store_keeps [OF message_stored(3)]
  obtain bytes u where b: "prost_encode C m = Inr bytes" "length bytes \<le> MAX_PAYLOAD_SIZE" "f = frame bytes"
    and w: "write_message P (msg_seq m) (msg_ts m) bytes (store_of y) = (Inr u, store g)"
    using publish_store_Inr [OF _ message_stored(3)] C unfolding codec_sound_def store_of_def by blast
  have I: "invar (store_of y)" and T: "tasks_ok (stored (store_of y)) (next_of y) (task_of y)"
    and M: "map_ok C (stored (store_of y)) (next_of y)"
    using inv by (simp_all add: publisher_inv_def)
  note held = tasks_okD(1) [OF T message_stored(2)]
  have st: "stored (store g) = (stored (store_of y))(msg_seq m \<mapsto> bytes)" and I': "invar (store g)"
    using write_ok [OF I w] write_invar [OF I w] by auto
  have e: "entry_ok C (msg_seq m) bytes"
    using C(1) b(1) held by (auto simp: entry_ok_def codec_sound_def held_ok_def)
  have le: "stored (store_of y) \<subseteq>\<^sub>m stored (store g)"
    using held by (auto simp: st held_ok_def intro: map_le_upd)
  have "publisher_inv stored invar C z"
    using inv I' map_ok_store [OF M held e] tasks_ok_store [OF T message_stored(2) b(2)] keep b(3)
      message_stored(1) frame_stored_mono [OF _ le]
    by (simp add: publisher_inv_def st next_of_def sent_of_def)
  moreover have "lost stored i z" if "lost stored i y" for i
    using that message_stored(1,2) keep st by (auto simp: lost_def next_of_def)
  ultimately show ?thesis using message_stored(1) keep le
    by (auto simp: advances_def next_of_def sent_of_def)
next
  case (store_failed r m err g)
  note keep = publish_store_keeps [OF store_failed(3)]
  have I: "invar (store_of y)" using inv by (simp add: publisher_inv_def)
  have st: "stored (store g) = stored (store_of y)" "invar (store g)"
    using publish_store_Inl [OF store_failed(3)] write_fails [OF I] write_invar [OF I] I
    by (auto simp: store_of_def)
  have "publisher_inv stored invar C z"
    using inv_no_frame [where stored = stored and invar = invar, OF inv keep st] store_failed(1) by simp
  then show ?thesis using store_failed(1) keep st
    by (auto simp: advances_def lost_def next_of_def sent_of_def)
next
  case (message_sent r f res g)
  note keep = publish_send_keeps [OF message_sent(3)]
  have "publisher_inv stored invar C z"
    using inv_send [OF inv message_sent(2) keep(1,2)] keep(3) message_sent(1) by (simp add: sent_of_def)
  then show ?thesis using message_sent(1,2) keep
    by (auto simp: advances_def lost_def next_of_def store_of_def sent_of_def)
qed

lemma runs_keep:
  assumes C: "codec_sound (codec D)"
  shows "system_runs P D n y z \<Longrightarrow> publisher_inv stored invar (codec D) y \<Longrightarrow> next_of y + int n < 2 ^ 63 \<Longrightarrow>
    publisher_inv stored invar (codec D) z \<and> advances stored n y z \<and> (\<forall>i. lost stored i y \<longrightarrow> lost stored i z)"
proof (induction rule: system_runs.induct)
  case (runs_none y)
  then show ?case by (simp add: advances_def)
next
  case (runs_more n x y z)
  have IH: "publisher_inv stored invar (codec D) y" "advances stored n x y" "\<forall>i. lost stored i x \<longrightarrow> lost stored i y"
    using runs_more.IH runs_more.prems by auto
  have "next_of y < 2 ^ 63 - 1" using IH(2) runs_more.prems(2) by (simp add: advances_def)
  from step_cases [OF C refl runs_more.hyps(2) IH(1) this] show ?case
    using IH(2,3) advances_trans [of stored n x y 1 z] by auto
qed

text \<open>A held message is still to be stored: its write cannot meet an entry of its sequence.\<close>

lemma held_not_stored:
  assumes "publisher_inv stored invar C y" "task_of y r = Holding m"
  shows "stored (store_of y) (msg_seq m) = None"
  using assms unfolding publisher_inv_def tasks_ok_def held_ok_def by blast

end

section \<open>The state as a replay of the log\<close>

text \<open>The delta a message carries, for a decoder of deltas, and the deltas of consecutive entries.\<close>

definition delta_in :: "(byte list \<Rightarrow> (string, 'd) result) \<Rightarrow> raw_message option \<Rightarrow> 'd option" where
  "delta_in dec entry =
     (case entry of
        Some m \<Rightarrow> (case payload m of
            Some (Delta d) \<Rightarrow> (case dec (body d) of Inr x \<Rightarrow> Some x | Inl _ \<Rightarrow> None)
          | _ \<Rightarrow> None)
      | None \<Rightarrow> None)"

definition deltas_from ::
  "(byte list \<Rightarrow> (string, 'd) result) \<Rightarrow> (int \<Rightarrow> raw_message option) \<Rightarrow> int \<Rightarrow> nat \<Rightarrow> 'd list" where
  "deltas_from dec L i n = List.map_filter (\<lambda>j. delta_in dec (L (i + int j))) [0..<n]"

lemma deltas_from_Suc:
  "deltas_from dec L i (Suc n) =
     deltas_from dec L i n @ (case delta_in dec (L (i + int n)) of Some d \<Rightarrow> [d] | None \<Rightarrow> [])"
  by (auto simp: deltas_from_def List.map_filter_def split: option.split)

lemma deltas_from_cong:
  "(\<And>j. j < n \<Longrightarrow> L (i + int j) = L' (i + int j)) \<Longrightarrow> deltas_from dec L i n = deltas_from dec L' i n"
  by (induction n) (simp_all add: deltas_from_Suc, simp add: deltas_from_def List.map_filter_def)

lemma deltas_from_append: "deltas_from dec L n (a + b) = deltas_from dec L n a @ deltas_from dec L (n + int a) b"
  by (induction b) (simp_all add: deltas_from_Suc add.assoc, simp add: deltas_from_def List.map_filter_def)

text \<open>The messages of a log of bytes.\<close>

definition log_of :: "raw_message codec_deps \<Rightarrow> (int \<rightharpoonup> byte list) \<Rightarrow> int \<Rightarrow> raw_message option" where
  "log_of C M i = (case M i of
     Some bytes \<Rightarrow> (case prost_decode C bytes of Inr m \<Rightarrow> Some m | Inl _ \<Rightarrow> None)
   | None \<Rightarrow> None)"

lemma log_of_extends: "M \<subseteq>\<^sub>m M' \<Longrightarrow> log_of C M i \<noteq> None \<Longrightarrow> log_of C M' i = log_of C M i"
  by (force simp: log_of_def map_le_def split: option.splits)

text \<open>
  The history \<open>H\<close> of stamped messages explains the publisher: what is stored or held is of it,
  and if it has no hole from \<open>n0\<close> on, replaying its deltas on the default state gives the
  publisher's state.
\<close>

definition explains ::
  "('s \<Rightarrow> int \<rightharpoonup> byte list) \<Rightarrow> ('st, 'd, 'ae) publisher_deps \<Rightarrow> (byte list \<Rightarrow> (string, 'd) result) \<Rightarrow> int \<Rightarrow>
   (int \<Rightarrow> raw_message option) \<Rightarrow> ('st, 's) system \<Rightarrow> bool" where
  "explains stored D dec n0 H y \<longleftrightarrow> n0 \<le> next_of y \<and>
     (\<forall>i. next_of y \<le> i \<longrightarrow> H i = None) \<and>
     (\<forall>i bytes. n0 \<le> i \<longrightarrow> stored (store_of y) i = Some bytes \<longrightarrow> H i = log_of (codec D) (stored (store_of y)) i) \<and>
     (\<forall>r m. task_of y r = Holding m \<longrightarrow> H (msg_seq m) = Some m) \<and>
     ((\<forall>i. n0 \<le> i \<longrightarrow> i < next_of y \<longrightarrow> H i \<noteq> None) \<longrightarrow>
        apply_all (sync D) (deltas_from dec H n0 (nat (next_of y - n0))) (default_state (sync D)) =
          Some (inner_state (wrapper (shared y))))"

lemma explains_stamp:
  assumes ex: "explains stored D dec n0 H y" and inv: "publisher_inv stored invar C y"
    and g: "store g = store (shared y)" "wrapper_sequence (wrapper g) = next_of y + 1"
    and m: "msg_seq m = next_of y"
    and st: "apply_all (sync D) (case delta_in dec (Some m) of Some d \<Rightarrow> [d] | None \<Rightarrow> [])
      (inner_state (wrapper (shared y))) = Some (inner_state (wrapper g))"
  shows "explains stored D dec n0 (H(next_of y \<mapsto> m)) (goto r (Holding m) g y)"
proof -
  let ?w = "next_of y" and ?H = "H(next_of y \<mapsto> m)"
  have M: "map_ok C (stored (store_of y)) ?w" and T: "tasks_ok (stored (store_of y)) ?w (task_of y)"
    using inv by (simp_all add: publisher_inv_def)
  have n0: "n0 \<le> ?w" using ex by (simp add: explains_def)
  have nat: "nat (?w + 1 - n0) = Suc (nat (?w - n0))" "n0 + int (nat (?w - n0)) = ?w" using n0 by auto
  have eq: "deltas_from dec ?H n0 (nat (?w - n0)) = deltas_from dec H n0 (nat (?w - n0))"
    using n0 by (intro deltas_from_cong) auto
  have "apply_all (sync D) (deltas_from dec ?H n0 (nat (?w + 1 - n0))) (default_state (sync D)) =
      Some (inner_state (wrapper g))" if "\<forall>i. n0 \<le> i \<longrightarrow> i < ?w + 1 \<longrightarrow> ?H i \<noteq> None"
  proof -
    have "H i \<noteq> None" if "n0 \<le> i" "i < ?w" for i using that \<open>\<forall>i. n0 \<le> i \<longrightarrow> i < ?w + 1 \<longrightarrow> ?H i \<noteq> None\<close> by fastforce
    then have "apply_all (sync D) (deltas_from dec H n0 (nat (?w - n0))) (default_state (sync D)) =
        Some (inner_state (wrapper (shared y)))" using ex by (simp add: explains_def)
    then show ?thesis using st n0 by (simp add: nat deltas_from_Suc eq apply_all_append)
  qed
  moreover have "?H i = log_of (codec D) (stored (store_of y)) i"
    if "n0 \<le> i" "stored (store_of y) i = Some bytes" for i bytes
  proof -
    have "i \<noteq> ?w" using M that(2) by (auto simp: map_ok_def)
    then show ?thesis using ex that by (simp add: explains_def)
  qed
  moreover have "?H (msg_seq m') = Some m'" if "task_of y q = Holding m'" for q m'
    using tasks_okD(1) [OF T that] ex that by (auto simp: explains_def held_ok_def)
  ultimately show ?thesis
    using ex g m n0 by (auto simp: explains_def store_of_def split: if_splits)
qed

lemma explains_other:
  assumes ex: "explains stored D dec n0 H y"
    and g: "wrapper g = wrapper (shared y)" "t \<noteq> Waiting \<Longrightarrow> (\<exists>f. t = Stored f)"
    and st: "\<And>i bytes. n0 \<le> i \<Longrightarrow> stored (store g) i = Some bytes \<Longrightarrow> H i = log_of (codec D) (stored (store g)) i"
  shows "explains stored D dec n0 H (goto r t g y)"
  using ex g st by (auto simp: explains_def next_of_def split: if_splits)

context master_log
begin

lemma step_explains:
  assumes C: "codec_sound (codec D)" and dec: "\<And>d. dec (delta_bytes D d) = Inr d"
    and step: "system_step P D y z"
    and inv: "publisher_inv stored invar (codec D) y" and room: "next_of y < 2 ^ 63 - 1"
    and ex: "explains stored D dec n0 H y"
  shows "\<exists>H'. explains stored D dec n0 H' z \<and> (\<forall>i < next_of y. H' i = H i)"
proof -
  have grown: ?thesis if "explains stored D dec n0 (H(next_of y \<mapsto> m)) z" for m
    using that by (intro exI [of _ "H(next_of y \<mapsto> m)"]) simp
  have same: ?thesis if "explains stored D dec n0 H z" using that by blast
  show ?thesis using step
  proof cases
    case (delta_stamped now d m g)
    note sd = stamp_delta_Ret [OF delta_stamped(4)] and sm = stamp_delta_message [OF delta_stamped(4)]
    have w: "wrapper_sequence (wrapper g) = next_of y + 1" "msg_seq m = next_of y"
      using sd(3) sm(1) inv room by (auto simp: next_of_def publisher_inv_def in_i64_def)
    have "apply_all (sync D) (case delta_in dec (Some m) of Some d \<Rightarrow> [d] | None \<Rightarrow> [])
        (inner_state (wrapper (shared y))) = Some (inner_state (wrapper g))"
      by (simp add: sm delta_in_def dec)
    then show ?thesis
      using grown explains_stamp [OF ex inv sd(1) w, where r = Application] delta_stamped(1) by blast
  next
    case (delta_refused d now err g)
    note sd = stamp_delta_Ret [OF delta_refused(3)]
    have w: "wrapper_sequence (wrapper g) = next_of y + 1"
      using sd(3) inv room by (auto simp: next_of_def publisher_inv_def in_i64_def)
    have "H (next_of y) = None" "n0 \<le> next_of y" using ex by (auto simp: explains_def)
    then have "\<not> (\<forall>i. n0 \<le> i \<longrightarrow> i < next_of y + 1 \<longrightarrow> H i \<noteq> None)" by auto
    then have "explains stored D dec n0 H z"
      using ex w sd(1) delta_refused(1) by (auto simp: explains_def store_of_def split: if_splits)
    then show ?thesis by (rule same)
  next
    case (heartbeat_stamped now m g)
    have "wrapper_sequence (wrapper g) = next_of y + 1" "msg_seq m = next_of y" "store g = store (shared y)"
      "apply_all (sync D) (case delta_in dec (Some m) of Some d \<Rightarrow> [d] | None \<Rightarrow> [])
        (inner_state (wrapper (shared y))) = Some (inner_state (wrapper g))"
      using heartbeat_stamped(4) inv room
      by (auto simp: stamp_heartbeat_eq next_of_def publisher_inv_def in_i64_def delta_in_def)
    then show ?thesis using grown explains_stamp [OF ex inv, where g = g and m = m and r = Heartbeats] heartbeat_stamped(1) by blast
  next
    case (message_stored r m f g)
    obtain bytes u where b: "prost_encode (codec D) m = Inr bytes"
      and w: "write_message P (msg_seq m) (msg_ts m) bytes (store_of y) = (Inr u, store g)"
      using publish_store_Inr [OF _ message_stored(3)] C unfolding codec_sound_def store_of_def by blast
    have I: "invar (store_of y)" and T: "tasks_ok (stored (store_of y)) (next_of y) (task_of y)"
      using inv by (simp_all add: publisher_inv_def)
    have st: "stored (store g) = (stored (store_of y))(msg_seq m \<mapsto> bytes)" using write_ok [OF I w] by simp
    have m: "prost_decode (codec D) bytes = Inr m"
      using C b tasks_okD(1) [OF T message_stored(2)] by (auto simp: codec_sound_def held_ok_def)
    have Hm: "H (msg_seq m) = Some m"
      and Hs: "n0 \<le> i \<Longrightarrow> stored (store_of y) i = Some c \<Longrightarrow> H i = log_of (codec D) (stored (store_of y)) i" for i c
      using ex message_stored(2) unfolding explains_def by blast+
    have "H i = log_of (codec D) (stored (store g)) i" if "n0 \<le> i" "stored (store g) i = Some c" for i c
      using that Hs [of i c] Hm m by (cases "i = msg_seq m") (simp_all add: st log_of_def)
    then have "explains stored D dec n0 H z"
      using explains_other [OF ex publish_store_keeps(1) [OF message_stored(3)], where t = "Stored f"] message_stored(1) by blast
    then show ?thesis by (rule same)
  next
    case (store_failed r m err g)
    have I: "invar (store_of y)" using inv by (simp add: publisher_inv_def)
    have st: "stored (store g) = stored (store_of y)"
      using publish_store_Inl [OF store_failed(3)] write_fails [OF I] by (auto simp: store_of_def)
    have "H i = log_of (codec D) (stored (store g)) i" if "n0 \<le> i" "stored (store g) i = Some b" for i b
      using that ex by (auto simp: st explains_def)
    then show ?thesis
      using same explains_other [OF ex publish_store_keeps(1) [OF store_failed(3)], where t = Waiting] store_failed(1) by blast
  next
    case (message_sent r f res g)
    note keep = publish_send_keeps [OF message_sent(3)]
    have "H i = log_of (codec D) (stored (store g)) i" if "n0 \<le> i" "stored (store g) i = Some b" for i b
      using that ex keep(2) by (auto simp: store_of_def explains_def)
    then show ?thesis using same explains_other [OF ex keep(1), where t = Waiting] message_sent(1) by blast
  qed
qed

lemma runs_history:
  assumes C: "codec_sound (codec D)" and dec: "\<And>d. dec (delta_bytes D d) = Inr d"
  shows "system_runs P D n y z \<Longrightarrow> publisher_inv stored invar (codec D) y \<Longrightarrow> next_of y + int n < 2 ^ 63 \<Longrightarrow>
    explains stored D dec n0 H y \<Longrightarrow> \<exists>H'. explains stored D dec n0 H' z \<and> (\<forall>i < next_of y. H' i = H i)"
proof (induction rule: system_runs.induct)
  case (runs_more n x y z)
  have y: "publisher_inv stored invar (codec D) y" "next_of y < 2 ^ 63 - 1" "next_of x \<le> next_of y"
    using runs_keep [OF C runs_more.hyps(1) runs_more.prems(1)] runs_more.prems(2)
    by (auto simp: advances_def)
  obtain H1 where H1: "explains stored D dec n0 H1 y" "\<forall>i < next_of x. H1 i = H i"
    using runs_more.IH runs_more.prems by auto
  obtain H2 where "explains stored D dec n0 H2 z" "\<forall>i < next_of y. H2 i = H1 i"
    using step_explains [OF C dec runs_more.hyps(2) y(1,2) H1(1)] by blast
  then show ?case using H1(2) y(3) by (intro exI [of _ H2]) auto
qed blast

lemma runs_explain:
  assumes "codec_sound (codec D)" "\<And>d. dec (delta_bytes D d) = Inr d"
    and "system_runs P D n y z" "publisher_inv stored invar (codec D) y" "next_of y + int n < 2 ^ 63"
    and "\<exists>H. explains stored D dec n0 H y"
  shows "\<exists>H. explains stored D dec n0 H z"
  using runs_history [OF assms(1-5)] assms(6) by blast

text \<open>A run passes every value of the counter.\<close>

lemma runs_pass:
  assumes C: "codec_sound (codec D)"
  shows "system_runs P D n x z \<Longrightarrow> publisher_inv stored invar (codec D) x \<Longrightarrow> next_of x + int n < 2 ^ 63 \<Longrightarrow>
    next_of x \<le> w \<Longrightarrow> w \<le> next_of z \<Longrightarrow>
    \<exists>a b y. system_runs P D a x y \<and> system_runs P D b y z \<and> a + b = n \<and> next_of y = w"
proof (induction rule: system_runs.induct)
  case (runs_none y)
  then show ?case by (intro exI [of _ 0] exI [of _ y]) auto
next
  case (runs_more n x y z)
  show ?case
  proof (cases "w \<le> next_of y")
    case True
    then obtain a b v where "system_runs P D a x v" "system_runs P D b v y" "a + b = n" "next_of v = w"
      using runs_more.IH runs_more.prems by auto
    then show ?thesis using system_runs.runs_more [OF _ runs_more.hyps(2)]
      by (intro exI [of _ a] exI [of _ "Suc b"] exI [of _ v]) auto
  next
    case False
    have "publisher_inv stored invar (codec D) y" "next_of y < 2 ^ 63 - 1"
      using runs_keep [OF C runs_more.hyps(1) runs_more.prems(1)] runs_more.prems(2) by (auto simp: advances_def)
    then have "next_of z \<le> next_of y + 1"
      using step_cases [OF C refl runs_more.hyps(2)] by (simp add: advances_def)
    then have "next_of z = w" using False runs_more.prems(4) by simp
    then show ?thesis using system_runs.runs_more [OF runs_more.hyps]
      by (intro exI [of _ "Suc n"] exI [of _ 0] exI [of _ z]) auto
  qed
qed

end

section \<open>From the start\<close>

text \<open>A publisher whose tasks hold nothing: before the first message, and after \<open>run\<close>.\<close>

definition idle_system :: "('st, 's) shared \<Rightarrow> ('st, 's) system" where
  "idle_system g = \<lparr>shared = g, task_of = (\<lambda>_. Waiting)\<rparr>"

lemma idle_system_simps [simp]:
  "next_of (idle_system g) = wrapper_sequence (wrapper g)" "store_of (idle_system g) = store g"
  "sent_of (idle_system g) = sent (socket g)" "shared (idle_system g) = g" "task_of (idle_system g) r = Waiting"
  by (simp_all add: idle_system_def next_of_def store_of_def sent_of_def)

definition fresh_shared :: "('st, 'd, 'ae) publisher_deps \<Rightarrow> int \<Rightarrow> 's \<Rightarrow> udp_socket \<Rightarrow> ('st, 's) shared" where
  "fresh_shared D n s sock = \<lparr>wrapper = with_sequence (sync D) n, store = s, socket = sock\<rparr>"

lemma fresh_shared_simps [simp]:
  "wrapper_sequence (wrapper (fresh_shared D n s sock)) = n" "store (fresh_shared D n s sock) = s"
  "socket (fresh_shared D n s sock) = sock"
  "inner_state (wrapper (fresh_shared D n s sock)) = default_state (sync D)"
  by (simp_all add: fresh_shared_def with_sequence_def)

text \<open>A successful publish stores the message and sends its frame.\<close>

lemma publish_Inr:
  assumes C: "codec_sound C" and m: "wf_raw m" and res: "publish P C m g = (Inr k :: (('ae, 'e) publish_error, nat) result, g')"
  shows "\<exists>bytes u. prost_decode C bytes = Inr m \<and> length bytes \<le> MAX_PAYLOAD_SIZE \<and>
    write_message P (msg_seq m) (msg_ts m) bytes (store g) = (Inr u, store g') \<and>
    wrapper g' = wrapper g \<and> sent (socket g') = sent (socket g) @ [frame bytes]"
proof -
  obtain f g1 where f: "publish_store P C m g = (Inr f :: (('ae, 'e) publish_error, byte list) result, g1)"
    and g': "publish_send f g1 = (Inr k :: (('ae, 'e) publish_error, nat) result, g')"
    using res by (auto simp: publish_def split: prod.splits sum.splits)
  obtain bytes u where b: "prost_encode C m = Inr bytes" "length bytes \<le> MAX_PAYLOAD_SIZE" "f = frame bytes"
    "write_message P (msg_seq m) (msg_ts m) bytes (store g) = (Inr u, store g1)"
    using publish_store_Inr [OF _ f] C unfolding codec_sound_def by blast
  have "prost_decode C bytes = Inr m" using C b(1) m by (auto simp: codec_sound_def)
  moreover have "store g' = store g1" "wrapper g' = wrapper g1" "sent (socket g') = sent (socket g1) @ [f]"
    using g' by (auto simp: publish_send_def socket_send_def split: option.splits)
  ultimately show ?thesis using b publish_store_keeps [OF f] by auto
qed

lemma fresh_inv:
  assumes "invar s" "0 \<le> n" "in_i64 n" "map_ok C (stored s) n" "sent sock = []"
  shows "publisher_inv stored invar C (idle_system (fresh_shared D n s sock))"
  using assms by (simp add: publisher_inv_def tasks_ok_def)

lemma fresh_explains:
  assumes "map_ok C (stored s) n"
  shows "explains stored D dec n (\<lambda>_. None) (idle_system (fresh_shared D n s sock))"
  using assms
  by (fastforce simp: explains_def map_ok_def deltas_from_def List.map_filter_def)

text \<open>Every stored entry is a message of its sequence, below the largest.\<close>

definition log_valid :: "raw_message codec_deps \<Rightarrow> (int \<rightharpoonup> byte list) \<Rightarrow> bool" where
  "log_valid C M \<longleftrightarrow> (\<forall>i bytes. M i = Some bytes \<longrightarrow> 0 \<le> i \<and> i < 2 ^ 63 - 1 \<and> entry_ok C i bytes)"

text \<open>\<open>run\<close> is a critical section of its own, then the steps of a task that holds its message.\<close>

lemma publish_steps:
  assumes "task_of y r = Holding m"
    and "publish P (codec D) m (shared y) = (Inr k :: (('ae, 'e) publish_error, nat) result, g)"
  shows "system_runs P (D :: ('st, 'd, 'ae) publisher_deps) 2 y (goto r Waiting g y)"
proof -
  obtain f g1 where f: "publish_store P (codec D) m (shared y) = (Inr f :: (('ae, 'e) publish_error, byte list) result, g1)"
    and g: "publish_send f g1 = (Inr k :: (('ae, 'e) publish_error, nat) result, g)"
    using assms(2) by (auto simp: publish_def split: prod.splits sum.splits)
  let ?y1 = "goto r (Stored f) g1 y"
  have s1: "system_step P D y ?y1" by (rule message_stored [OF assms(1) f])
  have "system_step P D ?y1 (goto r Waiting g ?y1)" 
    by (rule message_sent [where f = f and res = "Inr k :: (('ae, 'e) publish_error, nat) result"])
      (simp_all add: g)
  moreover have "goto r Waiting g ?y1 = goto r Waiting g y" by simp
  ultimately have "system_step P D ?y1 (goto r Waiting g y)" by simp
  then show ?thesis unfolding numeral_2_eq_2 by (rule runs_more [OF runs_more [OF runs_none s1]])
qed

lemma runs_trans: "system_runs P D k y z \<Longrightarrow> system_runs P D n x y \<Longrightarrow> system_runs P D (n + k) x z"
  by (induction rule: system_runs.induct) (auto intro: runs_more)

lemma context_apply_delta_Inr:
  assumes "context_apply_delta P D d now g = Ret (Inr i :: (('ae, 'e) publish_error, int) result, g')"
  obtains m g1 k where "stamp_delta D d now g = Ret (Inr m :: (('ae, 'e) publish_error, raw_message) result, g1)"
    "publish P (codec D) m g1 = (Inr k :: (('ae, 'e) publish_error, nat) result, g')" "i = msg_seq m"
proof -
  let ?st = "stamp_delta D d now g :: ((('ae, 'e) publish_error, raw_message) result \<times> _) run"
  obtain r g1 where r: "?st = Ret (r, g1)"
    using assms by (cases ?st) (auto simp: context_apply_delta_def)
  then obtain m where m: "r = Inr m" using assms by (cases r) (auto simp: context_apply_delta_def)
  obtain q g2 where q: "publish P (codec D) m g1 = (q :: (('ae, 'e) publish_error, nat) result, g2)" by fastforce
  then obtain k where "q = Inr k" using assms r m by (cases q) (auto simp: context_apply_delta_def)
  then show ?thesis using that [of m g1 k] assms r m q by (simp add: context_apply_delta_def)
qed

text \<open>An \<open>apply_delta\<close> that nothing interrupts is a run of the system.\<close>

lemma apply_delta_steps:
  assumes "in_i64 now"
    and "context_apply_delta P D d now g = Ret (Inr i :: (('ae, 'e) publish_error, int) result, g')"
  shows "system_runs P (D :: ('st, 'd, 'ae) publisher_deps) 3 (idle_system g) (idle_system g')"
proof -
  obtain m g1 k where st: "stamp_delta D d now g = Ret (Inr m :: (('ae, 'e) publish_error, raw_message) result, g1)"
    and pub: "publish P (codec D) m g1 = (Inr k :: (('ae, 'e) publish_error, nat) result, g')"
    using assms(2) by (rule context_apply_delta_Inr)
  let ?y = "goto Application (Holding m) g1 (idle_system g)"
  have "system_step P D (idle_system g) ?y" by (rule delta_stamped [OF _ assms(1), where d = d]) (simp_all add: st)
  then have "system_runs P D 1 (idle_system g) ?y" using runs_more [OF runs_none] by simp
  moreover have "system_runs P D 2 ?y (goto Application Waiting g' ?y)"
    by (rule publish_steps) (use pub in simp_all)
  ultimately have "system_runs P D (1 + 2) (idle_system g) (goto Application Waiting g' ?y)"
    by (intro runs_trans)
  moreover have "goto Application Waiting g' ?y = idle_system g'" by (simp add: idle_system_def fun_eq_iff)
  ultimately show ?thesis by (simp add: numeral_3_eq_3)
qed

lemma publisher_run_state:
  fixes D :: "('st, 'd, 'ae) publisher_deps" and P :: "('s, 'e) publisher_persistence"
  assumes "publisher_run P D now s sock = (Inr (g, chans), s', sock')"
  shows "inner_state (wrapper g) = default_state (sync D)"
proof -
  obtain n s1 msg g0 k where "stamp_started now \<lparr>wrapper = with_sequence (sync D) n, store = s1, socket = sock\<rparr> = (msg, g0)"
    and pub: "publish P (codec D) msg g0 = (Inr k :: (('ae, 'e) publish_error, nat) result, g)"
    using assms by (auto simp: publisher_run_def split: prod.splits sum.splits)
  then show ?thesis using publish_keeps [OF pub] by (auto simp: stamp_started_def stamp_def with_sequence_def)
qed

context master_log
begin

lemma run_establishes:
  fixes D :: "('st, 'd, 'ae) publisher_deps"
  assumes C: "codec_sound (codec D)"
    and s: "invar s" "map_ok (codec D) (stored s) n" "0 \<le> n" "n < 2 ^ 63 - 3" "sent sock = []" "in_i64 now"
    and nxt: "next_sequence P s = (Inr n, s1)"
    and run: "publisher_run P D now s sock = (Inr (g, chans), s', sock')"
  shows "publisher_inv stored invar (codec D) (idle_system g) \<and>
    ((\<forall>d. dec (delta_bytes D d) = Inr d) \<longrightarrow> (\<exists>H. explains stored D dec n H (idle_system g))) \<and>
    wrapper_sequence (wrapper g) = n + 1 \<and>
    stored s \<subseteq>\<^sub>m stored (store g) \<and>
    (\<exists>m. log_of (codec D) (stored (store g)) n = Some m \<and> payload m = Some Started)"
proof -
  let ?g0 = "fresh_shared D n s1 sock" and ?m = "\<lparr>metadata = \<lparr>timestamp = now, sequence = n\<rparr>, payload = Some Started\<rparr>"
  let ?g1 = "?g0\<lparr>wrapper := (wrapper ?g0)\<lparr>wrapper_sequence := wrap_i64 (n + 1)\<rparr>\<rparr>"
  let ?y = "goto Application (Holding ?m) ?g1 (idle_system ?g0)"
  have s1: "stored s1 = stored s" "invar s1" using next_keeps [OF s(1) nxt] by auto
  have n: "in_i64 n" "wrap_i64 (n + 1) = n + 1" using s(3,4) by (auto simp: in_i64_def)
  have next0: "next_of (idle_system ?g0) = n" by simp
  have inv0: "publisher_inv stored invar (codec D) (idle_system ?g0)"
    using fresh_inv s1 s n by (metis (no_types))
  have ex0: "explains stored D dec n (\<lambda>_. None) (idle_system ?g0)"
    by (rule fresh_explains [where C = "codec D"]) (simp add: s1 s(2))
  have hold: "publisher_inv stored invar (codec D) ?y" "next_of ?y = n + 1"
    using inv_stamp [OF inv0, of ?g1 "Holding ?m" Application] s(4,6) n
    by (simp_all add: next0 wf_raw_def)
  have ex: "explains stored D dec n ((\<lambda>_. None)(n \<mapsto> ?m)) ?y"
    using explains_stamp [OF ex0 inv0, where g = ?g1 and m = ?m and r = Application] n
    by (simp add: next0 delta_in_def)
  obtain k where pub: "publish P (codec D) ?m ?g1 = (Inr k :: (('ae, 'e) publish_error, nat) result, g)"
    using run nxt
    by (auto simp: publisher_run_def stamp_started_def stamp_def fresh_shared_def with_sequence_def
        split: prod.splits sum.splits)
  have steps: "system_runs P D 2 ?y (goto Application Waiting g ?y)"
    by (rule publish_steps) (use pub in simp_all)
  have z: "goto Application Waiting g ?y = idle_system g" by (simp add: idle_system_def fun_eq_iff)
  have room: "next_of ?y + int 2 < 2 ^ 63" using s(4) hold(2) by simp
  obtain bytes u where bytes: "prost_decode (codec D) bytes = Inr ?m"
      "write_message P n now bytes s1 = (Inr u, store g)" "wrapper g = wrapper ?g1"
    using publish_Inr [OF C _ pub] s(6) n by (auto simp: wf_raw_def)
  have "stored (store g) = (stored s)(n \<mapsto> bytes)" and free: "stored s n = None"
    using write_ok [OF s1(2) bytes(2)] s1(1) by auto
  then have "log_of (codec D) (stored (store g)) n = Some ?m" "stored s \<subseteq>\<^sub>m stored (store g)"
    using bytes(1) map_le_upd [of "stored s" n, OF free] by (simp_all add: log_of_def)
  then show ?thesis
    using runs_keep [OF C steps hold(1) room] runs_explain [OF C _ steps hold(1) room] ex bytes(3) n
    unfolding z by auto
qed

end

context resumable_log
begin

lemma resumes_valid:
  assumes "invar s" "next_sequence P s = (Inr n, s')" "log_valid C (stored s)"
  shows "map_ok C (stored s) n" "0 \<le> n" "n = 0 \<or> n - 1 \<in> dom (stored s)"
proof -
  have d: "0 \<le> k \<and> k < 2 ^ 63 - 1" if "k \<in> dom (stored s)" for k
    using that assms(3) by (auto simp: log_valid_def)
  have f: "0 \<le> n \<and> (\<forall>k \<in> dom (stored s). k < n)" by (rule next_fresh [OF assms(1,2) d])
  then show "0 \<le> n" ..
  show "map_ok C (stored s) n" using assms(3) f by (fastforce simp: map_ok_def log_valid_def)
  show "n = 0 \<or> n - 1 \<in> dom (stored s)" by (rule next_tight [OF assms(1,2) d])
qed

text \<open>A publisher that restarts on its log and runs.\<close>

lemma restart_runs:
  fixes D :: "('st, 'd, 'ae) publisher_deps"
  assumes C: "codec_sound (codec D)"
    and s: "invar s" "log_valid (codec D) (stored s)" "\<And>k. k \<in> dom (stored s) \<Longrightarrow> k < 2 ^ 62"
      "sent sock = []" "in_i64 now" "k < 2 ^ 61"
    and nxt: "next_sequence P s = (Inr n, s1)"
    and run: "publisher_run P D now s sock = (Inr (g, chans), s', sock')"
    and steps: "system_runs P D k (idle_system g) z"
  shows "publisher_inv stored invar (codec D) z"
    "(\<And>d. dec (delta_bytes D d) = Inr d) \<Longrightarrow> \<exists>H. explains stored D dec n H z"
    "stored s \<subseteq>\<^sub>m stored (store_of z)" "next_of z \<le> 2 ^ 62 + 1 + int k"
proof -
  note v = resumes_valid [OF s(1) nxt s(2)]
  have n62: "n \<le> 2 ^ 62"
  proof (cases "n = 0")
    case False
    then have "n - 1 < 2 ^ 62" using v(3) s(3) by blast
    then show ?thesis by simp
  qed simp
  then have n: "n < 2 ^ 63 - 3" by simp
  note e = run_establishes [where dec = dec, OF C s(1) v(1,2) n s(4,5) nxt run]
  have start: "next_of (idle_system g) \<le> 2 ^ 62 + 1"
    using e n62 by simp
  then have room: "next_of (idle_system g) + int k < 2 ^ 63" using s(6) by simp
  note r = runs_keep [OF C steps _ room]
  show "next_of z \<le> 2 ^ 62 + 1 + int k" using r e start by (auto simp: advances_def)
  show "publisher_inv stored invar (codec D) z" using r e by blast
  show "\<exists>H. explains stored D dec n H z" if "\<And>d. dec (delta_bytes D d) = Inr d"
    using runs_explain [OF C that steps _ room] e that by blast
  show "stored s \<subseteq>\<^sub>m stored (store_of z)"
    using r e map_le_trans by (fastforce simp: advances_def)
qed

end

text \<open>Reading the invariant.\<close>

lemma publisher_inv_log:
  assumes "publisher_inv stored invar C y" "log_of C (stored (store_of y)) i = Some m"
  shows "msg_seq m = i \<and> 0 \<le> i \<and> i < next_of y \<and> wf_raw m"
  using assms by (fastforce simp: publisher_inv_def map_ok_def entry_ok_def log_of_def split: option.splits sum.splits)

lemma publisher_inv_sent:
  assumes "publisher_inv stored invar C y" "f \<in> set (sent_of y)"
  shows "\<exists>m. of_datagram C f = Some m \<and> log_of C (stored (store_of y)) (msg_seq m) = Some m"
proof -
  obtain i bytes where i: "stored (store_of y) i = Some bytes" "f = frame bytes" "length bytes \<le> MAX_PAYLOAD_SIZE"
    using assms by (auto simp: publisher_inv_def frame_stored_def)
  obtain m where m: "prost_decode C bytes = Inr m" "msg_seq m = i"
    using assms(1) i(1) by (fastforce simp: publisher_inv_def map_ok_def entry_ok_def)
  then show ?thesis using of_datagram_frame [OF i(3) m(1)] i by (auto simp: log_of_def)
qed

text \<open>Reading the history off a complete log.\<close>

lemma explains_complete:
  assumes ex: "explains stored D dec n0 H y" and inv: "publisher_inv stored invar (codec D) y"
    and all: "\<And>i. n0 \<le> i \<Longrightarrow> i < next_of y \<Longrightarrow> stored (store_of y) i \<noteq> None"
  shows "apply_all (sync D) (deltas_from dec (log_of (codec D) (stored (store_of y))) n0 (nat (next_of y - n0)))
      (default_state (sync D)) = Some (inner_state (wrapper (shared y)))"
proof -
  let ?L = "log_of (codec D) (stored (store_of y))"
  have H: "H i = ?L i \<and> ?L i \<noteq> None" if "n0 \<le> i" "i < next_of y" for i
  proof -
    from all [OF that] obtain bytes where b: "stored (store_of y) i = Some bytes" by blast
    then have "entry_ok (codec D) i bytes" using inv by (auto simp: publisher_inv_def map_ok_def)
    then have "?L i \<noteq> None" using b by (auto simp: log_of_def entry_ok_def)
    then show ?thesis using ex that(1) b unfolding explains_def by blast
  qed
  then have "\<forall>i. n0 \<le> i \<longrightarrow> i < next_of y \<longrightarrow> H i \<noteq> None" by metis
  then have "apply_all (sync D) (deltas_from dec H n0 (nat (next_of y - n0))) (default_state (sync D)) =
      Some (inner_state (wrapper (shared y)))" using ex unfolding explains_def by blast
  moreover have "deltas_from dec H n0 (nat (next_of y - n0)) = deltas_from dec ?L n0 (nat (next_of y - n0))"
    by (rule deltas_from_cong) (use H in auto)
  ultimately show ?thesis by simp
qed

end
