(* ===== verification/Publisher_Theorems.thy ===== *)
theory Publisher_Theorems
  imports Publishing
begin

text \<open>
  The properties of the publisher, with a small application as instance: its state is the
  list of bytes it was given, and it refuses the byte 0.
\<close>

section \<open>A small instance\<close>

text \<open>A codec for messages of time 0 with sequences below 256: sequence, tag, body.\<close>

definition tiny_encode :: "raw_message \<Rightarrow> (string, byte list) result" where
  "tiny_encode m =
     (if msg_ts m = 0 \<and> 0 \<le> msg_seq m \<and> msg_seq m < 256
      then Inr (word_of_int (msg_seq m) # (case payload m of
          None \<Rightarrow> []
        | Some Heartbeat \<Rightarrow> [2]
        | Some Started \<Rightarrow> [3]
        | Some (Delta d) \<Rightarrow> 4 # body d))
      else Inl ''out of range'')"

definition tiny_message :: "int \<Rightarrow> payload option \<Rightarrow> raw_message" where
  "tiny_message i p = \<lparr>metadata = \<lparr>timestamp = 0, sequence = i\<rparr>, payload = p\<rparr>"

fun tiny_decode :: "byte list \<Rightarrow> (string, raw_message) result" where
  "tiny_decode [] = Inl ''empty''"
| "tiny_decode [i] = Inr (tiny_message (uint i) None)"
| "tiny_decode (i # tag # bs) =
     (if tag = 2 then Inr (tiny_message (uint i) (Some Heartbeat))
      else if tag = 3 then Inr (tiny_message (uint i) (Some Started))
      else if tag = 4 then Inr (tiny_message (uint i) (Some (Delta \<lparr>body = bs\<rparr>)))
      else Inl ''bad tag'')"

definition tiny_codec :: "raw_message codec_deps" where
  "tiny_codec = \<lparr>prost_encode = tiny_encode, prost_decode = tiny_decode, prost_unread = drop 1,
     status_display = message, header_memory = [0, 0, 0]\<rparr>"

definition list_sync :: "(byte list, byte list, unit) state_sync" where
  "list_sync = \<lparr>default_state = [],
     apply_delta = (\<lambda>d st. if d = [0] then Ret (Inl (), st) else Ret (Inr (), st @ d))\<rparr>"

definition tiny_deps :: "(byte list, byte list, unit) publisher_deps" where
  "tiny_deps = \<lparr>sync = list_sync, delta_bytes = (\<lambda>d. d), codec = tiny_codec\<rparr>"

definition quiet_socket :: udp_socket where
  "quiet_socket = \<lparr>sent = [], send_error = (\<lambda>_. None), attempts = 0\<rparr>"

lemma tiny_simps [simp]:
  "prost_encode tiny_codec = tiny_encode" "prost_decode tiny_codec = tiny_decode" "header_ok tiny_codec"
  "sync tiny_deps = list_sync" "delta_bytes tiny_deps d = d" "codec tiny_deps = tiny_codec"
  "default_state list_sync = []"
  "apply_delta list_sync d st = (if d = [0] then Ret (Inl (), st) else Ret (Inr (), st @ d))"
  "sent quiet_socket = []" "send_error quiet_socket k = None" "attempts quiet_socket = 0"
  "wf_raw (tiny_message i p) \<longleftrightarrow> in_i64 i" "msg_seq (tiny_message i p) = i" "msg_ts (tiny_message i p) = 0"
  "payload (tiny_message i p) = p"
  by (simp_all add: tiny_codec_def tiny_deps_def list_sync_def quiet_socket_def header_ok_def codec_simps
      tiny_message_def wf_raw_def)

lemma tiny_message_eq: "msg_ts m = 0 \<Longrightarrow> m = tiny_message (msg_seq m) (payload m)"
  by (cases m) (auto simp: tiny_message_def)

lemma tiny_roundtrip: "tiny_encode m = Inr bs \<Longrightarrow> tiny_decode bs = Inr m"
  using tiny_message_eq [of m]
  by (auto simp: tiny_encode_def uint_word_of_int take_bit_int_eq_self_iff split: if_splits option.splits payload.splits)

lemma tiny_sound: "codec_sound tiny_codec"
  by (simp add: codec_sound_def tiny_roundtrip)

text \<open>The application published the byte 9 and one heartbeat after a start on an empty sqlite log.\<close>

definition empty_pool :: master_pool where
  "empty_pool = \<lparr>rows = [], faults = (\<lambda>_. None), uses = 0\<rparr>"

lemma empty_pool_simps [simp]:
  "key_ok master_id empty_pool" "table_map empty_pool = Map.empty" "log_valid C Map.empty"
  by (simp_all add: empty_pool_def key_ok_def table_map_def log_valid_def fun_eq_iff)

definition row_of :: "int \<Rightarrow> byte list \<Rightarrow> master_row" where
  "row_of i bytes = \<lparr>master_id = i, master_ts = 0, master_raw = bytes\<rparr>"

definition tiny_shared :: "byte list \<Rightarrow> int \<Rightarrow> byte list list \<Rightarrow> nat \<Rightarrow> (byte list, master_pool) shared" where
  "tiny_shared st n entries calls =
     \<lparr>wrapper = \<lparr>inner_state = st, wrapper_sequence = n\<rparr>,
      store = \<lparr>rows = map (\<lambda>k. row_of (int k) (entries ! k)) [0..<length entries], faults = (\<lambda>_. None), uses = calls\<rparr>,
      socket = quiet_socket\<lparr>sent := map frame entries, attempts := length entries\<rparr>\<rparr>"

lemma tiny_start:
  "sqlite_next_sequence empty_pool = (Inr 0, empty_pool\<lparr>uses := 2\<rparr>)"
  "publisher_run sqlite_publisher tiny_deps 0 empty_pool quiet_socket =
    (Inr (tiny_shared [] 1 [[0, 3]] 4, channel, channel), store (tiny_shared [] 1 [[0, 3]] 4),
     socket (tiny_shared [] 1 [[0, 3]] 4))"
  by (simp_all add: publisher_run_def sqlite_next_sequence_def run_statement_def use_pool_def select_last_id_def empty_pool_def stamp_started_def stamp_def with_sequence_def publish_def publish_store_def encode_empty tiny_encode_def codec_simps sqlite_write_message_def insert_row_def publish_send_def socket_send_def tiny_shared_def row_of_def in_i64_def quiet_socket_def)

lemma tiny_apply:
  "context_apply_delta sqlite_publisher tiny_deps [9] 0 (tiny_shared [] 1 [[0, 3]] 4) =
     Ret (Inr 1, tiny_shared [9] 2 [[0, 3], [1, 4, 9]] 6)"
  by (simp add: context_apply_delta_def stamp_delta_def run_statement_def use_pool_def stamp_def publish_def
      publish_store_def encode_empty tiny_encode_def codec_simps sqlite_write_message_def insert_row_def
      publish_send_def socket_send_def tiny_shared_def row_of_def in_i64_def quiet_socket_def)

lemma tiny_runs:
  "system_runs sqlite_publisher tiny_deps 3 (idle_system (tiny_shared [] 1 [[0, 3]] 4))
     (idle_system (tiny_shared [9] 2 [[0, 3], [1, 4, 9]] 6))"
  by (rule apply_delta_steps [OF _ tiny_apply]) simp

lemma tiny_shared_simps [simp]:
  "wrapper_sequence (wrapper (tiny_shared st n es c)) = n" "inner_state (wrapper (tiny_shared st n es c)) = st"
  by (simp_all add: tiny_shared_def)

lemma tiny_table:
  "table_map (store (tiny_shared [9] 2 [[0, 3], [1, 4, 9]] 6)) = [0 \<mapsto> [0, 3], 1 \<mapsto> [1, 4, 9]]"
  by (simp add: tiny_shared_def table_map_def row_of_def fun_eq_iff)

section \<open>The log and the wire\<close>

text \<open>C2: store before send, and one message per sequence. A publisher that starts on a valid
  sqlite log and then runs its application and its heartbeats in any interleaving, with any
  faults of the database and of the socket, keeps every old entry; each entry of the log is
  a message of its own sequence, below the next one; and every datagram it has sent decodes
  to the message that the log holds under that message's sequence.\<close>

theorem sent_is_stored:
  assumes "codec_sound (codec D)" and "key_ok master_id s" "log_valid (codec D) (table_map s)" "\<And>i. i \<in> dom (table_map s) \<Longrightarrow> i < 2 ^ 62"
    and "sent sock = []" "in_i64 now" "sqlite_next_sequence s = (Inr n, s1)"
    and "publisher_run sqlite_publisher D now s sock = (Inr (g, chans), s', sock')"
    and "system_runs sqlite_publisher D k (idle_system g) z" "k < 2 ^ 61"
  shows "table_map s \<subseteq>\<^sub>m table_map (store_of z) \<and>
    (\<forall>i m. log_of (codec D) (table_map (store_of z)) i = Some m \<longrightarrow> msg_seq m = i \<and> 0 \<le> i \<and> i < next_of z) \<and>
    (\<forall>f \<in> set (sent_of z). \<exists>m. of_datagram (codec D) f = Some m \<and>
      log_of (codec D) (table_map (store_of z)) (msg_seq m) = Some m)"
proof -
  note r = sqlite.restart_runs [OF assms(1-6,10) _ assms(8,9), simplified, OF assms(7)]
  show ?thesis using r(3) publisher_inv_log [OF r(1)] publisher_inv_sent [OF r(1)] by blast
qed

theorem sent_is_stored_witness:
  "(\<exists>m. of_datagram tiny_codec (frame [0, 3]) = Some m \<and>
     log_of tiny_codec [0 \<mapsto> [0, 3], 1 \<mapsto> [1, 4, 9]] (msg_seq m) = Some m) \<and>
   (\<exists>m. of_datagram tiny_codec (frame [1, 4, 9]) = Some m \<and>
     log_of tiny_codec [0 \<mapsto> [0, 3], 1 \<mapsto> [1, 4, 9]] (msg_seq m) = Some m)"
proof -
  have "sent_of (idle_system (tiny_shared [9] 2 [[0, 3], [1, 4, 9]] 6)) = [frame [0, 3], frame [1, 4, 9]]"
    by (simp add: tiny_shared_def)
  then show ?thesis
    using sent_is_stored [of tiny_deps empty_pool quiet_socket 0, OF _ _ _ _ _ _ tiny_start tiny_runs]
    by (simp add: tiny_sound tiny_table)
qed

text \<open>C9: the publisher's state is the replay of its log. If every message since the start has been
  stored, applying the deltas of the log from the first new sequence on, in order, to the
  default state gives exactly the publisher's state, whatever heartbeats lie between them.\<close>

theorem state_is_replay:
  assumes "codec_sound (codec D)" "\<And>d. dec (delta_bytes D d) = Inr d"
    and "key_ok master_id s" "log_valid (codec D) (table_map s)" "\<And>i. i \<in> dom (table_map s) \<Longrightarrow> i < 2 ^ 62"
    and "sent sock = []" "in_i64 now" "sqlite_next_sequence s = (Inr n, s1)"
    and "publisher_run sqlite_publisher D now s sock = (Inr (g, chans), s', sock')"
    and "system_runs sqlite_publisher D k (idle_system g) z" "k < 2 ^ 61"
    and "\<And>i. n \<le> i \<Longrightarrow> i < next_of z \<Longrightarrow> table_map (store_of z) i \<noteq> None"
  shows "apply_all (sync D) (deltas_from dec (log_of (codec D) (table_map (store_of z))) n (nat (next_of z - n)))
      (default_state (sync D)) = Some (inner_state (wrapper (shared z)))"
proof -
  note r = sqlite.restart_runs [OF assms(1,3-7,11) _ assms(9,10), simplified, OF assms(8)]
  show ?thesis using explains_complete [OF _ r(1)] r(2) [of dec, OF assms(2)] assms(12) by blast
qed

theorem state_is_replay_witness:
  "apply_all list_sync (deltas_from Inr (log_of tiny_codec [0 \<mapsto> [0, 3], 1 \<mapsto> [1, 4, 9]]) 0 2) [] = Some [9]"
  using state_is_replay [of tiny_deps Inr empty_pool quiet_socket 0, OF _ _ _ _ _ _ _ tiny_start tiny_runs]
  by (simp add: tiny_sound tiny_table)

lemma refused_is_lost:
  assumes C: "codec_sound (codec D)" and inv: "publisher_inv table_map (key_ok master_id) (codec D) y"
    and st: "stamp_delta D d now (shared y) = Ret (Inl err :: (('ae, sqlx_error) publish_error, raw_message) result, g)"
    and steps: "system_runs sqlite_publisher (D :: ('st, 'd, 'ae) publisher_deps) k (goto Application Waiting g y) z"
    and room: "next_of y + int k < 2 ^ 63 - 1"
  shows "lost table_map (next_of y) z"
proof -
  let ?y = "goto Application Waiting g y"
  note sd = stamp_delta_Ret [OF st]
  have "next_of y < 2 ^ 63 - 1" using room by simp
  note iy = inv_stamp [OF inv this sd(1,2), of Waiting Application]
  have y: "publisher_inv table_map (key_ok master_id) (codec D) ?y" "next_of ?y = next_of y + 1"
    using iy sd(3) by (simp_all add: next_of_def)
  have T: "tasks_ok (table_map (store_of y)) (next_of y) (task_of y)"
    and M: "map_ok (codec D) (table_map (store_of y)) (next_of y)"
    using inv by (simp_all add: publisher_inv_def)
  have "table_map (store_of y) (next_of y) = None"
    using M unfolding map_ok_def by (metis not_None_eq order_less_irrefl)
  moreover have "msg_seq m \<noteq> next_of y" if "task_of y r = Holding m" for r m
    using tasks_okD(1) [OF T that] by (simp add: held_ok_def)
  ultimately have "lost table_map (next_of y) ?y"
    using y(2) sd(1) by (simp add: lost_def store_of_def)
  then show ?thesis using sqlite.runs_keep [OF C steps y(1)] y(2) room by simp
qed

lemma failed_store_is_lost:
  assumes inv: "publisher_inv table_map (key_ok master_id) (codec D) y" and hold: "task_of y r = Holding m"
    and res: "publish_store sqlite_publisher (codec D) m (shared y) =
      (Inl err :: (('ae, sqlx_error) publish_error, byte list) result, g)"
  shows "system_step sqlite_publisher (D :: ('st, 'd, 'ae) publisher_deps) y (goto r Waiting g y)"
    "lost table_map (msg_seq m) (goto r Waiting g y)"
proof -
  show "system_step sqlite_publisher D y (goto r Waiting g y)" by (rule store_failed [OF hold res])
  have keep: "wrapper g = wrapper (shared y)" by (rule publish_store_keeps(1) [OF res])
  have "table_map (store g) = table_map (store_of y)"
    using publish_store_Inl [OF res]
  proof
    assume "g = shared y"
    then show ?thesis by (simp add: store_of_def)
  next
    assume "\<exists>bytes e. write_message sqlite_publisher (msg_seq m) (msg_ts m) bytes (store (shared y)) = (Inl e, store g) \<and>
      err = Write_Error e"
    then show ?thesis using inv sqlite.write_fails by (auto simp: publisher_inv_def store_of_def)
  qed
  moreover have "held_ok (table_map (store_of y)) (next_of y) m"
    and other: "\<And>r' m'. r' \<noteq> r \<Longrightarrow> task_of y r' = Holding m' \<Longrightarrow> msg_seq m' \<noteq> msg_seq m"
    using inv hold tasks_okD(1,3) unfolding publisher_inv_def by metis+
  ultimately show "lost table_map (msg_seq m) (goto r Waiting g y)"
    using keep by (auto simp: lost_def held_ok_def next_of_def split: if_splits)
qed

text \<open>C30: a delta that the application's state refuses costs a sequence for good. The sequence has
  been stamped before the delta is applied, so after the refusal it is neither stored nor held;
  it stays absent from the log through every further run, while the next sequence moves on
  past it.\<close>

theorem refused_delta_leaves_hole:
  assumes "codec_sound (codec D)" "publisher_inv table_map (key_ok master_id) (codec D) y"
    and "task_of y Application = Waiting"
    and "stamp_delta D d now (shared y) = Ret (Inl err :: (('ae, sqlx_error) publish_error, raw_message) result, g)"
    and "system_runs sqlite_publisher (D :: ('st, 'd, 'ae) publisher_deps) k (goto Application Waiting g y) z"
    and "next_of y + int k < 2 ^ 63 - 1"
  shows "table_map (store_of z) (next_of y) = None \<and> next_of y < next_of z"
  using refused_is_lost [OF assms(1,2,4-6)] by (simp add: lost_def)

theorem refused_delta_leaves_hole_witness:
  "table_map (store (tiny_shared [] 2 [[0, 3]] 4)) 1 = None \<and>
   stamp_delta tiny_deps [0] 0 (tiny_shared [] 1 [[0, 3]] 4) =
     Ret (Inl (Apply_Error () :: (unit, sqlx_error) publish_error), tiny_shared [] 2 [[0, 3]] 4)"
proof -
  let ?g = "tiny_shared [] 1 [[0, 3]] 4" and ?g' = "tiny_shared [] 2 [[0, 3]] 4"
  have st: "stamp_delta tiny_deps [0] 0 ?g =
      Ret (Inl (Apply_Error () :: (unit, sqlx_error) publish_error), ?g')"
    by (simp add: stamp_delta_def stamp_def tiny_shared_def in_i64_def)
  have "publisher_inv table_map (key_ok master_id) tiny_codec (idle_system ?g)"
    by (rule sqlite.restart_runs(1) [where D = tiny_deps and k = 0, simplified, OF tiny_sound])
      (use tiny_start in auto)
  from refused_delta_leaves_hole [of tiny_deps "idle_system ?g" "[0]" 0 "Apply_Error ()" ?g' 0
      "goto Application Waiting ?g' (idle_system ?g)"] this st
  show ?thesis by (simp add: tiny_sound runs_none)
qed

section \<open>One operation\<close>

text \<open>C23: a successful \<open>apply_delta\<close> does all of its job. It returns the sequence it stamped, the
  state is the old one with the delta applied, the next sequence is one further, the log has
  gained exactly the message with the delta's bytes under that sequence, and exactly its
  frame has been sent.\<close>

theorem apply_delta_publishes:
  assumes "codec_sound (codec D)" "key_ok master_id (store g)" "in_i64 now" "in_i64 (wrapper_sequence (wrapper g))"
    and "context_apply_delta sqlite_publisher D d now g = Ret (Inr i :: (('ae, sqlx_error) publish_error, int) result, g')"
  shows "i = wrapper_sequence (wrapper g) \<and> wrapper_sequence (wrapper g') = wrap_i64 (i + 1) \<and>
    apply_delta (sync (D :: ('st, 'd, 'ae) publisher_deps)) d (inner_state (wrapper g)) =
      Ret (Inr (), inner_state (wrapper g')) \<and>
    (\<exists>bytes. prost_decode (codec D) bytes = Inr \<lparr>metadata = \<lparr>timestamp = now, sequence = i\<rparr>,
        payload = Some (Delta \<lparr>body = delta_bytes D d\<rparr>)\<rparr> \<and>
      table_map (store g') = (table_map (store g))(i \<mapsto> bytes) \<and>
      sent (socket g') = sent (socket g) @ [frame bytes])"
proof -
  obtain m g1 k where st: "stamp_delta D d now g = Ret (Inr m :: (('ae, sqlx_error) publish_error, raw_message) result, g1)"
    and pub: "publish sqlite_publisher (codec D) m g1 = (Inr k :: (('ae, sqlx_error) publish_error, nat) result, g')"
    and i: "i = msg_seq m"
    using assms(5) by (rule context_apply_delta_Inr)
  note sd = stamp_delta_Ret [OF st] and sm = stamp_delta_message [OF st]
  have "wf_raw m" using sm(1) assms(3,4) by (simp add: wf_raw_def)
  then obtain bytes u where b: "prost_decode (codec D) bytes = Inr m"
      "write_message sqlite_publisher (msg_seq m) (msg_ts m) bytes (store g1) = (Inr u, store g')"
      "wrapper g' = wrapper g1" "sent (socket g') = sent (socket g1) @ [frame bytes]"
    using publish_Inr [OF assms(1) _ pub] by blast
  have "key_ok master_id (store g1)" using assms(2) sd(1) by simp
  from sqlite.write_ok [OF this b(2)] show ?thesis using b sd sm i by auto
qed

theorem apply_delta_publishes_witness:
  "\<exists>bytes. tiny_decode bytes = Inr (tiny_message 1 (Some (Delta \<lparr>body = [9]\<rparr>))) \<and>
    table_map (store (tiny_shared [9] 2 [[0, 3], [1, 4, 9]] 6)) =
      (table_map (store (tiny_shared [] 1 [[0, 3]] 4)))(1 \<mapsto> bytes)"
proof -
  have "key_ok master_id (store (tiny_shared [] 1 [[0, 3]] 4))"
    by (simp add: tiny_shared_def key_ok_def)
  from apply_delta_publishes [OF _ this _ _ tiny_apply] show ?thesis
    by (auto simp: tiny_sound in_i64_def tiny_message_def)
qed

text \<open>C31: an oversized delta is applied but never published. When the message of a delta that the
  state accepts encodes to more than 1397 bytes, the call fails with the size, yet the
  publisher's state has changed and the sequence is used up, while the log and the socket
  are untouched: the publisher has moved where no subscriber can follow.\<close>

theorem oversized_delta_diverges:
  assumes "header_ok (codec D)" "apply_delta (sync D) d (inner_state (wrapper g)) = Ret (Inr (), st)"
    and "prost_encode (codec D) \<lparr>metadata = \<lparr>timestamp = now, sequence = wrapper_sequence (wrapper g)\<rparr>,
      payload = Some (Delta \<lparr>body = delta_bytes D d\<rparr>)\<rparr> = Inr bytes"
    and "1397 < length bytes"
  shows "context_apply_delta P D d now g =
    Ret (Inl (Encode_Error (status_internal (''Message too large: '' @ show_nat (length bytes)))),
      g\<lparr>wrapper := \<lparr>inner_state = st, wrapper_sequence = wrap_i64 (wrapper_sequence (wrapper g) + 1)\<rparr>\<rparr>)"
  using assms
  by (simp add: context_apply_delta_def stamp_delta_def stamp_def publish_def publish_store_def encode_empty codec_simps)

theorem oversized_delta_diverges_witness:
  "context_apply_delta sqlite_publisher tiny_deps (replicate 1396 7) 0 (tiny_shared [] 1 [[0, 3]] 4) =
    Ret (Inl (Encode_Error (status_internal (''Message too large: '' @ show_nat 1398))),
      tiny_shared (replicate 1396 7) 2 [[0, 3]] 4)"
proof -
  have "replicate 1396 (7 :: byte) \<noteq> [0]" by (auto dest: arg_cong [of _ _ length])
  moreover have "tiny_encode \<lparr>metadata = \<lparr>timestamp = 0, sequence = 1\<rparr>,
      payload = Some (Delta \<lparr>body = replicate 1396 7\<rparr>)\<rparr> = Inr (1 # 4 # replicate 1396 7)"
    by (simp add: tiny_encode_def)
  ultimately show ?thesis
    using oversized_delta_diverges [of tiny_deps "replicate 1396 7" "tiny_shared [] 1 [[0, 3]] 4"
        "replicate 1396 7" 0 "1 # 4 # replicate 1396 7" sqlite_publisher]
    by (simp add: tiny_shared_def in_i64_def)
qed

text \<open>C32: the first publish of a restart on the in-memory store is refused. With anything stored,
  \<open>run\<close> fails with the existing sequence (unless the encoding itself fails), sends nothing
  and leaves the store as it is.\<close>

theorem mock_restart_fails:
  assumes "bt_ok s" "s \<noteq> []" "header_ok (codec D)" "bt_max_key s = Some n"
    and "prost_encode (codec D) \<lparr>metadata = \<lparr>timestamp = now, sequence = n\<rparr>, payload = Some Started\<rparr> = Inr bytes"
    and "length bytes \<le> 1397"
  shows "publisher_run mock_publisher D now s sock =
    (Inl (Started_Error (Write_Error (Sequence_Exists n))), s, sock)"
proof -
  obtain v where "bt_get s n = Some v" using bt_max_key_Some [OF assms(4)] by auto
  then show ?thesis using assms
    by (simp add: publisher_run_def mock_next_sequence_def stamp_started_def stamp_def with_sequence_def
        publish_def publish_store_def encode_empty codec_simps mock_write_message_def)
qed

theorem mock_restart_fails_witness:
  "publisher_run mock_publisher tiny_deps 0 [(0, [0, 3]), (1, [1, 2])] quiet_socket =
    (Inl (Started_Error (Write_Error (Sequence_Exists 1))), [(0, [0, 3]), (1, [1, 2])], quiet_socket)"
  using mock_restart_fails [of "[(0, [0, 3]), (1, [1, 2])]" tiny_deps 1 0 "[1, 3]" quiet_socket]
  by (simp add: bt_max_key_def tiny_encode_def)

section \<open>Heartbeats and shutdown\<close>

lemma heartbeat_keeps:
  "wrapper_sequence (wrapper (heartbeat P C now g)) = wrap_i64 (wrapper_sequence (wrapper g) + 1)"
  "inner_state (wrapper (heartbeat P C now g)) = inner_state (wrapper g)"
proof -
  let ?m = "fst (stamp_heartbeat now g)" and ?g1 = "snd (stamp_heartbeat now g)"
  obtain r g2 where p: "publish P C ?m ?g1 = (r :: ((unit, _) publish_error, nat) result, g2)" by fastforce
  have "wrapper g2 = wrapper ?g1"
    by (rule publish_keeps [OF p])
  moreover have "heartbeat P C now g = g2" using p by (simp add: heartbeat_def case_prod_beta)
  ultimately show "wrapper_sequence (wrapper (heartbeat P C now g)) = wrap_i64 (wrapper_sequence (wrapper g) + 1)"
    "inner_state (wrapper (heartbeat P C now g)) = inner_state (wrapper g)"
    by (simp_all add: stamp_heartbeat_eq)
qed

text \<open>The heartbeat loop sends until it is told to stop. It ends at the first turn whose poll of
  the destructor says so; it has stamped one sequence per turn before that, whether or not the
  heartbeats could be published, and has not touched the application's state.\<close>

theorem heartbeat_loop_counts:
  assumes "in_i64 (wrapper_sequence (wrapper g))" "heartbeat_run P C turns g = (ended, g')"
  shows "ended = (\<exists>turn \<in> set turns. fst (should_destruct (fst turn))) \<and>
    wrapper_sequence (wrapper g') = wrap_i64 (wrapper_sequence (wrapper g) +
      int (length (takeWhile (\<lambda>turn. \<not> fst (should_destruct (fst turn))) turns))) \<and>
    inner_state (wrapper g') = inner_state (wrapper g)"
  using assms
proof (induction turns arbitrary: g)
  case Nil
  then show ?case by simp
next
  case (Cons turn turns)
  obtain rx now where turn: "turn = (rx, now)" by fastforce
  show ?case
  proof (cases "fst (should_destruct rx)")
    case True
    then show ?thesis using Cons.prems turn by simp
  next
    case False
    then have "heartbeat_run P C turns (heartbeat P C now g) = (ended, g')" using Cons.prems(2) turn by simp
    from Cons.IH [OF _ this] show ?thesis using False turn
      by (simp add: heartbeat_keeps add.assoc add.commute [of 1])
  qed
qed

theorem heartbeat_loop_counts_witness:
  "wrapper_sequence (wrapper (snd (heartbeat_run sqlite_publisher tiny_codec
      [(channel, 0), (channel, 0), (channel\<lparr>sender_alive := False\<rparr>, 0), (channel, 0)]
      (tiny_shared [] 1 [[0, 3]] 4)))) = 3"
  using heartbeat_loop_counts [of "tiny_shared [] 1 [[0, 3]] 4" sqlite_publisher tiny_codec
      "[(channel, 0), (channel, 0), (channel\<lparr>sender_alive := False\<rparr>, 0), (channel, 0)]", OF _ prod.collapse [symmetric]]
  by (simp add: in_i64_def channel_def should_destruct_def try_recv_def)

text \<open>Dropping the context stops the tasks. While the context lives and nothing is queued, the
  heartbeat loop is not told to stop and the recovery server's destructor is pending; after
  the drop the loop is told to stop at its next poll and the destructor of a running recovery
  server completes without its panic.\<close>

theorem drop_stops_tasks:
  assumes "sender_alive hb" "queued hb = 0" "sender_alive rec" "queued rec = 0"
  shows "\<not> fst (should_destruct hb) \<and> destruct_future rec = Pending \<and>
    fst (should_destruct (fst (context_drop (hb, rec)))) \<and>
    (receiver_alive rec \<longrightarrow>
      (\<exists>rx. destruct_future (snd (context_drop (hb, rec))) = Ret (Inr (), rx)))"
  using assms
  by (auto simp: should_destruct_def try_recv_def destruct_future_def context_drop_def channel_send_def)

theorem drop_stops_tasks_witness:
  "fst (should_destruct (fst (context_drop (channel, channel)))) \<and>
   (\<exists>rx. destruct_future (snd (context_drop (channel, channel))) = Ret (Inr (), rx))"
  using drop_stops_tasks [of channel channel] by (simp add: channel_def)

end
