(* ===== verification/Recovery.thy ===== *)
theory Recovery
  imports Publishing Sequencing
begin

text \<open>
  \<open>publisher/recovery.rs\<close> and the server of \<open>generated/recovery.rs\<close>: the recovery service that
  answers from the publisher's persistence, and what a subscriber's client sees of it.
\<close>

section \<open>The service\<close>

definition recovery_decode :: "raw_message codec_deps \<Rightarrow> byte list \<Rightarrow> (status, raw_message) result" where
  "recovery_decode C bytes = map_err status_internal (prost_decode C bytes)"

definition recovery_decode_result ::
  "raw_message codec_deps \<Rightarrow> (status, byte list) result \<Rightarrow> (status, raw_message) result" where
  "recovery_decode_result C bytes = and_then bytes (recovery_decode C)"

definition recovery_get_message ::
  "('s, 'e) publisher_persistence \<Rightarrow> raw_message codec_deps \<Rightarrow> sequence_request \<Rightarrow> 's \<Rightarrow>
   (status, raw_message) result \<times> 's" where
  "recovery_get_message P C inner s =
     (case read_sequence P (sequence_id inner) s of
        (Inr bytes, s') \<Rightarrow> (recovery_decode C bytes, s')
      | (Inl e, s') \<Rightarrow> (Inl (into_status P e), s'))"

definition recovery_stream_from ::
  "('s, 'e) publisher_persistence \<Rightarrow> raw_message codec_deps \<Rightarrow> sequence_request \<Rightarrow> 's \<Rightarrow>
   (status, (status, raw_message) result list) result \<times> 's" where
  "recovery_stream_from P C inner s =
     (case stream_from_sequence P (sequence_id inner) s of
        (Inr bytes_stream, s') \<Rightarrow> (Inr (map (recovery_decode_result C) bytes_stream), s')
      | (Inl e, s') \<Rightarrow> (Inl (into_status P e), s'))"

text \<open>\<open>RecoveryApiServer::call\<close>: dispatch on the path of the request; other paths are answered with
  status 12.\<close>

datatype recovery_response =
  Unary "(status, raw_message) result"
| Server_Streaming "(status, (status, raw_message) result list) result"
| Grpc_Status nat

definition recovery_server_call ::
  "('s, 'e) publisher_persistence \<Rightarrow> raw_message codec_deps \<Rightarrow> string \<Rightarrow> sequence_request \<Rightarrow> 's \<Rightarrow>
   recovery_response \<times> 's" where
  "recovery_server_call P C path req s =
     (if path = ''/recovery.RecoveryApi/GetMessage'' then
        let (r, s') = recovery_get_message P C req s in (Unary r, s')
      else if path = ''/recovery.RecoveryApi/StreamFrom'' then
        let (r, s') = recovery_stream_from P C req s in (Server_Streaming r, s')
      else (Grpc_Status 12, s))"

text \<open>
  \<open>run\<close>: the server runs until it exits by itself (the first argument, when it does) or the
  destructor fires; pending until then.
\<close>

definition recovery_run :: "'x option \<Rightarrow> destructor \<Rightarrow> unit run" where
  "recovery_run server_exit rx =
     (case server_exit of
        Some _ \<Rightarrow> Ret ()
      | None \<Rightarrow> run_bind (destruct_future rx) (\<lambda>_. Ret ()))"

text \<open>
  The generated client. \<open>tonic::client::Grpc\<close> over a channel is a parameter: at a moment, the error of
  \<open>ready()\<close> (as text), and what the calls \<open>unary\<close> and \<open>server_streaming\<close> return for a path and a
  request.
\<close>

record grpc_channel =
  grpc_ready :: "nat \<Rightarrow> (string, unit) result"
  grpc_unary :: "nat \<Rightarrow> string \<Rightarrow> sequence_request \<Rightarrow> (status, raw_message) result"
  grpc_streaming :: "nat \<Rightarrow> string \<Rightarrow> sequence_request \<Rightarrow> (status, (status, raw_message) result list) result"

definition not_ready :: "string \<Rightarrow> status" where
  "not_ready e = \<lparr>code = Unknown, message = ''Service was not ready: '' @ e\<rparr>"

definition client_get_message :: "grpc_channel \<Rightarrow> nat \<Rightarrow> sequence_request \<Rightarrow> (status, raw_message) result" where
  "client_get_message ch t q =
     and_then (map_err not_ready (grpc_ready ch t)) (\<lambda>_. grpc_unary ch t ''/recovery.RecoveryApi/GetMessage'' q)"

definition client_stream_from ::
  "grpc_channel \<Rightarrow> nat \<Rightarrow> sequence_request \<Rightarrow> (status, (status, raw_message) result list) result" where
  "client_stream_from ch t q =
     and_then (map_err not_ready (grpc_ready ch t)) (\<lambda>_. grpc_streaming ch t ''/recovery.RecoveryApi/StreamFrom'' q)"

definition recovery_api_client :: "grpc_channel \<Rightarrow> recovery_client" where
  "recovery_api_client ch = \<lparr>rpc_get_message = client_get_message ch, rpc_stream_from = client_stream_from ch\<rparr>"

section \<open>What the service answers\<close>

lemma recovery_decode_Inr: "recovery_decode C bytes = Inr m \<longleftrightarrow> prost_decode C bytes = Inr m"
  by (simp add: recovery_decode_def run_simps)

context master_log
begin

lemma get_message_logged:
  assumes "invar s" "recovery_get_message P C q s = (Inr m, s')"
  shows "log_of C (stored s) (sequence_id q) = Some m"
proof -
  obtain r s1 where r: "read_sequence P (sequence_id q) s = (r, s1)" by fastforce
  then obtain bytes where b: "r = Inr bytes" "prost_decode C bytes = Inr m"
    using assms(2) by (cases r) (auto simp: recovery_get_message_def recovery_decode_Inr)
  then show ?thesis using read_ok [OF assms(1)] r by (auto simp: log_of_def)
qed

lemma stream_from_logged:
  assumes "invar s" "recovery_stream_from P C q s = (Inr items, s')"
  shows "\<exists>ks. sorted_wrt (<) ks \<and> set ks = {k \<in> dom (stored s). sequence_id q \<le> k} \<and>
    items = map (\<lambda>k. recovery_decode C (the (stored s k))) ks"
proof -
  obtain r s1 where r: "stream_from_sequence P (sequence_id q) s = (r, s1)" by fastforce
  then obtain bs where b: "r = Inr bs" "items = map (recovery_decode_result C) bs"
    using assms(2) by (cases r) (auto simp: recovery_stream_from_def)
  obtain ks where ks: "sorted_wrt (<) ks" "set ks = {k \<in> dom (stored s). sequence_id q \<le> k}"
      "bs = map (\<lambda>k. Inr (the (stored s k))) ks"
    using stream_ok [OF assms(1)] r b(1) by blast
  then have "items = map (\<lambda>k. recovery_decode C (the (stored s k))) ks"
    by (simp add: b(2) recovery_decode_result_def)
  with ks(1,2) show ?thesis by blast
qed

end

section \<open>The client's view\<close>

text \<open>
  A client is served from the stores that the publisher goes through: each answer is the
  service's answer on the store of that moment, or an error of the transport; a stream can
  break off with an error.
\<close>

definition cut_short :: "(status, raw_message) result list \<Rightarrow> (status, raw_message) result list \<Rightarrow> bool" where
  "cut_short items whole \<longleftrightarrow> (\<exists>n. items = take n whole \<or> (\<exists>e. items = take n whole @ [Inl e]))"

definition served ::
  "('s, 'e) publisher_persistence \<Rightarrow> raw_message codec_deps \<Rightarrow> (nat \<Rightarrow> 's) \<Rightarrow> recovery_client \<Rightarrow> bool" where
  "served P C store_at cl \<longleftrightarrow> (\<forall>t q.
     (\<forall>m. rpc_get_message cl t q = Inr m \<longrightarrow> fst (recovery_get_message P C q (store_at t)) = Inr m) \<and>
     (\<forall>items. rpc_stream_from cl t q = Inr items \<longrightarrow>
        (\<exists>whole. fst (recovery_stream_from P C q (store_at t)) = Inr whole \<and> cut_short items whole)))"

text \<open>A channel that carries the requests to a server over these stores, and its answers back.\<close>

definition carries ::
  "('s, 'e) publisher_persistence \<Rightarrow> raw_message codec_deps \<Rightarrow> (nat \<Rightarrow> 's) \<Rightarrow> grpc_channel \<Rightarrow> bool" where
  "carries P C store_at ch \<longleftrightarrow> (\<forall>t path q.
     (\<forall>m. grpc_unary ch t path q = Inr m \<longrightarrow> fst (recovery_server_call P C path q (store_at t)) = Unary (Inr m)) \<and>
     (\<forall>items. grpc_streaming ch t path q = Inr items \<longrightarrow>
        (\<exists>whole. fst (recovery_server_call P C path q (store_at t)) = Server_Streaming (Inr whole) \<and>
          cut_short items whole)))"

lemma paths_differ: "''/recovery.RecoveryApi/StreamFrom'' \<noteq> ''/recovery.RecoveryApi/GetMessage''"
  by simp

lemma server_call_get:
  "fst (recovery_server_call P C ''/recovery.RecoveryApi/GetMessage'' q s) = Unary (fst (recovery_get_message P C q s))"
  unfolding recovery_server_call_def if_P [OF refl] Let_def
  by (cases "recovery_get_message P C q s") (simp only: prod.case fst_conv)

lemma server_call_stream:
  "fst (recovery_server_call P C ''/recovery.RecoveryApi/StreamFrom'' q s) =
    Server_Streaming (fst (recovery_stream_from P C q s))"
  unfolding recovery_server_call_def if_P [OF refl] if_not_P [OF paths_differ] Let_def
  by (cases "recovery_stream_from P C q s") (simp only: prod.case fst_conv)

lemma client_get_Inr:
  assumes "client_get_message ch t q = Inr m"
  shows "grpc_unary ch t ''/recovery.RecoveryApi/GetMessage'' q = Inr m"
  using assms unfolding client_get_message_def and_then_Inr_iff by (elim exE conjE)

lemma client_stream_Inr:
  assumes "client_stream_from ch t q = Inr items"
  shows "grpc_streaming ch t ''/recovery.RecoveryApi/StreamFrom'' q = Inr items"
  using assms unfolding client_stream_from_def and_then_Inr_iff by (elim exE conjE)

lemma recovery_api_client_simps [simp]:
  "rpc_get_message (recovery_api_client ch) = client_get_message ch"
  "rpc_stream_from (recovery_api_client ch) = client_stream_from ch"
  by (simp_all add: recovery_api_client_def)

text \<open>The client asks on the paths that the server dispatches on.\<close>

lemma carries_served:
  assumes "carries P C store_at ch"
  shows "served P C store_at (recovery_api_client ch)"
  unfolding served_def
proof (intro allI conjI impI)
  fix t q
  show "fst (recovery_get_message P C q (store_at t)) = Inr m" if "rpc_get_message (recovery_api_client ch) t q = Inr m" for m
  proof -
    note got = client_get_Inr [OF that [unfolded recovery_api_client_simps]]
    have "fst (recovery_server_call P C ''/recovery.RecoveryApi/GetMessage'' q (store_at t)) = Unary (Inr m)"
      by (rule assms [unfolded carries_def, rule_format, THEN conjunct1, rule_format, OF got])
    then show ?thesis unfolding server_call_get by (rule recovery_response.inject(1) [THEN iffD1])
  qed
  show "\<exists>whole. fst (recovery_stream_from P C q (store_at t)) = Inr whole \<and> cut_short items whole"
    if "rpc_stream_from (recovery_api_client ch) t q = Inr items" for items
  proof -
    note got = client_stream_Inr [OF that [unfolded recovery_api_client_simps]]
    obtain whole where "fst (recovery_server_call P C ''/recovery.RecoveryApi/StreamFrom'' q (store_at t)) =
        Server_Streaming (Inr whole)" "cut_short items whole"
      using assms [unfolded carries_def, rule_format, THEN conjunct2, rule_format, OF got] by (elim exE conjE)
    then show ?thesis unfolding server_call_stream recovery_response.inject(2) by (intro exI conjI)
  qed
qed

lemma cut_short_in: "cut_short items whole \<Longrightarrow> Inr m \<in> set items \<Longrightarrow> Inr m \<in> set whole"
  by (auto simp: cut_short_def dest: in_set_takeD)

lemma log_of_mono: "M \<subseteq>\<^sub>m M' \<Longrightarrow> log_of C M i = Some m \<Longrightarrow> log_of C M' i = Some m"
  by (auto simp: log_of_def map_le_def dom_def split: option.splits)

context master_log
begin

text \<open>What the client receives is in the log of any later store.\<close>

lemma served_in_log:
  assumes "served P C store_at cl" "\<And>t. invar (store_at t)" "\<And>t. stored (store_at t) \<subseteq>\<^sub>m M"
    and self: "\<And>i m. log_of C M i = Some m \<Longrightarrow> msg_seq m = i"
  shows "client_in_log (log_of C M) cl"
proof -
  have logged: "in_log (log_of C M) m" if "log_of C (stored (store_at t)) i = Some m" for t i m
    using log_of_mono [OF assms(3) that] self by (auto simp: in_log_def)
  have get: "in_log (log_of C M) m" if "rpc_get_message cl t q = Inr m" for t q m
  proof -
    have "fst (recovery_get_message P C q (store_at t)) = Inr m" using assms(1) that by (auto simp: served_def)
    then show ?thesis using get_message_logged [OF assms(2)] logged by (metis prod.collapse)
  qed
  have "in_log (log_of C M) m" if "rpc_stream_from cl t q = Inr items" "Inr m \<in> set items" for t q items m
  proof -
    from assms(1) that(1) obtain whole
      where w: "fst (recovery_stream_from P C q (store_at t)) = Inr whole" "cut_short items whole"
      unfolding served_def by blast
    obtain s' where call: "recovery_stream_from P C q (store_at t) = (Inr whole, s')"
      using w(1) by (metis prod.collapse)
    have "Inr m \<in> set whole" by (rule cut_short_in [OF w(2) that(2)])
    moreover obtain ks where ks: "set ks = {k \<in> dom (stored (store_at t)). sequence_id q \<le> k}"
        "whole = map (\<lambda>k. recovery_decode C (the (stored (store_at t) k))) ks"
      using stream_from_logged [OF assms(2) call] by blast
    ultimately have "Inr m \<in> (\<lambda>k. recovery_decode C (the (stored (store_at t) k))) ` set ks"
      by (simp only: set_map)
    then obtain k where k: "k \<in> set ks" "recovery_decode C (the (stored (store_at t) k)) = Inr m"
      by (elim imageE) (rule that, simp_all only:)
    then obtain bytes where "stored (store_at t) k = Some bytes" using ks(1) by blast
    then have "stored (store_at t) k = Some bytes" "prost_decode C bytes = Inr m"
      using k(2) by (simp_all add: recovery_decode_Inr)
    then show ?thesis using logged [of t k] by (simp add: log_of_def)
  qed
  with get show ?thesis by (auto simp: client_in_log_def items_in_log_def)
qed


end

end
