(* ===== verification/Replication.thy ===== *)
theory Replication
  imports Subscriber_Theorems Publisher_Theorems Recovery
begin

text \<open>
  Publisher, recovery service and subscriber together: what the socket and the service of a
  subscriber carry comes from the publisher's log, so the guarantees of the sequencer are
  guarantees about the publisher's messages; and replaying what was delivered gives the
  publisher's state.
\<close>

section \<open>The subscriber's environment\<close>

text \<open>The publisher \<open>z\<close> grew out of a start that left \<open>g\<close>; \<open>store_at t\<close> is the store at some moment.\<close>

definition grew_from ::
  "('st, 'd, 'ae) publisher_deps \<Rightarrow> ('st, master_pool) shared \<Rightarrow> ('st, master_pool) system \<Rightarrow> master_pool \<Rightarrow> bool" where
  "grew_from D g z s \<longleftrightarrow> (\<exists>a b y. system_runs sqlite_publisher D a (idle_system g) y \<and>
     system_runs sqlite_publisher D b y z \<and> a + b < 2 ^ 61 \<and> s = store_of y)"

text \<open>The recovery client of a sequencer reaches the publisher's service.\<close>

definition recovers_from ::
  "('st, 'd, 'ae) publisher_deps \<Rightarrow> (nat \<Rightarrow> master_pool) \<Rightarrow> message_sequencer \<Rightarrow> bool" where
  "recovers_from D store_at sq \<longleftrightarrow>
     (\<exists>ch. carries sqlite_publisher (codec D) store_at ch \<and> recovery_client sq = recovery_api_client ch)"

text \<open>A new sequencer whose datagrams are the publisher's and whose client the publisher serves.\<close>

definition attached ::
  "('st, 'd, 'ae) publisher_deps \<Rightarrow> (nat \<Rightarrow> master_pool) \<Rightarrow> ('st, master_pool) system \<Rightarrow> message_sequencer \<Rightarrow> bool" where
  "attached D store_at z sq \<longleftrightarrow> recovers_from D store_at sq \<and>
     (\<forall>m. Datagram m \<in> set (udp_framed sq) \<longrightarrow> (\<exists>f \<in> set (sent_of z). of_datagram (codec D) f = Some m)) \<and>
     heap sq = mm_new \<and> recovery_stream sq = None \<and> in_i64 (want_sequence sq)"

lemma recovers_from_served:
  "recovers_from D store_at sq \<Longrightarrow> served sqlite_publisher (codec D) store_at (recovery_client sq)"
  unfolding recovers_from_def using carries_served by metis

text \<open>A publisher started on a valid log.\<close>

definition started ::
  "('st, 'd, 'ae) publisher_deps \<Rightarrow> master_pool \<Rightarrow> int \<Rightarrow> ('st, master_pool) shared \<Rightarrow> bool" where
  "started D s n g \<longleftrightarrow>
     key_ok master_id s \<and> log_valid (codec D) (table_map s) \<and> (\<forall>i \<in> dom (table_map s). i < 2 ^ 62) \<and>
     (\<exists>s1. sqlite_next_sequence s = (Inr n, s1)) \<and>
     (\<exists>now sock chans s' sock'. in_i64 now \<and> sent sock = [] \<and>
        publisher_run sqlite_publisher D now s sock = (Inr (g, chans), s', sock'))"

abbreviation publisher_log :: "('st, 'd, 'ae) publisher_deps \<Rightarrow> ('st, master_pool) system \<Rightarrow> log" where
  "publisher_log D z \<equiv> log_of (codec D) (table_map (store_of z))"

lemma started_runs:
  assumes C: "codec_sound (codec D)" and st: "started D s n g"
    and steps: "system_runs sqlite_publisher D k (idle_system g) z" "k < 2 ^ 61"
  shows "publisher_inv table_map (key_ok master_id) (codec D) z"
    "(\<And>d. dec (delta_bytes D d) = Inr d) \<Longrightarrow> \<exists>H. explains table_map D dec n H z"
    "next_of z \<le> 2 ^ 62 + 1 + int k"
proof -
  obtain s1 now sock chans s' sock' where
    s: "key_ok master_id s" "log_valid (codec D) (table_map s)" "\<And>i. i \<in> dom (table_map s) \<Longrightarrow> i < 2 ^ 62"
      "sent sock = []" "in_i64 now"
    and nxt: "next_sequence sqlite_publisher s = (Inr n, s1)"
    and run: "publisher_run sqlite_publisher D now s sock = (Inr (g, chans), s', sock')"
    using st unfolding started_def sqlite_ops by blast
  note r = sqlite.restart_runs [OF C s steps(2) nxt run steps(1)]
  show "publisher_inv table_map (key_ok master_id) (codec D) z" by (rule r(1))
  show "next_of z \<le> 2 ^ 62 + 1 + int k" by (rule r(4))
  show "(\<And>d. dec (delta_bytes D d) = Inr d) \<Longrightarrow> \<exists>H. explains table_map D dec n H z" by (rule r(2))
qed

lemma started_first:
  assumes C: "codec_sound (codec D)" and st: "started D s n g"
  shows "0 \<le> n" "n \<le> 2 ^ 62" "next_of (idle_system g) = n + 1"
    "publisher_inv table_map (key_ok master_id) (codec D) (idle_system g)"
    "\<exists>m. log_of (codec D) (table_map (store g)) n = Some m \<and> payload m = Some Started"
proof -
  obtain s1 now sock chans s' sock' where
    s: "key_ok master_id s" "log_valid (codec D) (table_map s)" "\<And>i. i \<in> dom (table_map s) \<Longrightarrow> i < 2 ^ 62"
      "sent sock = []" "in_i64 now"
    and nxt: "next_sequence sqlite_publisher s = (Inr n, s1)"
    and run: "publisher_run sqlite_publisher D now s sock = (Inr (g, chans), s', sock')"
    using st unfolding started_def sqlite_ops by blast
  note v = sqlite.resumes_valid [OF s(1) nxt s(2)]
  show "0 \<le> n" by (rule v(2))
  show n: "n \<le> 2 ^ 62" using v(3) s(3) by force
  then have "n < 2 ^ 63 - 3" by simp
  note e = sqlite.run_establishes [where dec = "\<lambda>_. undefined", OF C s(1) v(1,2) this s(4,5) nxt run]
  show "next_of (idle_system g) = n + 1"
    "publisher_inv table_map (key_ok master_id) (codec D) (idle_system g)"
    "\<exists>m. log_of (codec D) (table_map (store g)) n = Some m \<and> payload m = Some Started" using e by simp_all
qed

lemma started_next:
  assumes C: "codec_sound (codec D)" and st: "started D s n g"
    and steps: "system_runs sqlite_publisher D k (idle_system g) z" "k < 2 ^ 61"
  shows "0 \<le> n" "n < next_of z" "table_map (store g) \<subseteq>\<^sub>m table_map (store_of z)"
proof -
  note f = started_first [OF C st]
  have room: "next_of (idle_system g) + int k < 2 ^ 63" using f(2,3) steps(2) by simp
  note keep = sqlite.runs_keep [OF C steps(1) f(4) room]
  show "0 \<le> n" by (rule f(1))
  show "n < next_of z" "table_map (store g) \<subseteq>\<^sub>m table_map (store_of z)"
    using keep f(3) by (auto simp: advances_def)
qed

lemma grew_store:
  assumes C: "codec_sound (codec D)" and st: "started D s n g" and grew: "grew_from D g z s'"
  shows "key_ok master_id s'" "table_map s' \<subseteq>\<^sub>m table_map (store_of z)"
    "publisher_inv table_map (key_ok master_id) (codec D) z" "next_of z < 2 ^ 63 - 1"
proof -
  obtain a b y where y: "system_runs sqlite_publisher D a (idle_system g) y"
      "system_runs sqlite_publisher D b y z" "a + b < 2 ^ 61" "s' = store_of y"
    using grew unfolding grew_from_def by blast
  have a: "a < 2 ^ 61" using y(3) by simp
  note iy = started_runs [OF C st y(1) a] and iz = started_runs [OF C st runs_trans [OF y(2,1)] y(3)]
  show "publisher_inv table_map (key_ok master_id) (codec D) z" by (rule iz)
  show "next_of z < 2 ^ 63 - 1" using iz(3) y(3) by simp
  show "key_ok master_id s'" using iy(1) y(4) by (simp add: publisher_inv_def)
  show "table_map s' \<subseteq>\<^sub>m table_map (store_of z)"
    using sqlite.runs_keep [OF C y(2) iy(1)] iy(3) y(3,4) by (simp add: advances_def)
qed

lemma publisher_log_ok:
  assumes "publisher_inv table_map (key_ok master_id) (codec D) z" "next_of z < 2 ^ 63 - 1"
  shows "log_ok (publisher_log D z)"
  using publisher_inv_log [OF assms(1)] assms(2) by (fastforce simp: log_ok_def)

lemma attached_authentic:
  assumes C: "codec_sound (codec D)" and st: "started D s n g" and grew: "\<And>t. grew_from D g z (store_at t)"
    and att: "attached D store_at z sq"
  shows "authentic (publisher_log D z) sq" "sq_inv sq"
proof -
  have inv: "publisher_inv table_map (key_ok master_id) (codec D) z"
    using grew_store(3) [OF C st grew] .
  have "client_in_log (publisher_log D z) (recovery_client sq)"
    by (rule sqlite.served_in_log [where store_at = store_at])
      (use att recovers_from_served grew_store [OF C st grew] publisher_inv_log [OF inv] in \<open>auto simp: attached_def\<close>)
  moreover have "in_log (publisher_log D z) m" if "Datagram m \<in> set (udp_framed sq)" for m
  proof -
    from that att obtain f where "f \<in> set (sent_of z)" "of_datagram (codec D) f = Some m"
      by (auto simp: attached_def)
    then show ?thesis using publisher_inv_sent [OF inv] by (fastforce simp: in_log_def)
  qed
  ultimately show "authentic (publisher_log D z) sq" using att by (simp add: authentic_def attached_def)
  show "sq_inv sq" using att by (simp add: sq_inv_def attached_def)
qed

section \<open>Deltas delivered\<close>

fun delivered_delta :: "datetime \<times> 'd subscriber_stream_message \<Rightarrow> 'd option" where
  "delivered_delta (st, SDelta d) = Some d"
| "delivered_delta (st, _) = None"

text \<open>The deltas that a consumer reads from its items.\<close>

definition received_deltas :: "'d stream_item list \<Rightarrow> 'd list" where
  "received_deltas rs = List.map_filter delivered_delta (delivered rs)"

lemma log_entry_payload:
  assumes "log_entry deps m = Some x"
  shows "delivered_delta x = delta_in (delta_decode deps) (Some m)"
proof -
  obtain p where p: "payload m = Some p" "parse_payload deps p = Inr (snd x)"
    using assms
    by (cases "payload m"; cases "ns_to_datetime deps (msg_ts m)"; cases "and_then (ok_or Missing_Payload (payload m)) (parse_payload deps)")
      (auto simp: log_entry_def try_parse_def)
  obtain st q where x: "x = (st, q)" by fastforce
  show ?thesis
  proof (cases p)
    case (Delta d)
    then show ?thesis using p x
      by (cases "delta_decode deps (body d)") (auto simp: delta_in_def parse_payload_def)
  qed (use p x in \<open>auto simp: delta_in_def parse_payload_def\<close>)
qed

lemma map_filter_cong_on:
  "(\<And>j. j \<in> set xs \<Longrightarrow> f j = g j) \<Longrightarrow> List.map_filter f xs = List.map_filter g xs"
  by (induction xs) (auto simp: List.map_filter_def)

lemma received_deltas_log:
  assumes par: "parsable L deps" and all: "\<And>j. j < k \<Longrightarrow> L (w + int j) \<noteq> None"
    and del: "delivered rs = map (\<lambda>j. the (log_entry deps (the (L (w + int j))))) [0..<k]"
  shows "received_deltas rs = deltas_from (delta_decode deps) L w k"
proof -
  have "delivered_delta (the (log_entry deps (the (L (w + int j))))) = delta_in (delta_decode deps) (L (w + int j))"
    if "j < k" for j
  proof -
    from all [OF that] obtain m where m: "L (w + int j) = Some m" by blast
    then have "log_entry deps m \<noteq> None" using par unfolding parsable_def by blast
    then show ?thesis using log_entry_payload m by fastforce
  qed
  then have "List.map_filter (\<lambda>j. delivered_delta (the (log_entry deps (the (L (w + int j)))))) [0..<k] =
      List.map_filter (\<lambda>j. delta_in (delta_decode deps) (L (w + int j))) [0..<k]"
    by (intro map_filter_cong_on) auto
  then show ?thesis
    by (simp add: received_deltas_def deltas_from_def del List.map_filter_def comp_def filter_map)
qed

text \<open>Replaying what was delivered up to the publisher's next sequence gives the publisher's state.\<close>

lemma replica_agrees:
  assumes "codec_sound (codec D)" "\<And>d. delta_decode deps (delta_bytes D d) = Inr d"
    and "started D s n g" "\<And>t. grew_from D g z (store_at t)"
    and "attached D store_at z sq" "parsable (publisher_log D z) deps"
    and "into_stream deps k sq c = (rs, Ret (sq', c'))"
    and "want_sequence sq = n" "want_sequence sq' = next_of z"
  shows "apply_all (sync D) (received_deltas rs) (default_state (sync D)) = Some (inner_state (wrapper (shared z)))"
proof -
  note inv = grew_store(3,4) [OF assms(1,3,4)]
  from in_order_prefix [OF publisher_log_ok [OF inv] assms(6) attached_authentic [OF assms(1,3-5)] assms(7)]
  obtain j where j: "delivered rs = map (\<lambda>i. the (log_entry deps (the (publisher_log D z (n + int i))))) [0..<j]"
      "\<And>i. i < j \<Longrightarrow> publisher_log D z (n + int i) \<noteq> None" "next_of z = n + int j"
    using assms(8,9) by auto
  obtain a b y where y: "system_runs sqlite_publisher D a (idle_system g) y"
      "system_runs sqlite_publisher D b y z" "a + b < 2 ^ 61"
    using assms(4) unfolding grew_from_def by blast
  obtain H where H: "explains table_map D (delta_decode deps) n H z"
    using started_runs(2) [OF assms(1,3) runs_trans [OF y(2,1)] y(3) assms(2)] by blast
  have all: "table_map (store_of z) i \<noteq> None" if "n \<le> i" "i < next_of z" for i
  proof -
    have "publisher_log D z (n + int (nat (i - n))) \<noteq> None" using that j(3) by (intro j(2)) simp
    then show ?thesis using that(1) by (auto simp: log_of_def split: option.splits)
  qed
  show ?thesis
    using explains_complete [OF H inv(1) all] received_deltas_log [OF assms(6) j(2,1)] j(3) by simp
qed

section \<open>Recovery of a lost sequence\<close>

lemma served_hole:
  assumes C: "codec_sound C" and served: "served sqlite_publisher C store_at cl"
    and st: "\<And>t. key_ok master_id (store_at t)" "\<And>t. table_map (store_at t) w = None"
    and self: "\<And>t i m. log_of C (table_map (store_at t)) i = Some m \<Longrightarrow> msg_seq m = i"
  shows "cannot_supply cl w"
proof -
  have "msg_seq m \<noteq> w" if "rpc_get_message cl t \<lparr>sequence_id = w\<rparr> = Inr m" for t m
  proof -
    have "fst (recovery_get_message sqlite_publisher C \<lparr>sequence_id = w\<rparr> (store_at t)) = Inr m"
      using served that by (auto simp: served_def)
    then have "log_of C (table_map (store_at t)) w = Some m"
      using sqlite.get_message_logged [OF st(1)] by (metis prod.collapse sequence_request.select_convs(1))
    then show ?thesis using st(2) by (simp add: log_of_def)
  qed
  moreover have "msg_seq m \<noteq> w" if "rpc_stream_from cl t \<lparr>sequence_id = w\<rparr> = Inr (Inr m # items)" for t m items
  proof -
    from that served obtain whole
      where w: "fst (recovery_stream_from sqlite_publisher C \<lparr>sequence_id = w\<rparr> (store_at t)) = Inr whole"
        "cut_short (Inr m # items) whole"
      unfolding served_def by blast
    obtain s' where call: "recovery_stream_from sqlite_publisher C \<lparr>sequence_id = w\<rparr> (store_at t) = (Inr whole, s')"
      using w(1) by (metis prod.collapse)
    obtain ks where ks: "set ks = {k \<in> dom (table_map (store_at t)). w \<le> k}"
        "whole = map (\<lambda>k. recovery_decode C (the (table_map (store_at t) k))) ks"
      using sqlite.stream_from_logged [OF st(1) call] by auto
    have "Inr m \<in> set whole" by (rule cut_short_in [OF w(2)]) simp
    then have "Inr m \<in> (\<lambda>k. recovery_decode C (the (table_map (store_at t) k))) ` set ks"
      by (simp only: ks(2) set_map)
    then obtain k where k: "k \<in> set ks" "recovery_decode C (the (table_map (store_at t) k)) = Inr m"
      by (elim imageE) (rule that, simp_all only:)
    then obtain bytes where b: "table_map (store_at t) k = Some bytes" using ks(1) by blast
    then have "msg_seq m = k" using k(2) self [of t k m] by (simp add: recovery_decode_Inr log_of_def)
    moreover have "k \<noteq> w" using b st(2) [of t] by auto
    ultimately show ?thesis by simp
  qed
  ultimately show ?thesis by (simp add: cannot_supply_def)
qed

end
