(* ===== verification/Replication_Theorems.thy ===== *)
theory Replication_Theorems
  imports Replication
begin

text \<open>
  The properties of the recovery service, and of a publisher and a subscriber together, with
  the small application of the publisher and the small clock of the subscriber as instance.
\<close>

section \<open>The recovery service\<close>

text \<open>On a healthy store whose entries decode.\<close>

lemma log_of_valid:
  assumes "log_valid C M"
  shows "M k = Some bytes \<Longrightarrow> \<exists>m. prost_decode C bytes = Inr m \<and> log_of C M k = Some m" "dom (log_of C M) = dom M"
proof -
  have dec: "\<exists>m. prost_decode C bytes = Inr m \<and> log_of C M k = Some m" if "M k = Some bytes" for k bytes
    using assms that by (fastforce simp: log_valid_def entry_ok_def log_of_def)
  then show "M k = Some bytes \<Longrightarrow> \<exists>m. prost_decode C bytes = Inr m \<and> log_of C M k = Some m" .
  show "dom (log_of C M) = dom M"
  proof (intro equalityI subsetI)
    show "k \<in> dom M" if "k \<in> dom (log_of C M)" for k
      using that by (auto simp: log_of_def split: option.splits)
    show "k \<in> dom (log_of C M)" if "k \<in> dom M" for k
      using that dec by (metis domD domI)
  qed
qed

lemma get_message_healthy:
  assumes "key_ok master_id s" "log_valid C (table_map s)" "faults s = (\<lambda>_. None)"
  shows "fst (recovery_get_message sqlite_publisher C \<lparr>sequence_id = i\<rparr> s) =
    (case log_of C (table_map s) i of Some m \<Rightarrow> Inr m | None \<Rightarrow> Inl (status_internal ''sqlx error''))"
proof (cases "table_map s i")
  case None
  then have "fst (sqlite_read_sequence i s) = Inl Row_Not_Found"
    using sqlite_read_healthy [OF assms(1,3), of i] by simp
  then show ?thesis using None
    by (cases "sqlite_read_sequence i s")
      (simp add: recovery_get_message_def log_of_def sql_error_status_def sql_error_display_def)
next
  case (Some bytes)
  then have "fst (sqlite_read_sequence i s) = Inr bytes"
    using sqlite_read_healthy [OF assms(1,3), of i] by simp
  then show ?thesis using log_of_valid(1) [OF assms(2) Some]
    by (cases "sqlite_read_sequence i s") (auto simp: recovery_get_message_def recovery_decode_def)
qed

lemma stream_from_healthy:
  assumes "key_ok master_id s" "log_valid C (table_map s)" "faults s = (\<lambda>_. None)"
  shows "\<exists>ks. sorted_wrt (<) ks \<and> set ks = {k \<in> dom (log_of C (table_map s)). i \<le> k} \<and>
    fst (recovery_stream_from sqlite_publisher C \<lparr>sequence_id = i\<rparr> s) =
      Inr (map (\<lambda>k. Inr (the (log_of C (table_map s) k))) ks)"
proof -
  obtain items s1 where "sqlite_stream_from_sequence i s = (Inr items, s1)"
    using sqlite_stream_healthy [OF assms(3), of i] by (metis prod.collapse)
  then obtain whole where call: "recovery_stream_from sqlite_publisher C \<lparr>sequence_id = i\<rparr> s = (Inr whole, s1)"
    by (simp add: recovery_stream_from_def)
  obtain ks where ks: "sorted_wrt (<) ks" "set ks = {k \<in> dom (table_map s). i \<le> k}"
      "whole = map (\<lambda>k. recovery_decode C (the (table_map s k))) ks"
    using sqlite.stream_from_logged [OF assms(1) call] by auto
  have "recovery_decode C (the (table_map s k)) = Inr (the (log_of C (table_map s) k))" if "k \<in> set ks" for k
    using that ks(2) log_of_valid(1) [OF assms(2), of k] by (auto simp: recovery_decode_Inr)
  then have "whole = map (\<lambda>k. Inr (the (log_of C (table_map s) k))) ks" using ks(3) by simp
  then show ?thesis using ks(1,2) call log_of_valid(2) [OF assms(2)] by (intro exI [of _ ks]) simp
qed

text \<open>C20: the recovery server answers from the log, and from nothing else. On a healthy sqlite store
  whose entries decode, the path of \<open>GetMessage\<close> gives the log's message, or the status of a
  missing row; the path of \<open>StreamFrom\<close> gives exactly the log's messages from the sequence
  on, in order; any other path gives the status 12 (unimplemented).\<close>

theorem recovery_answers_log:
  assumes "key_ok master_id s" "log_valid C (table_map s)" "faults s = (\<lambda>_. None)"
  shows "fst (recovery_server_call sqlite_publisher C ''/recovery.RecoveryApi/GetMessage'' \<lparr>sequence_id = i\<rparr> s) =
      Unary (case log_of C (table_map s) i of
        Some m \<Rightarrow> Inr m | None \<Rightarrow> Inl (status_internal ''sqlx error'')) \<and>
    (\<exists>ks. sorted_wrt (<) ks \<and> set ks = {k \<in> dom (log_of C (table_map s)). i \<le> k} \<and>
      fst (recovery_server_call sqlite_publisher C ''/recovery.RecoveryApi/StreamFrom'' \<lparr>sequence_id = i\<rparr> s) =
        Server_Streaming (Inr (map (\<lambda>k. Inr (the (log_of C (table_map s) k))) ks))) \<and>
    (path \<noteq> ''/recovery.RecoveryApi/GetMessage'' \<longrightarrow> path \<noteq> ''/recovery.RecoveryApi/StreamFrom'' \<longrightarrow>
      fst (recovery_server_call sqlite_publisher C path q s) = Grpc_Status 12)"
  unfolding server_call_get server_call_stream
proof (intro conjI impI)
  show "Unary (fst (recovery_get_message sqlite_publisher C \<lparr>sequence_id = i\<rparr> s)) =
      Unary (case log_of C (table_map s) i of Some m \<Rightarrow> Inr m | None \<Rightarrow> Inl (status_internal ''sqlx error''))"
    by (rule arg_cong) (rule get_message_healthy [OF assms])
  show "\<exists>ks. sorted_wrt (<) ks \<and> set ks = {k \<in> dom (log_of C (table_map s)). i \<le> k} \<and>
      Server_Streaming (fst (recovery_stream_from sqlite_publisher C \<lparr>sequence_id = i\<rparr> s)) =
        Server_Streaming (Inr (map (\<lambda>k. Inr (the (log_of C (table_map s) k))) ks))"
    unfolding recovery_response.inject by (rule stream_from_healthy [OF assms])
  show "fst (recovery_server_call sqlite_publisher C path q s) = Grpc_Status 12"
    if "path \<noteq> ''/recovery.RecoveryApi/GetMessage''" "path \<noteq> ''/recovery.RecoveryApi/StreamFrom''"
    unfolding recovery_server_call_def if_not_P [OF that(1)] if_not_P [OF that(2)] by simp
qed

abbreviation tiny_final :: "(byte list, master_pool) system" where
  "tiny_final \<equiv> idle_system (tiny_shared [9] 2 [[0, 3], [1, 4, 9]] 6)"

lemma tiny_store [simp]:
  "faults (store (tiny_shared st n es c)) = (\<lambda>_. None)"
  "key_ok master_id (store (tiny_shared st n [[0, 3], [1, 4, 9]] c))"
  by (simp_all add: tiny_shared_def key_ok_def row_of_def)

lemma tiny_log:
  "log_of tiny_codec [0 \<mapsto> [0, 3], 1 \<mapsto> [1, 4, 9]] =
    [0 \<mapsto> tiny_message 0 (Some Started), 1 \<mapsto> tiny_message 1 (Some (Delta \<lparr>body = [9]\<rparr>))]"
  by (rule ext) (simp add: log_of_def)

lemma tiny_log_valid: "log_valid tiny_codec [0 \<mapsto> [0, 3], 1 \<mapsto> [1, 4, 9]]"
  by (simp add: log_valid_def entry_ok_def in_i64_def)

theorem recovery_answers_log_witness:
  "fst (recovery_server_call sqlite_publisher tiny_codec ''/recovery.RecoveryApi/GetMessage'' \<lparr>sequence_id = 1\<rparr>
      (store_of tiny_final)) = Unary (Inr (tiny_message 1 (Some (Delta \<lparr>body = [9]\<rparr>)))) \<and>
   fst (recovery_server_call sqlite_publisher tiny_codec ''/recovery.RecoveryApi/GetMessage'' \<lparr>sequence_id = 5\<rparr>
      (store_of tiny_final)) = Unary (Inl (status_internal ''sqlx error''))"
proof -
  have s: "key_ok master_id (store_of tiny_final)" "faults (store_of tiny_final) = (\<lambda>_. None)"
      "log_valid tiny_codec (table_map (store_of tiny_final))"
    using tiny_log_valid by (simp_all add: tiny_table)
  from recovery_answers_log [OF s(1,3,2), of 1, THEN conjunct1]
    recovery_answers_log [OF s(1,3,2), of 5, THEN conjunct1]
  show ?thesis by (simp only: idle_system_simps tiny_table tiny_log) (simp only: fun_upd_apply, simp)
qed

section \<open>Publisher and subscriber\<close>

text \<open>C8: a subscriber follows its publisher. A publisher is started on a valid sqlite log and runs its
  application and heartbeats in any interleaving and with any faults. A new sequencer hears
  only datagrams that this publisher has sent (any of them lost, repeated, reordered), and its
  generated client reaches the publisher's recovery server at any moments of that run. Then
  whatever the subscriber's consumer reads are consecutive entries of the publisher's log from
  the wanted sequence on, none skipped and none twice.\<close>

theorem subscriber_follows_publisher:
  assumes "codec_sound (codec D)" "started D s n g" "\<And>t. grew_from D g z (store_at t)"
    and "attached D store_at z sq" "parsable (publisher_log D z) deps" "into_stream deps k sq c = (rs, fin)"
  shows "\<exists>j. delivered rs =
      map (\<lambda>i. the (log_entry deps (the (publisher_log D z (want_sequence sq + int i))))) [0..<j] \<and>
    (\<forall>i<j. publisher_log D z (want_sequence sq + int i) \<noteq> None) \<and>
    (\<forall>sq' c'. fin = Ret (sq', c') \<longrightarrow> want_sequence sq' = want_sequence sq + int j)"
  using in_order_prefix [OF publisher_log_ok [OF grew_store(3,4) [OF assms(1-3)]] assms(5)
      attached_authentic [OF assms(1-4)] assms(6)]
  by blast

text \<open>A channel that is always ready and carries everything to a server over one store.\<close>

definition direct_channel :: "master_pool \<Rightarrow> grpc_channel" where
  "direct_channel s = \<lparr>grpc_ready = (\<lambda>t. Inr ()),
     grpc_unary = (\<lambda>t path q. case fst (recovery_server_call sqlite_publisher tiny_codec path q s) of
       Unary r \<Rightarrow> r | _ \<Rightarrow> Inl (status_internal ''unexpected'')),
     grpc_streaming = (\<lambda>t path q. case fst (recovery_server_call sqlite_publisher tiny_codec path q s) of
       Server_Streaming r \<Rightarrow> r | _ \<Rightarrow> Inl (status_internal ''unexpected''))\<rparr>"

lemma direct_carries: "carries sqlite_publisher tiny_codec (\<lambda>t. s) (direct_channel s)"
proof -
  have "items = take (length items) items" for items :: "(status, raw_message) result list" by simp
  then have "cut_short items items" for items unfolding cut_short_def by blast
  then show ?thesis
    unfolding carries_def direct_channel_def grpc_channel.simps
    by (auto split: recovery_response.splits)
qed

text \<open>A subscriber of the small publisher: it hears the delta before the start, and its client's channel
  answers with the service's answers.\<close>

definition tiny_subscriber :: message_sequencer where
  "tiny_subscriber = fst (sequencer_new
     [Datagram (tiny_message 1 (Some (Delta \<lparr>body = [9]\<rparr>))), Datagram (tiny_message 0 (Some Started))]
     (recovery_api_client (direct_channel (store_of tiny_final))) 0 10 (demo_clock 0))"

lemma tiny_subscriber_simps [simp]:
  "recovery_client tiny_subscriber = recovery_api_client (direct_channel (store_of tiny_final))"
  "udp_framed tiny_subscriber =
     [Datagram (tiny_message 1 (Some (Delta \<lparr>body = [9]\<rparr>))), Datagram (tiny_message 0 (Some Started))]"
  "heap tiny_subscriber = mm_new" "recovery_stream tiny_subscriber = None"
  "sequence_timeout tiny_subscriber = 10" "want_sequence tiny_subscriber = 0" "\<not> connected tiny_subscriber"
  by (simp_all add: tiny_subscriber_def sequencer_new_def demo_clock_def)

lemma tiny_started: "started tiny_deps empty_pool 0 (tiny_shared [] 1 [[0, 3]] 4)"
  unfolding started_def using tiny_start by (auto intro!: exI [of _ 0] exI [of _ quiet_socket])

lemma tiny_grew: "grew_from tiny_deps (tiny_shared [] 1 [[0, 3]] 4) tiny_final (store_of tiny_final)"
  unfolding grew_from_def
  by (intro exI conjI, rule tiny_runs, rule runs_none) simp_all

lemma tiny_attached: "attached tiny_deps (\<lambda>t. store_of tiny_final) tiny_final tiny_subscriber"
proof -
  have frames: "of_datagram tiny_codec (frame [0, 3]) = Some (tiny_message 0 (Some Started))"
    "of_datagram tiny_codec (frame [1, 4, 9]) = Some (tiny_message 1 (Some (Delta \<lparr>body = [9]\<rparr>)))"
    by (rule of_datagram_frame, simp_all add: codec_simps)+
  show ?thesis using direct_carries frames
    by (auto simp: attached_def recovers_from_def tiny_shared_def)
qed

lemma tiny_parsable: "parsable (publisher_log tiny_deps tiny_final) demo_deps"
proof -
  have "ns_to_datetime demo_deps 0 = Ret 0"
    by (rule ns_to_datetime_exact [OF demo_chrono]) simp_all
  then have "log_entry demo_deps (tiny_message 0 (Some Started)) = Some (0, SStarted)"
    "log_entry demo_deps (tiny_message 1 (Some (Delta \<lparr>body = [9]\<rparr>))) = Some (0, SDelta [9])"
    by (simp_all add: log_entry_def try_parse_def parse_payload_def demo_deps_def)
  then show ?thesis by (auto simp: parsable_def tiny_table tiny_log split: if_splits)
qed

lemma tiny_stream:
  "\<exists>rs sq' c'. into_stream demo_deps 2 tiny_subscriber (demo_clock 5) = (rs, Ret (sq', c')) \<and>
     (\<forall>r \<in> set rs. from_udp r) \<and> want_sequence sq' = 2"
proof -
  note att = attached_authentic [OF _ tiny_started tiny_grew tiny_attached]
  have ok: "log_ok (publisher_log tiny_deps tiny_final)"
    by (rule publisher_log_ok [OF grew_store(3,4) [OF _ tiny_started tiny_grew]]) (simp_all add: tiny_sound)
  have "calm tiny_subscriber (demo_clock 5)"
    by (auto simp: calm_def demo_clock_def mm_new_def mm_items_def)
  moreover have "want_sequence tiny_subscriber + int j \<in> heard tiny_subscriber" if "j < 2" for j
  proof -
    have "j = 0 \<or> j = 1" using that by arith
    then show ?thesis by (auto simp: heard_def intro: exI [of _ "tiny_message (int j) _"])
  qed
  ultimately show ?thesis
    using calm_stream [OF ok tiny_parsable att, of "demo_clock 5" 2] by (auto simp: tiny_sound)
qed

theorem subscriber_follows_publisher_witness:
  "\<exists>j. delivered (fst (into_stream demo_deps 2 tiny_subscriber (demo_clock 5))) =
      map (\<lambda>i. the (log_entry demo_deps (the (publisher_log tiny_deps tiny_final (0 + int i))))) [0..<j]"
  using subscriber_follows_publisher [OF _ tiny_started tiny_grew tiny_attached tiny_parsable prod.collapse [symmetric],
      of 2 "demo_clock 5"]
  by (auto simp: tiny_sound)

text \<open>A subscriber that has caught up has the publisher's state. It started at the publisher's first
  new sequence and now waits for the sequence that the publisher will stamp next; then applying
  the deltas that its consumer read, in order, to the default state gives exactly the state that
  the publisher's application sees, however the messages arrived and however often the recovery
  service had to help.\<close>

theorem caught_up_replica_agrees:
  assumes "codec_sound (codec D)" "\<And>d. delta_decode deps (delta_bytes D d) = Inr d"
    and "started D s n g" "\<And>t. grew_from D g z (store_at t)"
    and "attached D store_at z sq" "parsable (publisher_log D z) deps"
    and "into_stream deps k sq c = (rs, Ret (sq', c'))"
    and "want_sequence sq = n" "want_sequence sq' = next_of z"
  shows "apply_all (sync D) (received_deltas rs) (default_state (sync D)) = Some (inner_state (wrapper (shared z)))"
  using assms by (rule replica_agrees)

theorem caught_up_replica_agrees_witness:
  "\<exists>rs sq' c'. into_stream demo_deps 2 tiny_subscriber (demo_clock 5) = (rs, Ret (sq', c')) \<and>
     apply_all list_sync (received_deltas rs) [] = Some [9]"
  using tiny_stream caught_up_replica_agrees [OF _ _ tiny_started tiny_grew tiny_attached tiny_parsable]
  by (fastforce simp: tiny_sound demo_deps_def)

text \<open>C16: one lost message stops every subscriber for good. A sequence is lost when it has been stamped
  but is neither stored nor held by a task any more: after a delta that the state refuses, a
  message too large to encode, or a failed write, a heartbeat's included. The publisher goes on
  stamping, storing and sending. A subscriber that waits for the lost sequence, past its deadline
  and with later messages in its buffer, asks the publisher's recovery server for a message that is
  in no store, at whatever moments of the run it asks: every further item of its stream is an error,
  and it never moves.\<close>

theorem lost_message_blocks_subscriber:
  assumes "codec_sound (codec D)" "started D s n g0"
    and "system_runs sqlite_publisher D a (idle_system g0) y" "lost table_map w y"
    and "system_runs sqlite_publisher (D :: ('st, 'd, 'ae) publisher_deps) b y z" "a + b < 2 ^ 61"
    and "\<And>t. grew_from D g0 z (store_at t)" "recovers_from D store_at sq"
    and "sq_inv sq" "want_sequence sq = w" "overdue sq c" "\<And>i. last_deadline sq < instant_at c i"
  shows "\<exists>es c'. into_stream deps k sq c = (map Inl es, Ret (sq, c')) \<and> length es = k"
proof -
  have a: "a < 2 ^ 61" using assms(6) by simp
  note y = started_runs(1,3) [OF assms(1-3) a]
  have lost: "lost table_map w z"
    using sqlite.runs_keep [OF assms(1,5) y(1)] y(2) assms(4,6) by simp
  have no: "table_map (store_at t) w = None" for t
    using grew_store(2) [OF assms(1,2) assms(7) [of t]] lost
    by (metis lost_def map_le_def domIff)
  have self: "msg_seq m = i" if "log_of (codec D) (table_map (store_at t)) i = Some m" for t i m
    using log_of_mono [OF grew_store(2) [OF assms(1,2) assms(7) [of t]] that]
      publisher_inv_log [OF grew_store(3) [OF assms(1,2) assms(7) [of t]]] by simp
  have "cannot_supply (recovery_client sq) w"
    by (rule served_hole [OF assms(1) recovers_from_served [OF assms(8)] grew_store(1) [OF assms(1,2,7)] no self])
  then show ?thesis using stuck_stream [OF assms(9,12,11)] assms(10) by simp
qed

text \<open>The small publisher refuses the delta 0, which costs it the sequence 1, then publishes the delta 9
  under 2. The subscriber has read 0, has 2 in its buffer and is past its deadline.\<close>

definition holed_shared :: "(byte list, master_pool) shared" where
  "holed_shared = \<lparr>wrapper = \<lparr>inner_state = [9], wrapper_sequence = 3\<rparr>,
     store = \<lparr>rows = [row_of 0 [0, 3], row_of 2 [2, 4, 9]], faults = (\<lambda>_. None), uses = 6\<rparr>,
     socket = quiet_socket\<lparr>sent := [frame [0, 3], frame [2, 4, 9]], attempts := 2\<rparr>\<rparr>"

lemma holed_refuses:
  "stamp_delta tiny_deps [0] 0 (tiny_shared [] 1 [[0, 3]] 4) =
     Ret (Inl (Apply_Error () :: (unit, sqlx_error) publish_error), tiny_shared [] 2 [[0, 3]] 4)"
  by (simp add: stamp_delta_def stamp_def tiny_shared_def in_i64_def)

lemma holed_apply:
  "context_apply_delta sqlite_publisher tiny_deps [9] 0 (tiny_shared [] 2 [[0, 3]] 4) = Ret (Inr 2, holed_shared)"
  by (simp add: context_apply_delta_def stamp_delta_def run_statement_def use_pool_def stamp_def publish_def
      publish_store_def encode_empty tiny_encode_def codec_simps sqlite_write_message_def insert_row_def
      publish_send_def socket_send_def tiny_shared_def holed_shared_def row_of_def in_i64_def quiet_socket_def)

lemma holed_step:
  "system_step sqlite_publisher tiny_deps (idle_system (tiny_shared [] 1 [[0, 3]] 4))
     (goto Application Waiting (tiny_shared [] 2 [[0, 3]] 4) (idle_system (tiny_shared [] 1 [[0, 3]] 4)))"
  by (rule delta_refused [where d = "[0]" and now = 0]) (simp_all add: holed_refuses)

lemma holed_idle:
  "goto Application Waiting (tiny_shared [] 2 [[0, 3]] 4) (idle_system (tiny_shared [] 1 [[0, 3]] 4)) =
     idle_system (tiny_shared [] 2 [[0, 3]] 4)"
  by (simp add: idle_system_def fun_eq_iff)

lemma holed_runs:
  "system_runs sqlite_publisher tiny_deps 3 (idle_system (tiny_shared [] 2 [[0, 3]] 4)) (idle_system holed_shared)"
  by (rule apply_delta_steps [OF _ holed_apply]) simp

lemma holed_first:
  "system_runs sqlite_publisher tiny_deps 1 (idle_system (tiny_shared [] 1 [[0, 3]] 4))
     (idle_system (tiny_shared [] 2 [[0, 3]] 4))"
  using runs_more [OF runs_none holed_step] unfolding holed_idle by simp

lemma holed_grew: "grew_from tiny_deps (tiny_shared [] 1 [[0, 3]] 4) (idle_system holed_shared) (store holed_shared)"
  using runs_trans [OF holed_runs holed_first] unfolding grew_from_def
  by (intro exI [of _ "1 + 3"] exI [of _ 0] exI [of _ "idle_system holed_shared"]) (simp add: runs_none)

definition holed_subscriber :: message_sequencer where
  "holed_subscriber = tiny_subscriber\<lparr>recovery_client := recovery_api_client (direct_channel (store holed_shared)), udp_framed := [],
     connected := True, want_sequence := 1, last_deadline := 10,
     heap := mm_push (Reverse (received_message_new 0 (tiny_message 2 (Some (Delta \<lparr>body = [9]\<rparr>))) Udp)) mm_new\<rparr>"

lemma holed_lost: "lost table_map 1 (idle_system (tiny_shared [] 2 [[0, 3]] 4))"
proof -
  have "publisher_inv table_map (key_ok master_id) (codec tiny_deps) (idle_system (tiny_shared [] 1 [[0, 3]] 4))"
    by (rule started_runs(1) [OF _ tiny_started runs_none]) (simp_all add: tiny_sound)
  from refused_is_lost [OF _ this, of "[0]" 0 "Apply_Error ()" "tiny_shared [] 2 [[0, 3]] 4" 0] holed_refuses
  show ?thesis unfolding holed_idle by (simp add: tiny_sound runs_none)
qed

theorem lost_message_blocks_subscriber_witness:
  "\<exists>es c'. into_stream demo_deps 9 holed_subscriber (demo_clock 20) = (map Inl es, Ret (holed_subscriber, c')) \<and>
     length es = 9"
proof (rule lost_message_blocks_subscriber [where D = tiny_deps and store_at = "\<lambda>t. store holed_shared"
      and y = "idle_system (tiny_shared [] 2 [[0, 3]] 4)" and z = "idle_system holed_shared" and a = 1 and b = 3
      and w = 1])
  show "recovers_from tiny_deps (\<lambda>t. store holed_shared) holed_subscriber"
    using direct_carries by (auto simp: recovers_from_def holed_subscriber_def)
qed (use holed_grew tiny_started holed_first holed_lost holed_runs in
    \<open>simp_all add: tiny_sound in_i64_def holed_subscriber_def sq_inv_def mm.push_invar overdue_def late_def
      mm.push_items demo_clock_def\<close>)

end
