(* ===== verification/Past_States.thy ===== *)
theory Past_States
  imports Replication_Theorems
begin

text \<open>
  What a replica shows while it is still behind: a state the publisher's application was in.
\<close>

section \<open>The states a publisher went through\<close>

text \<open>The publisher \<open>z\<close> that a start left at \<open>g\<close> passed through \<open>y\<close>.\<close>

definition passed ::
  "('st, 'd, 'ae) publisher_deps \<Rightarrow> ('st, master_pool) shared \<Rightarrow> ('st, master_pool) system \<Rightarrow> ('st, master_pool) system \<Rightarrow> bool" where
  "passed D g z y \<longleftrightarrow> (\<exists>a b. system_runs sqlite_publisher D a (idle_system g) y \<and>
     system_runs sqlite_publisher D b y z \<and> a + b < 2 ^ 61)"

text \<open>
  On every run that leads from \<open>g\<close> to \<open>z\<close> (and there is one) the application's state was \<open>st\<close> whenever
  the next sequence was \<open>w\<close>.
\<close>

definition past_state ::
  "('st, 'd, 'ae) publisher_deps \<Rightarrow> ('st, master_pool) shared \<Rightarrow> ('st, master_pool) system \<Rightarrow> int \<Rightarrow> 'st \<Rightarrow> bool" where
  "past_state D g z w st \<longleftrightarrow> (\<exists>y. passed D g z y \<and> next_of y = w) \<and>
     (\<forall>y. passed D g z y \<longrightarrow> next_of y = w \<longrightarrow> inner_state (wrapper (shared y)) = st)"

lemma grew_passed: "grew_from D g z s \<longleftrightarrow> (\<exists>y. passed D g z y \<and> s = store_of y)"
  unfolding grew_from_def passed_def by blast

lemma state_passed:
  assumes C: "codec_sound (codec D)" and dec: "\<And>d. dec (delta_bytes D d) = Inr d" and st: "started D s n g"
    and y: "passed D g z y" "next_of y = n + int k"
    and all: "\<And>i. i < k \<Longrightarrow> publisher_log D z (n + int i) \<noteq> None"
  shows "apply_all (sync D) (deltas_from dec (publisher_log D z) n k) (default_state (sync D)) =
    Some (inner_state (wrapper (shared y)))"
proof -
  obtain a b where runs: "system_runs sqlite_publisher D a (idle_system g) y" "system_runs sqlite_publisher D b y z"
      "a + b < 2 ^ 61" using y(1) unfolding passed_def by blast
  then have a: "a < 2 ^ 61" by simp
  note sy = started_runs [OF C st runs(1) a]
  obtain H where H: "explains table_map D dec n H y" using sy(2) [OF dec] by blast
  have "next_of y + int b < 2 ^ 63" using sy(3) runs(3) by simp
  from sqlite.runs_history [OF C dec runs(2) sy(1) this H]
  obtain H' where H': "explains table_map D dec n H' z" "\<forall>i < next_of y. H' i = H i" by blast
  have log: "H (n + int i) = publisher_log D z (n + int i)" if i: "i < k" for i
  proof -
    obtain bytes where "table_map (store_of z) (n + int i) = Some bytes"
      using all [OF i] by (auto simp: log_of_def split: option.splits)
    then have "H' (n + int i) = publisher_log D z (n + int i)" using H'(1) unfolding explains_def by auto
    then show ?thesis using H'(2) y(2) i by simp
  qed
  have "H i \<noteq> None" if "n \<le> i" "i < next_of y" for i
    using log [of "nat (i - n)"] all [of "nat (i - n)"] that y(2) by (simp add: nat_less_iff)
  then have "apply_all (sync D) (deltas_from dec H n (nat (next_of y - n))) (default_state (sync D)) =
      Some (inner_state (wrapper (shared y)))" using H unfolding explains_def by blast
  moreover have "deltas_from dec H n k = deltas_from dec (publisher_log D z) n k"
    by (rule deltas_from_cong) (rule log)
  ultimately show ?thesis using y(2) by simp
qed

text \<open>The replay of the first messages since the start is a state the publisher was in.\<close>

lemma replay_passed:
  assumes C: "codec_sound (codec D)" and dec: "\<And>d. dec (delta_bytes D d) = Inr d" and st: "started D s n g"
    and grew: "grew_from D g z s'" and all: "\<And>i. i < k \<Longrightarrow> publisher_log D z (n + int i) \<noteq> None"
  shows "\<exists>st. apply_all (sync D) (deltas_from dec (publisher_log D z) n k) (default_state (sync D)) = Some st \<and>
    past_state D g z (max (n + 1) (n + int k)) st"
proof -
  let ?L = "publisher_log D z"
  obtain m where runs: "system_runs sqlite_publisher D m (idle_system g) z" "m < 2 ^ 61"
    using grew runs_trans unfolding grew_from_def by blast
  note f = started_first [OF C st] and nx = started_next [OF C st runs]
  have inv: "publisher_inv table_map (key_ok master_id) (codec D) z" by (rule started_runs(1) [OF C st runs])
  obtain m0 where m0: "?L n = Some m0" "payload m0 = Some Started"
    using f(5) log_of_extends [OF nx(3), of "codec D" n] by auto
  have pos: ?thesis if k: "1 \<le> j" "\<And>i. i < j \<Longrightarrow> ?L (n + int i) \<noteq> None"
    and eq: "deltas_from dec ?L n j = deltas_from dec ?L n k" "max (n + 1) (n + int k) = n + int j" for j
  proof -
    have "?L (n + int (j - 1)) \<noteq> None" by (rule k(2)) (use k(1) in simp)
    then have "n + int (j - 1) < next_of z" using publisher_inv_log [OF inv] by blast
    then have le: "next_of (idle_system g) \<le> n + int j" "n + int j \<le> next_of z" using f(3) k(1) by auto
    have "next_of (idle_system g) + int m < 2 ^ 63" using f(2,3) runs(2) by simp
    from sqlite.runs_pass [OF C runs(1) f(4) this le] obtain a b y where
      "system_runs sqlite_publisher D a (idle_system g) y" "system_runs sqlite_publisher D b y z" "a + b = m"
      and y: "next_of y = n + int j" by blast
    then have "passed D g z y" using runs(2) unfolding passed_def by blast
    moreover note state = state_passed [OF C dec st _ _ k(2)]
    ultimately have "past_state D g z (n + int j) (inner_state (wrapper (shared y)))"
      using y unfolding past_state_def by (metis option.inject)
    then show ?thesis using state [OF \<open>passed D g z y\<close> y] eq by auto
  qed
  show ?thesis
  proof (cases "k = 0")
    case True
    then have "deltas_from dec ?L n 1 = deltas_from dec ?L n k"
      using m0 by (simp add: deltas_from_def List.map_filter_def delta_in_def)
    then show ?thesis using True m0 by (intro pos [of 1]) simp_all
  next
    case False
    then show ?thesis using all by (intro pos [of k]) simp_all
  qed
qed

lemma past_state_now: "past_state D g z (next_of z) st \<Longrightarrow> passed D g z z \<Longrightarrow> st = inner_state (wrapper (shared z))"
  unfolding past_state_def by blast

lemma grew_here: "grew_from D g z s \<Longrightarrow> passed D g z z"
proof -
  assume "grew_from D g z s"
  then obtain a b y where y: "system_runs sqlite_publisher D a (idle_system g) y" "system_runs sqlite_publisher D b y z"
      "a + b < 2 ^ 61" unfolding grew_from_def by blast
  show ?thesis unfolding passed_def using runs_trans [OF y(2,1)] y(3) runs_none by (intro exI [of _ "a + b"] exI [of _ 0]) auto
qed

lemma past_state_within:
  assumes C: "codec_sound (codec D)" and started: "started D s n g" and past: "past_state D g z w st"
  shows "next_of (idle_system g) \<le> w" "w \<le> next_of z"
proof -
  obtain y a b where y: "system_runs sqlite_publisher D a (idle_system g) y" "system_runs sqlite_publisher D b y z"
      "a + b < 2 ^ 61" "next_of y = w"
    using past unfolding past_state_def passed_def by blast
  have a: "a < 2 ^ 61" using y(3) by simp
  note f = started_first [OF C started] and sy = started_runs [OF C started y(1) a]
  have "next_of (idle_system g) + int a < 2 ^ 63" "next_of y + int b < 2 ^ 63" using f(2,3) sy(3) y(3) by simp_all
  then show "next_of (idle_system g) \<le> w" "w \<le> next_of z"
    using sqlite.runs_keep [OF C y(1) f(4)] sqlite.runs_keep [OF C y(2) sy(1)] y(4) by (simp_all add: advances_def)
qed

lemma deltas_from_prefix: "deltas_from dec L n k = xs @ ys \<Longrightarrow> \<exists>j \<le> k. deltas_from dec L n j = xs"
proof (induction k arbitrary: ys)
  case (Suc k)
  let ?t = "case delta_in dec (L (n + int k)) of Some d \<Rightarrow> [d] | None \<Rightarrow> []"
  have split: "deltas_from dec L n k @ ?t = xs @ ys" using Suc.prems by (simp add: deltas_from_Suc)
  show ?case
  proof (cases "ys = []")
    case True
    then show ?thesis using Suc.prems by (intro exI [of _ "Suc k"]) simp
  next
    case False
    then have "\<exists>ys'. deltas_from dec L n k = xs @ ys'"
      using split by (cases "delta_in dec (L (n + int k))"; cases ys rule: rev_cases) auto
    then show ?thesis using Suc.IH le_SucI by blast
  qed
qed (simp add: deltas_from_def List.map_filter_def)

section \<open>A subscriber that is behind\<close>

text \<open>What a subscriber has read is the deltas of the first messages since the start, none missing.\<close>

lemma reads_first:
  assumes C: "codec_sound (codec D)" and started: "started D s0 n g" and grew: "\<And>t. grew_from D g z (store_at t)"
    and att: "attached D store_at z sq" and first: "want_sequence sq = n" and par: "parsable (publisher_log D z) deps"
    and run: "into_stream deps m sq c = (rs, fin)"
  obtains k where "received_deltas rs = deltas_from (delta_decode deps) (publisher_log D z) n k"
    "\<And>i. i < k \<Longrightarrow> publisher_log D z (n + int i) \<noteq> None"
    "\<And>sq' c'. fin = Ret (sq', c') \<Longrightarrow> want_sequence sq' = n + int k"
proof -
  note L = publisher_log_ok [OF grew_store(3,4) [OF C started grew]]
  obtain k where k: "delivered rs = map (\<lambda>j. the (log_entry deps (the (publisher_log D z (n + int j))))) [0..<k]"
      "\<And>i. i < k \<Longrightarrow> publisher_log D z (n + int i) \<noteq> None"
      "\<And>sq' c'. fin = Ret (sq', c') \<Longrightarrow> want_sequence sq' = n + int k"
    using in_order_prefix [OF L par attached_authentic [OF C started grew att] run] first by auto
  show ?thesis by (rule that [OF received_deltas_log [OF par k(2,1)] k(2,3)])
qed

lemma replica_past:
  assumes C: "codec_sound (codec D)" and dec: "\<And>d. delta_decode deps (delta_bytes D d) = Inr d"
    and started: "started D s0 n g" and grew: "\<And>t. grew_from D g z (store_at t)"
    and att: "attached D store_at z sq" and first: "want_sequence sq = n" and par: "parsable (publisher_log D z) deps"
    and run: "into_stream deps m sq c = (rs, Ret (sq', c'))"
  shows "\<exists>st. apply_all (sync D) (received_deltas rs) (default_state (sync D)) = Some st \<and>
    past_state D g z (max (n + 1) (want_sequence sq')) st"
proof -
  obtain k where k: "received_deltas rs = deltas_from (delta_decode deps) (publisher_log D z) n k"
      "\<And>i. i < k \<Longrightarrow> publisher_log D z (n + int i) \<noteq> None" "want_sequence sq' = n + int k"
    using reads_first [OF C started grew att first par run] by metis
  show ?thesis unfolding k(1,3) by (rule replay_passed [OF C dec started grew k(2)])
qed

text \<open>C6: a replica is never wrong, only late. A publisher is started on a valid sqlite log and runs, with
  any interleaving, any failures of its log and socket and any sequences lost; a new sequencer starts at
  the publisher's first new sequence, hears any of what the publisher has sent so far, and its recovery
  client is served from the log at whatever moments. At whatever point it is (messages missing, items
  that were errors, the publisher far ahead), replaying the deltas it has read is defined, and gives the
  state the publisher's application was in when its next sequence was the one the subscriber waits for:
  on every run that led to the publisher's present, and there is one. A subscriber that waits for the
  publisher's next sequence has its present state.\<close>

theorem replica_is_past_state:
  assumes C: "codec_sound (codec D)" and dec: "\<And>d. delta_decode deps (delta_bytes D d) = Inr d"
    and started: "started D s0 n g" and grew: "\<And>t. grew_from D g z (store_at t)"
    and att: "attached D store_at z sq" and first: "want_sequence sq = n" and par: "parsable (publisher_log D z) deps"
    and run: "into_stream deps m sq c = (rs, Ret (sq', c'))"
  shows "\<exists>st. apply_all (sync D) (received_deltas rs) (default_state (sync D)) = Some st \<and>
    past_state D g z (max (n + 1) (want_sequence sq')) st \<and>
    (want_sequence sq' = next_of z \<longrightarrow> st = inner_state (wrapper (shared z)))"
proof -
  obtain st where st: "apply_all (sync D) (received_deltas rs) (default_state (sync D)) = Some st"
      "past_state D g z (max (n + 1) (want_sequence sq')) st"
    using replica_past [OF C dec started grew att first par run] by blast
  note within = past_state_within [OF C started st(2)] and here = grew_here [OF grew]
  have "st = inner_state (wrapper (shared z))" if "want_sequence sq' = next_of z"
    by (rule past_state_now [OF _ here]) (use st(2) within(2) that in simp)
  then show ?thesis using st by blast
qed

text \<open>The small publisher with a second delta.\<close>

abbreviation triple_final :: "(byte list, master_pool) system" where
  "triple_final \<equiv> idle_system (tiny_shared [9, 7] 3 [[0, 3], [1, 4, 9], [2, 4, 7]] 8)"

lemma triple_more: "system_runs sqlite_publisher tiny_deps 3 tiny_final triple_final"
proof -
  have "context_apply_delta sqlite_publisher tiny_deps [7] 0 (tiny_shared [9] 2 [[0, 3], [1, 4, 9]] 6) =
      Ret (Inr 2, tiny_shared [9, 7] 3 [[0, 3], [1, 4, 9], [2, 4, 7]] 8)"
    by (simp add: context_apply_delta_def stamp_delta_def run_statement_def use_pool_def stamp_def publish_def
      publish_store_def encode_empty tiny_encode_def codec_simps sqlite_write_message_def insert_row_def
      publish_send_def socket_send_def tiny_shared_def row_of_def in_i64_def quiet_socket_def)
  from apply_delta_steps [OF _ this] show ?thesis by simp
qed

lemma triple_runs: "system_runs sqlite_publisher tiny_deps 6 (idle_system (tiny_shared [] 1 [[0, 3]] 4)) triple_final"
  using runs_trans [OF triple_more tiny_runs] by simp

lemma triple_table:
  "table_map (store_of triple_final) = [0 \<mapsto> [0, 3], 1 \<mapsto> [1, 4, 9], 2 \<mapsto> [2, 4, 7]]"
  by (simp add: tiny_shared_def table_map_def row_of_def fun_eq_iff)

lemma triple_log:
  "publisher_log tiny_deps triple_final =
    [0 \<mapsto> tiny_message 0 (Some Started), 1 \<mapsto> tiny_message 1 (Some (Delta \<lparr>body = [9]\<rparr>)),
     2 \<mapsto> tiny_message 2 (Some (Delta \<lparr>body = [7]\<rparr>))]"
  by (simp only: triple_table) (simp add: log_of_def fun_eq_iff)

lemma triple_parsable: "parsable (publisher_log tiny_deps triple_final) demo_deps"
proof -
  have "ns_to_datetime demo_deps 0 = Ret 0"
    by (rule ns_to_datetime_exact [OF demo_chrono]) simp_all
  then have "log_entry demo_deps (tiny_message i (Some Started)) = Some (0, SStarted)"
    "log_entry demo_deps (tiny_message i (Some (Delta \<lparr>body = b\<rparr>))) = Some (0, SDelta b)" for i b
    by (simp_all add: log_entry_def try_parse_def parse_payload_def demo_deps_def)
  then show ?thesis unfolding triple_log by (auto simp: parsable_def split: if_splits)
qed

text \<open>Its subscriber has heard of the first.\<close>

lemma behind_grew: "grew_from tiny_deps (tiny_shared [] 1 [[0, 3]] 4) triple_final (store_of tiny_final)"
  unfolding grew_from_def
  by (intro exI [of _ 3] exI [of _ tiny_final] conjI, rule tiny_runs, rule triple_more) simp_all

lemma behind_attached: "attached tiny_deps (\<lambda>t. store_of tiny_final) triple_final tiny_subscriber"
  using tiny_attached by (auto simp: attached_def tiny_shared_def)

lemma behind_reads: "\<exists>rs sq' c'. into_stream demo_deps 2 tiny_subscriber (demo_clock 5) = (rs, Ret (sq', c')) \<and>
    (\<forall>r \<in> set rs. \<exists>data. r = Inr data) \<and> want_sequence sq' = 2 \<and> received_deltas rs = [[9]]"
proof -
  obtain rs sq' c' where run: "into_stream demo_deps 2 tiny_subscriber (demo_clock 5) = (rs, Ret (sq', c'))"
    and want: "want_sequence sq' = 2" and udp: "\<forall>r \<in> set rs. from_udp r"
    using tiny_stream by blast
  have "\<forall>r \<in> set rs. \<exists>data. r = Inr data" using udp by (auto elim: from_udp.elims)
  moreover obtain k where "received_deltas rs = deltas_from Inr (publisher_log tiny_deps triple_final) 0 k" "k = 2"
    using reads_first [OF _ tiny_started behind_grew behind_attached _ triple_parsable run] want
    by (auto simp: tiny_sound demo_deps_def)
  then have "received_deltas rs = [[9]]"
    unfolding triple_log by (simp add: deltas_from_Suc numeral_2_eq_2 delta_in_def) (simp add: deltas_from_def List.map_filter_def)
  ultimately show ?thesis using run want by blast
qed

theorem replica_is_past_state_witness:
  "\<exists>rs sq' c'. into_stream demo_deps 2 tiny_subscriber (demo_clock 5) = (rs, Ret (sq', c')) \<and>
     apply_all list_sync (received_deltas rs) [] = Some [9] \<and>
     past_state tiny_deps (tiny_shared [] 1 [[0, 3]] 4) triple_final 2 [9] \<and>
     inner_state (wrapper (shared triple_final)) = [9, 7]"
proof -
  obtain rs sq' c' where rs: "into_stream demo_deps 2 tiny_subscriber (demo_clock 5) = (rs, Ret (sq', c'))"
      "want_sequence sq' = 2" "received_deltas rs = [[9]]" using behind_reads by blast
  then show ?thesis
    using replica_is_past_state [OF _ _ tiny_started behind_grew behind_attached _ triple_parsable rs(1)]
    by (intro exI [of _ rs] exI [of _ sq'] exI [of _ c']) (simp add: tiny_sound demo_deps_def tiny_shared_def)
qed

end
