(* ===== verification/Convergence.thy ===== *)
theory Convergence
  imports Past_States
begin

text \<open>
  The whole protocol converges: whatever datagrams are lost, once the publisher's last message has
  arrived and a timeout has passed, the subscriber's replay is the publisher's state.
\<close>

section \<open>A healthy service\<close>

text \<open>
  From the moment \<open>t0\<close> on: a channel that is ready and passes every request to the server over the store
  of that moment, and its answer back.
\<close>

definition reliable :: "raw_message codec_deps \<Rightarrow> (nat \<Rightarrow> master_pool) \<Rightarrow> nat \<Rightarrow> grpc_channel \<Rightarrow> bool" where
  "reliable C store_at t0 ch \<longleftrightarrow> (\<forall>t path q r. t0 \<le> t \<longrightarrow> grpc_ready ch t = Inr () \<and>
     (fst (recovery_server_call sqlite_publisher C path q (store_at t)) = Unary r \<longrightarrow> grpc_unary ch t path q = r) \<and>
     (\<forall>items. fst (recovery_server_call sqlite_publisher C path q (store_at t)) = Server_Streaming (Inr items) \<longrightarrow>
        grpc_streaming ch t path q = Inr items))"

text \<open>Beside that: the database does not fail, and what it holds from \<open>n\<close> on are the messages below \<open>e t\<close>.\<close>

definition steady :: "raw_message codec_deps \<Rightarrow> (nat \<Rightarrow> master_pool) \<Rightarrow> int \<Rightarrow> (nat \<Rightarrow> int) \<Rightarrow> nat \<Rightarrow> grpc_channel \<Rightarrow> bool" where
  "steady C store_at n e t0 ch \<longleftrightarrow> reliable C store_at t0 ch \<and>
     (\<forall>t \<ge> t0. faults (store_at t) = (\<lambda>_. None) \<and> (\<forall>i \<ge> n. i < e t \<longleftrightarrow> table_map (store_at t) i \<noteq> None))"

lemma reliable_calls:
  assumes "reliable C store_at t0 ch" "t0 \<le> t"
  shows "client_get_message ch t q = fst (recovery_get_message sqlite_publisher C q (store_at t))"
    "fst (recovery_stream_from sqlite_publisher C q (store_at t)) = Inr items \<Longrightarrow> client_stream_from ch t q = Inr items"
proof -
  have at: "grpc_ready ch t = Inr ()"
    "\<And>path q r. fst (recovery_server_call sqlite_publisher C path q (store_at t)) = Unary r \<Longrightarrow> grpc_unary ch t path q = r"
    "\<And>path q items. fst (recovery_server_call sqlite_publisher C path q (store_at t)) = Server_Streaming (Inr items) \<Longrightarrow>
      grpc_streaming ch t path q = Inr items"
    using assms unfolding reliable_def by blast+
  have "grpc_unary ch t ''/recovery.RecoveryApi/GetMessage'' q = fst (recovery_get_message sqlite_publisher C q (store_at t))"
    by (rule at(2) [OF server_call_get])
  then show "client_get_message ch t q = fst (recovery_get_message sqlite_publisher C q (store_at t))"
    unfolding client_get_message_def at(1) map_err.simps and_then.simps .
  show "client_stream_from ch t q = Inr items" if "fst (recovery_stream_from sqlite_publisher C q (store_at t)) = Inr items"
  proof -
    have "grpc_streaming ch t ''/recovery.RecoveryApi/StreamFrom'' q = Inr items"
      by (rule at(3)) (simp only: server_call_stream that)
    then show ?thesis unfolding client_stream_from_def at(1) map_err.simps and_then.simps .
  qed
qed

text \<open>The strictly increasing list of the integers from \<open>w\<close> below \<open>e\<close>.\<close>

lemma consecutive_unique:
  assumes "sorted_wrt (<) ks" "set ks = {w..<e}"
  shows "ks = map (\<lambda>j. w + int j) [0..<nat (e - w)]"
proof (rule strict_sorted_equal [symmetric])
  show "sorted_wrt (<) ks" by (rule assms)
  show "sorted_wrt (<) (map (\<lambda>j. w + int j) [0..<nat (e - w)])" by (simp add: sorted_wrt_map)
  show "set (map (\<lambda>j. w + int j) [0..<nat (e - w)]) = set ks"
  proof -
    have "i \<in> (\<lambda>j. w + int j) ` {0..<nat (e - w)}" if "w \<le> i" "i < e" for i
      using that by (intro image_eqI [of _ _ "nat (i - w)"]) auto
    then show ?thesis unfolding assms(2) by auto
  qed
qed

lemma log_valid_part: "log_valid C M \<Longrightarrow> M' \<subseteq>\<^sub>m M \<Longrightarrow> log_valid C M'"
  by (force simp: log_valid_def map_le_def dom_def)

lemma steady_healthy:
  assumes ch: "steady C store_at n e t0 ch" and nw: "n \<le> w" and M: "log_valid C M"
    and st: "\<And>t. key_ok master_id (store_at t)" "\<And>t. table_map (store_at t) \<subseteq>\<^sub>m M"
  shows "healthy (log_of C M) w e t0 (recovery_api_client ch)"
  unfolding healthy_def
proof (intro allI impI)
  fix t assume t: "t0 \<le> t"
  let ?L = "log_of C M" and ?Lt = "log_of C (table_map (store_at t))"
  note rel = reliable_calls [OF conjunct1 [OF ch [unfolded steady_def]] t]
  have up: "faults (store_at t) = (\<lambda>_. None)" "\<And>i. n \<le> i \<Longrightarrow> i < e t \<longleftrightarrow> table_map (store_at t) i \<noteq> None"
    using ch t by (auto simp: steady_def)
  have valid: "log_valid C (table_map (store_at t))" by (rule log_valid_part [OF M st(2)])
  have entry: "?Lt i \<noteq> None" if "w \<le> i" "i < e t" for i
    using up(2) [of i] nw that log_of_valid(1) [OF valid, of i] by auto
  then have same: "?L i = ?Lt i" if "w \<le> i" "i < e t" for i
    using that log_of_extends [OF st(2)] by metis
  have get: "client_get_message ch t \<lparr>sequence_id = w\<rparr> = Inr (the (?L w))" if "w < e t"
    using rel(1) get_message_healthy [OF st(1) valid up(1), of w] entry [of w] same [of w] that by auto
  obtain ks where ks: "sorted_wrt (<) ks" "set ks = {k \<in> dom ?Lt. w \<le> k}"
    "fst (recovery_stream_from sqlite_publisher C \<lparr>sequence_id = w\<rparr> (store_at t)) = Inr (map (\<lambda>k. Inr (the (?Lt k))) ks)"
    using stream_from_healthy [OF st(1) valid up(1), of w] by blast
  have "k < e t" if "w \<le> k" "?Lt k \<noteq> None" for k
    using up(2) [of k] nw that by (auto simp: log_of_def split: option.splits)
  then have "{k \<in> dom ?Lt. w \<le> k} = {w..<e t}" using entry by (auto simp: domIff)
  then have "ks = map (\<lambda>j. w + int j) [0..<nat (e t - w)]" using ks(1,2) by (intro consecutive_unique) simp_all
  moreover have "log_from ?L w (e t) = log_from ?Lt w (e t)"
    using same by (simp add: log_from_def)
  ultimately have "client_stream_from ch t \<lparr>sequence_id = w\<rparr> = Inr (map Inr (log_from ?L w (e t)))"
    using rel(2) [OF ks(3)] by (simp add: log_from_def comp_def)
  then show "(\<forall>i. w \<le> i \<longrightarrow> i < e t \<longrightarrow> ?L i \<noteq> None) \<and>
      (w < e t \<longrightarrow> rpc_get_message (recovery_api_client ch) t \<lparr>sequence_id = w\<rparr> = Inr (the (?L w))) \<and>
      rpc_stream_from (recovery_api_client ch) t \<lparr>sequence_id = w\<rparr> = Inr (map Inr (log_from ?L w (e t)))"
    using get entry same by auto
qed

lemma publisher_inv_valid:
  assumes "publisher_inv table_map (key_ok master_id) C z" "next_of z < 2 ^ 63 - 1"
  shows "log_valid C (table_map (store_of z))"
  using assms unfolding publisher_inv_def map_ok_def log_valid_def by fastforce

section \<open>Convergence\<close>

text \<open>Once overdue, the subscriber reads on past everything it has buffered, and all it reads are messages.\<close>

lemma converges_to:
  assumes C: "codec_sound (codec D)"
    and started: "started D s0 n g" and grew: "\<And>t. grew_from D g z (store_at t)"
    and att: "attached D store_at z sq" and first: "want_sequence sq = n" and par: "parsable (publisher_log D z) deps"
    and some: "into_stream deps k sq c = (rs, Ret (s, c1))" "overdue s c1"
    and ch: "recovery_client sq = recovery_api_client ch" "steady (codec D) store_at n e (ticks c1) ch"
    and kept: "\<forall>t \<ge> ticks c1. \<forall>m \<in># mm_items (heap s). recv_seq m < e t"
  obtains os rs2 s' c' where "into_stream deps (k + length os) sq c = (rs @ rs2, Ret (s', c'))"
    "map item_origin rs2 = map Some os" "n < want_sequence s'"
    "\<forall>m \<in># mm_items (heap s). recv_seq m < want_sequence s'"
proof -
  let ?L = "publisher_log D z"
  note st = grew_store [OF C started grew]
  note L = publisher_log_ok [OF st(3,4)] and auth = attached_authentic [OF C started grew att]
  note s = into_stream_keeps [OF L auth some(1)]
  have w: "n \<le> want_sequence s" using in_order_prefix [OF L par auth some(1)] first by auto
  have up: "healthy ?L (want_sequence s) e (ticks c1) (recovery_client s)"
    using steady_healthy [OF ch(2) w publisher_inv_valid [OF st(3,4)] st(1,2)] s ch(1) by simp
  obtain os s' c' where more: "delivers deps os s c1 s' c'" "\<And>m. m \<in># mm_items (heap s) \<Longrightarrow> recv_seq m < want_sequence s'"
    using overdue_delivers [OF L par _ _ some(2) up kept [rule_format]] s unfolding catches_up_def by metis
  then obtain rs2 where rs2: "into_stream deps (length os) s c1 = (rs2, Ret (s', c'))" "map item_origin rs2 = map Some os"
    unfolding delivers_def by blast
  obtain m where "m \<in># mm_items (heap s)" "want_sequence s < recv_seq m"
    using some(2) by (fastforce simp: overdue_def late_def)
  then have "n < want_sequence s'" using w more(2) by fastforce
  then show ?thesis using that [OF into_stream_append [OF some(1) rs2(1)] rs2(2)] more(2) by blast
qed

text \<open>C3: the protocol converges, while the publisher goes on. A publisher is started on a valid sqlite log and
  runs, its application and heartbeats interleaved in any way. A new sequencer starts at the publisher's
  first new sequence; of the datagrams sent, any may be lost, repeated or reordered, and until then the
  recovery service may have been down. At some point of its stream (messages, errors or disconnections)
  its deadline has passed with messages in its buffer; from that moment on its channel carries every
  call to the publisher's server, whose database works, and whose log, growing as the publisher goes
  on, has no hole since the start and holds what is buffered. Then after finitely many more items the
  subscriber has passed everything it had heard; the replay of what it has delivered is exactly the state
  the publisher had at the sequence it waits for, and if that is the publisher's next one, it is the
  publisher's state.\<close>

theorem subscriber_converges:
  assumes C: "codec_sound (codec D)" and dec: "\<And>d. delta_decode deps (delta_bytes D d) = Inr d"
    and started: "started D s0 n g" and grew: "\<And>t. grew_from D g z (store_at t)"
    and att: "attached D store_at z sq" and first: "want_sequence sq = n" and par: "parsable (publisher_log D z) deps"
    and some: "into_stream deps k sq c = (rs, Ret (s, c1))" "overdue s c1"
    and ch: "recovery_client sq = recovery_api_client ch" "steady (codec D) store_at n e (ticks c1) ch"
    and kept: "\<forall>t \<ge> ticks c1. \<forall>m \<in># mm_items (heap s). recv_seq m < e t"
  shows "\<exists>j rs' s' c' st. into_stream deps (k + j) sq c = (rs', Ret (s', c')) \<and>
    (\<forall>m \<in># mm_items (heap s). recv_seq m < want_sequence s') \<and> want_sequence s' \<le> next_of z \<and>
    apply_all (sync D) (received_deltas rs') (default_state (sync D)) = Some st \<and>
    past_state D g z (want_sequence s') st \<and>
    (want_sequence s' = next_of z \<longrightarrow> st = inner_state (wrapper (shared z)))"
proof -
  obtain os rs2 s' c' where whole: "into_stream deps (k + length os) sq c = (rs @ rs2, Ret (s', c'))"
      "map item_origin rs2 = map Some os" "n < want_sequence s'" "\<forall>m \<in># mm_items (heap s). recv_seq m < want_sequence s'"
    using converges_to [OF C started grew att first par some ch kept] .
  obtain st where st: "apply_all (sync D) (received_deltas (rs @ rs2)) (default_state (sync D)) = Some st"
      "past_state D g z (want_sequence s') st"
    using replica_past [OF C dec started grew att first par whole(1)] whole(3) by (auto simp: max_def)
  have now: "want_sequence s' = next_of z \<Longrightarrow> st = inner_state (wrapper (shared z))"
    using past_state_now [OF _ grew_here [OF grew]] st(2) by simp
  show ?thesis using whole(1,4) st now past_state_within(2) [OF C started st(2)] by blast
qed

section \<open>A subscriber that lost the start\<close>

text \<open>The small publisher's subscriber, of whose datagrams the first is lost, before an error of its socket.\<close>

definition lossy_subscriber :: message_sequencer where
  "lossy_subscriber = tiny_subscriber\<lparr>udp_framed :=
     [Datagram (tiny_message 1 (Some (Delta \<lparr>body = [9]\<rparr>))), Frame_Error (status_internal ''io'')]\<rparr>"

definition lossy_clock :: clocks where
  "lossy_clock = \<lparr>instant_at = (\<lambda>t. if t < 4 then 5 else 99), utc_at = int, ticks = 0\<rparr>"

definition lossy_waiting :: message_sequencer where
  "lossy_waiting = lossy_subscriber\<lparr>udp_framed := [], last_deadline := 15, connected := True,
     heap := mm_push (Reverse (received_message_new 2 (tiny_message 1 (Some (Delta \<lparr>body = [9]\<rparr>))) Udp)) mm_new\<rparr>"

lemma lossy_attached: "attached tiny_deps (\<lambda>t. store_of tiny_final) triple_final lossy_subscriber"
  using behind_attached by (auto simp: attached_def recovers_from_def lossy_subscriber_def)

lemma lossy_next: "sequencer_next demo_deps lossy_subscriber lossy_clock =
    Ret (Return (Inl (Udp_Status (status_internal ''io''))) lossy_waiting (lossy_clock\<lparr>ticks := 4\<rparr>))"
proof -
  let ?s = "lossy_subscriber\<lparr>last_deadline := 15\<rparr>"
  have "heap_block demo_deps lossy_subscriber lossy_clock = Ret (Fall lossy_subscriber lossy_clock)"
    by (rule heap_block_fall) (use mm.peek_in [OF mm_inv_new] in \<open>fastforce simp: lossy_subscriber_def\<close>)
  moreover have "connect_block lossy_subscriber lossy_clock = (?s, lossy_clock\<lparr>ticks := 1\<rparr>)"
    by (simp add: connect_block_def lossy_subscriber_def lossy_clock_def instant_now_def tick_def)
  moreover have "listen_block demo_deps ?s (lossy_clock\<lparr>ticks := 1\<rparr>) =
      Ret (Return (Inl (Udp_Status (status_internal ''io''))) lossy_waiting (lossy_clock\<lparr>ticks := 4\<rparr>))"
    by (simp add: listen_event lossy_clock_def lossy_subscriber_def lossy_waiting_def after_datagram_def tick_def)
  ultimately show ?thesis by (simp add: next_without_stream lossy_subscriber_def)
qed

lemma lossy_first: "into_stream demo_deps 1 lossy_subscriber lossy_clock =
    ([Inl (Udp_Status (status_internal ''io''))], Ret (lossy_waiting, lossy_clock\<lparr>ticks := 4\<rparr>))"
  by (rule into_stream_one [OF lossy_next])

lemma direct_reliable: "reliable tiny_codec (\<lambda>t. s) t0 (direct_channel s)"
  unfolding reliable_def direct_channel_def grpc_channel.simps by simp

lemma tiny_steady: "steady tiny_codec (\<lambda>t. store_of tiny_final) 0 (\<lambda>t. 2) t0 (direct_channel (store_of tiny_final))"
proof -
  have "i < 2 \<longleftrightarrow> table_map (store_of tiny_final) i \<noteq> None" if "0 \<le> i" for i
  proof -
    have "i < 2 \<longleftrightarrow> i = 0 \<or> i = 1" using that by auto
    then show ?thesis by (auto simp: tiny_table)
  qed
  then show ?thesis using direct_reliable by (simp add: steady_def tiny_shared_def)
qed

text \<open>The publisher has applied a second delta since, which the subscriber has not heard of.\<close>

theorem subscriber_converges_witness:
  "\<exists>j rs' s' c'. into_stream demo_deps (1 + j) lossy_subscriber lossy_clock = (rs', Ret (s', c')) \<and>
     1 < want_sequence s' \<and> apply_all list_sync (received_deltas rs') [] \<noteq> None \<and> next_of triple_final = 3"
proof -
  let ?m = "received_message_new 2 (tiny_message 1 (Some (Delta \<lparr>body = [9]\<rparr>))) Udp"
  have o: "overdue lossy_waiting (lossy_clock\<lparr>ticks := 4\<rparr>)" and h: "mm_items (heap lossy_waiting) = {#?m#}"
    by (simp_all add: overdue_def late_def lossy_waiting_def lossy_subscriber_def lossy_clock_def mm.push_items)
  have C: "codec_sound (codec tiny_deps)" "delta_decode demo_deps (delta_bytes tiny_deps d) = Inr d"
    "want_sequence lossy_subscriber = 0"
    "recovery_client lossy_subscriber = recovery_api_client (direct_channel (store_of tiny_final))" for d
    by (simp_all add: tiny_sound demo_deps_def lossy_subscriber_def)
  have st: "steady (codec tiny_deps) (\<lambda>t. store_of tiny_final) 0 (\<lambda>t. 2) (ticks (lossy_clock\<lparr>ticks := 4\<rparr>))
      (direct_channel (store_of tiny_final))" using tiny_steady by simp
  have kept: "\<forall>t \<ge> ticks (lossy_clock\<lparr>ticks := 4\<rparr>). \<forall>m \<in># mm_items (heap lossy_waiting). recv_seq m < (2 :: int)"
    using h by simp
  show ?thesis
    using subscriber_converges [OF C(1,2) tiny_started behind_grew lossy_attached C(3) triple_parsable lossy_first o C(4) st kept]
    by (auto simp: h tiny_shared_def)
qed

end
