(* ===== verification/Aggregator_Theorems.thy ===== *)
theory Aggregator_Theorems
  imports Aggregator Convergence
begin

text \<open>
  The properties of the aggregator, alone and at the end of the whole chain: publisher, wire,
  recovery, sequencer, aggregator.
\<close>

section \<open>Any interleaving\<close>

text \<open>C17: the aggregator replays the stream. However its two tasks and its receivers interleave, the
  channel never holds more than its size, and the deltas that the forwarder has read from the
  sequencer's stream split into those applied, in order, to the default state and those still
  to come: the producer's state is exactly the replay of the former, and the receivers have last been told of the replay of some first
  part of them: never of a state that was not. None of the items read so far was
  an error. Only a delta that the state refuses, or panics on, ends that, and then it is the first of
  the rest.\<close>

theorem aggregator_replays:
  assumes "aggregator_new S sq buf c = Ret ag0" "aggregator_runs S deps torn ag0 ag"
  shows "length (queue ag) \<le> buffer_size ag \<and>
    (\<exists>n applied rest st. all_data (fst (into_stream deps n sq c)) \<and>
      stream_deltas (fst (into_stream deps n sq c)) = applied @ rest \<and>
      apply_all S applied (default_state S) = Some st \<and>
      (\<exists>k \<le> length applied. apply_all S (take k applied) (default_state S) = Some (notified ag)) \<and>
      (case producer ag of
         Receiving e \<Rightarrow> agg_state ag = st \<and> rest = queue ag @ sending ag \<and> (e \<longrightarrow> notified ag = st)
       | Applying d \<Rightarrow> agg_state ag = st \<and> rest = d # queue ag @ sending ag
       | Producer_Done Sender_Closed \<Rightarrow> agg_state ag = st \<and> rest = [] \<and> forwarder ag = Forwarder_Done
       | Producer_Done Receivers_Closed \<Rightarrow> agg_state ag = st
       | Producer_Done Apply_Failed \<Rightarrow> (\<exists>d ds e. rest = d # ds \<and> apply_delta S d st = Ret (Inl e, agg_state ag))
       | Producer_Done Apply_Panicked \<Rightarrow>
           (\<exists>d ds. rest = d # ds \<and> apply_delta S d st = Panic \<and> agg_state ag = torn d st)))"
  using aggregator_runs_keep [OF assms(2) new_inv [OF assms(1)]]
  unfolding aggregator_inv_def replayed_def stage_def has_read_def announced_def by blast

text \<open>The aggregator of the small subscriber, in whose stream the delta comes before the start.\<close>

definition tiny_aggregator :: "(byte list, byte list) aggregator" where
  "tiny_aggregator = \<lparr>forwarder = Listening tiny_subscriber (demo_clock 5), queue = [], buffer_size = 4,
     producer = Receiving True, agg_state = [], notified = [], receivers = 1\<rparr>"

lemma tiny_aggregator_new: "aggregator_new list_sync tiny_subscriber (Some 4) (demo_clock 5) = Ret tiny_aggregator"
  by (simp add: aggregator_new_def tiny_aggregator_def)

theorem aggregator_replays_witness:
  "aggregator_new list_sync tiny_subscriber (Some 0) (demo_clock 5) = (Panic :: (_, byte list) aggregator run) \<and>
   (\<exists>n applied rest. stream_deltas (fst (into_stream demo_deps n tiny_subscriber (demo_clock 5))) = applied @ rest \<and>
     apply_all list_sync applied [] = Some (agg_state (subscribe tiny_aggregator)))"
proof -
  have "aggregator_runs list_sync demo_deps (\<lambda>d st. st) tiny_aggregator (subscribe tiny_aggregator)"
    by (rule goes_on [OF stays subscribes]) (simp add: tiny_aggregator_def)
  from aggregator_replays [OF tiny_aggregator_new this] show ?thesis
    by (auto simp: aggregator_new_def subscribe_def tiny_aggregator_def)
qed

section \<open>The first error\<close>

lemma into_stream_take:
  "k \<le> n \<Longrightarrow> fst (into_stream deps k s c) = take k (fst (into_stream deps n s c))"
proof (induction n arbitrary: k s c)
  case (Suc n)
  show ?case
  proof (cases k)
    case (Suc k')
    then show ?thesis using Suc.IH [of k'] Suc.prems by (simp add: case_prod_beta Let_def split: run.split block.split)
  qed simp
qed simp

lemma into_stream_length: "length (fst (into_stream deps n s c)) \<le> n"
  using into_stream_take [of n n deps s c] by (metis order_refl length_take min.cobounded2)

text \<open>C11: the first error of the stream is the aggregator's last word. If the stream's item \<open>k\<close> is an error
  of any kind (a datagram that does not decode, a recovery server that is down for a moment), then in
  every run only deltas of the items before it are ever applied, however the sequencer's stream would
  go on: the forwarder has ended, and the aggregated state stays a replay of at most those.\<close>

theorem aggregator_ends_at_error:
  assumes "aggregator_new S sq buf c = Ret ag0" "aggregator_runs S deps torn ag0 ag"
    and "into_stream deps m sq c = (rs, fin)" "k < length rs" "rs ! k = Inl err"
  shows "\<exists>applied rest st. stream_deltas (take k rs) = applied @ rest \<and>
    apply_all S applied (default_state S) = Some st \<and>
    (agg_state ag = st \<or> producer ag \<in> {Producer_Done Apply_Failed, Producer_Done Apply_Panicked})"
proof -
  obtain n applied rest st where read: "all_data (fst (into_stream deps n sq c))"
    and deltas: "stream_deltas (fst (into_stream deps n sq c)) = applied @ rest"
    and st: "apply_all S applied (default_state S) = Some st" and stage: "stage S torn st rest ag"
    using aggregator_runs_keep [OF assms(2) new_inv [OF assms(1)]]
    unfolding aggregator_inv_def replayed_def has_read_def by blast
  have m: "k < m" "fst (into_stream deps m sq c) = rs"
    using into_stream_length [of deps m sq c] assms(3,4) by simp_all
  have nk: "n \<le> k"
  proof (rule ccontr)
    assume "\<not> n \<le> k"
    then have "take (Suc k) (fst (into_stream deps n sq c)) = take (Suc k) rs"
      using into_stream_take [of "Suc k" n deps sq c] into_stream_take [of "Suc k" m deps sq c] m by simp
    then have "rs ! k \<in> set (take (Suc k) (fst (into_stream deps n sq c)))"
      using assms(4) by (metis in_set_conv_nth length_take lessI min_less_iff_conj nth_take)
    then show False using read assms(5) by (force simp: all_data_def dest: in_set_takeD)
  qed
  then have "fst (into_stream deps n sq c) = take n (take k rs)"
    using into_stream_take [of n m deps sq c] m by (simp add: min_def)
  then have "stream_deltas (take k rs) = applied @ (rest @ stream_deltas (drop n (take k rs)))"
    using deltas append_take_drop_id [of n "take k rs"] stream_deltas_append [of "take n (take k rs)" "drop n (take k rs)"]
    by simp
  moreover have "agg_state ag = st \<or> producer ag \<in> {Producer_Done Apply_Failed, Producer_Done Apply_Panicked}"
    using stage by (simp add: stage_def split: producer.splits stop.splits)
  ultimately show ?thesis using st by blast
qed

text \<open>The subscriber whose socket fails once: on its own it recovers from that.\<close>

theorem aggregator_ends_at_error_witness:
  "\<exists>ag0 ag. aggregator_new list_sync lossy_subscriber (Some 4) lossy_clock = Ret ag0 \<and>
     aggregator_runs list_sync demo_deps (\<lambda>d st. st) ag0 ag \<and> forwarder ag = Forwarder_Done \<and> agg_state ag = []"
proof -
  let ?new = "tiny_aggregator\<lparr>forwarder := Listening lossy_subscriber lossy_clock\<rparr>"
  let ?ag = "tiny_aggregator\<lparr>forwarder := Forwarder_Done\<rparr>"
  have new: "aggregator_new list_sync lossy_subscriber (Some 4) lossy_clock = Ret ?new"
    by (simp add: aggregator_new_def tiny_aggregator_def)
  have "forwarder_step demo_deps ?new = Some ?ag"
    by (simp add: forwarder_step_def lossy_next)
  then have runs: "aggregator_runs list_sync demo_deps (\<lambda>d st. st) ?new ?ag"
    using goes_on [OF stays forwards] by blast
  from aggregator_ends_at_error [OF new runs lossy_first, of 0 "Udp_Status (status_internal ''io'')"] have "agg_state ?ag = []"
    by (simp add: tiny_aggregator_def)
  then show ?thesis using new runs by (intro exI [of _ ?new] exI [of _ ?ag]) simp
qed

section \<open>No busy loop\<close>

text \<open>C34: the producer drains, notifies once, and waits. Whatever is in the channel, if its deltas apply
  and someone still listens, then the producer's loop takes two steps for each delta and one to
  notify the receivers (none when there was nothing new), and then waits: the channel is empty,
  the state is the replay of what was in it, and it is what the receivers were notified of.\<close>

theorem producer_drains_and_waits:
  assumes "apply_all S (queue ag) (agg_state ag) = Some st" "forwarder ag \<noteq> Forwarder_Done" "0 < receivers ag"
    and "producer ag = Receiving e" "e \<Longrightarrow> notified ag = agg_state ag"
    and "producer_drain S torn ag = (n, ag')"
  shows "n = 2 * length (queue ag) + (if e \<and> queue ag = [] then 0 else 1) \<and> producer_step S torn ag' = None \<and>
    ag' = ag\<lparr>queue := [], producer := Receiving True, agg_state := st, notified := st\<rparr>"
  using drained [OF assms(1-5)] assms(2,6) by (auto simp: producer_step_def)

theorem producer_drains_and_waits_witness:
  "producer_drain list_sync (\<lambda>d st. st) (tiny_aggregator\<lparr>queue := [[9], [7, 8]]\<rparr>) =
    (5, tiny_aggregator\<lparr>agg_state := [9, 7, 8], notified := [9, 7, 8]\<rparr>)"
  using producer_drains_and_waits [of list_sync "tiny_aggregator\<lparr>queue := [[9], [7, 8]]\<rparr>" "[9, 7, 8]" True
      "\<lambda>d st. st" _ _, OF _ _ _ _ _ prod.collapse [symmetric]]
  by (simp add: tiny_aggregator_def prod_eq_iff)

section \<open>The whole chain\<close>

lemma stream_deltas_received: "stream_deltas (rs :: 'd stream_item list) = received_deltas rs"
proof -
  have item: "item_delta r = Option.bind (stream_payload r) delivered_delta" for r :: "'d stream_item"
  proof (cases r)
    case (Inr data)
    then show ?thesis
    proof (cases data)
      case (Stream_Message st rt org p)
      then show ?thesis using Inr by (cases p) simp_all
    qed simp
  qed simp
  then show ?thesis
    unfolding stream_deltas_def received_deltas_def
    by (induction rs) (simp_all add: map_filter_simps item split: option.split)
qed

text \<open>C4: the copy agrees with the original. A publisher is started on a valid sqlite log and runs with
  any interleaving and any faults; an aggregator is built on a sequencer that starts at the
  publisher's first new sequence, hears only what the publisher has sent and recovers from its
  server. Once the sequencer waits for the publisher's next sequence and the producer has
  nothing left to do (someone still listening), the aggregated state is exactly the state of
  the publisher's application, and the receivers have been notified of it.\<close>

theorem aggregator_agrees:
  assumes "codec_sound (codec D)" "\<And>d. delta_decode deps (delta_bytes D d) = Inr d"
    and "started D s n g" "\<And>t. grew_from D g z (store_at t)"
    and "attached D store_at z sq" "want_sequence sq = n" "parsable (publisher_log D z) deps"
    and "aggregator_new (sync D) sq buf c = Ret ag0" "aggregator_runs (sync D) deps torn ag0 ag"
    and "forwarder ag = Listening sq' c'" "want_sequence sq' = next_of z"
    and "producer_step (sync D) torn ag = None" "producer ag \<noteq> Producer_Done Receivers_Closed"
  shows "agg_state ag = inner_state (wrapper (shared z)) \<and> notified ag = agg_state ag"
proof -
  obtain k applied rest st where
    read: "has_read deps sq c k ag" and deltas: "stream_deltas (fst (into_stream deps k sq c)) = applied @ rest"
    and st: "apply_all (sync D) applied (default_state (sync D)) = Some st" and stage: "stage (sync D) torn st rest ag"
    using aggregator_runs_keep [OF assms(9) new_inv [OF assms(8)]] unfolding aggregator_inv_def replayed_def by (elim conjE exE)
  obtain rs where rs: "into_stream deps k sq c = (rs, Ret (sq', c'))"
    using read assms(10) by (cases "into_stream deps k sq c") (simp add: has_read_def)
  have "apply_all (sync D) (applied @ rest) (default_state (sync D)) = Some (inner_state (wrapper (shared z)))"
    using replica_agrees [OF assms(1-5,7) rs assms(6,11)] deltas unfolding rs stream_deltas_received by simp
  then have rest: "apply_all (sync D) rest st = Some (inner_state (wrapper (shared z)))"
    using st by (simp add: apply_all_append)
  show ?thesis
  proof (cases "producer ag")
    case (Receiving e)
    then have "queue ag = []" "e" using assms(10,12) by (auto simp: producer_step_def split: list.splits if_splits)
    then show ?thesis using stage rest Receiving assms(10) by (auto simp: stage_def sending_def)
  next
    case (Applying d)
    then show ?thesis using stage rest assms(12)
      by (auto simp: stage_def producer_step_def split: run.splits sum.splits)
  next
    case (Producer_Done why)
    then show ?thesis using stage rest assms(10,13) by (cases why) (auto simp: stage_def)
  qed
qed

theorem aggregator_agrees_witness:
  "\<exists>ag. aggregator_runs list_sync demo_deps (\<lambda>d st. st) tiny_aggregator ag \<and> agg_state ag = [9] \<and> notified ag = [9]"
proof -
  obtain rs sq' c' where run: "into_stream demo_deps 2 tiny_subscriber (demo_clock 5) = (rs, Ret (sq', c'))"
    and want: "want_sequence sq' = 2" and udp: "\<forall>r \<in> set rs. from_udp r"
    using tiny_stream by blast
  have items: "\<forall>r \<in> set rs. \<exists>data. r = Inr data" using udp by (auto elim: from_udp.elims)
  let ?ag1 = "tiny_aggregator\<lparr>forwarder := Listening sq' c', queue := stream_deltas rs\<rparr>"
  have fwd: "aggregator_runs list_sync demo_deps (\<lambda>d st. st) tiny_aggregator ?ag1"
    using forwarder_runs [OF run items, of tiny_aggregator list_sync "\<lambda>d st. st"] by (simp add: tiny_aggregator_def)
  have "apply_all list_sync (stream_deltas rs) [] = Some [9]"
    using replica_agrees [OF _ _ tiny_started tiny_grew tiny_attached tiny_parsable run] want
    by (simp add: tiny_sound demo_deps_def stream_deltas_received)
  then have dr: "producer_drain list_sync (\<lambda>d st. st) ?ag1 =
      (2 * length (queue ?ag1) + (if True \<and> queue ?ag1 = [] then 0 else 1),
       ?ag1\<lparr>queue := [], producer := Receiving True, agg_state := [9], notified := [9]\<rparr>)"
    by (intro drained) (simp_all add: tiny_aggregator_def)
  let ?ag = "snd (producer_drain list_sync (\<lambda>d st. st) ?ag1)"
  have runs: "aggregator_runs list_sync demo_deps (\<lambda>d st. st) tiny_aggregator ?ag"
    by (rule runs_append [OF drain_runs fwd])
  have "agg_state ?ag = [9] \<and> notified ?ag = agg_state ?ag"
    using aggregator_agrees [of tiny_deps demo_deps empty_pool 0 _ tiny_final "\<lambda>t. store_of tiny_final" tiny_subscriber
        "Some 4" "demo_clock 5" tiny_aggregator "\<lambda>d st. st" ?ag sq' c',
        OF _ _ tiny_started tiny_grew tiny_attached _ tiny_parsable] tiny_aggregator_new runs want
    by (simp add: tiny_sound demo_deps_def dr producer_step_def)
  then show ?thesis using runs by metis
qed

section \<open>An aggregator that is behind\<close>

text \<open>C7: whatever an aggregator shows, the publisher once had. In every run of an aggregator on such a
  sequencer, the producer never ends because a delta does not apply, the aggregated state is always one
  the publisher's application was in, and so is the state that the receivers were last told of,
  which is not the later one of the two.\<close>

theorem aggregator_shows_past_states:
  assumes C: "codec_sound (codec D)" and dec: "\<And>d. delta_decode deps (delta_bytes D d) = Inr d"
    and started: "started D s0 n g" and grew: "\<And>t. grew_from D g z (store_at t)"
    and att: "attached D store_at z sq" and first: "want_sequence sq = n" and par: "parsable (publisher_log D z) deps"
    and new: "aggregator_new (sync D) sq buf c = Ret ag0" and runs: "aggregator_runs (sync D) deps torn ag0 ag"
  shows "producer ag \<notin> {Producer_Done Apply_Failed, Producer_Done Apply_Panicked} \<and>
    (\<exists>v w. v \<le> w \<and> past_state D g z v (notified ag) \<and> past_state D g z w (agg_state ag))"
proof -
  let ?df = "deltas_from (delta_decode deps) (publisher_log D z) n"
  obtain m applied rest st where
    deltas: "stream_deltas (fst (into_stream deps m sq c)) = applied @ rest"
    and st: "apply_all (sync D) applied (default_state (sync D)) = Some st" and stage: "stage (sync D) torn st rest ag"
    and told: "announced (sync D) applied ag"
    using aggregator_runs_keep [OF runs new_inv [OF new]] unfolding aggregator_inv_def replayed_def by (elim conjE exE)
  obtain k where k: "?df k = applied @ rest" "\<And>i. i < k \<Longrightarrow> publisher_log D z (n + int i) \<noteq> None"
    using reads_first [OF C started grew att first par surjective_pairing] deltas stream_deltas_received by metis
  have past: "\<exists>x. apply_all (sync D) (?df j) (default_state (sync D)) = Some x \<and>
      past_state D g z (max (n + 1) (n + int j)) x" if "j \<le> k" for j
    using k(2) that by (intro replay_passed [OF C dec started grew]) simp
  obtain x where "apply_all (sync D) (applied @ rest) (default_state (sync D)) = Some x"
    using past [of k] k(1) by auto
  then have rest: "apply_all (sync D) rest st = Some x" using st by (simp add: apply_all_append)
  then have ok: "producer ag \<notin> {Producer_Done Apply_Failed, Producer_Done Apply_Panicked}"
    using stage by (auto simp: stage_def)
  then have now: "agg_state ag = st" using stage by (auto simp: stage_def split: producer.splits stop.splits)
  obtain j where j: "j \<le> k" "?df j = applied" using deltas_from_prefix [OF k(1)] by blast
  obtain i where "i \<le> length applied" "apply_all (sync D) (take i applied) (default_state (sync D)) = Some (notified ag)"
    using told unfolding announced_def by blast
  moreover obtain l where "l \<le> j" "?df l = take i applied"
    using deltas_from_prefix [of "delta_decode deps" _ n j "take i applied" "drop i applied"] j(2) by auto
  ultimately have "past_state D g z (max (n + 1) (n + int l)) (notified ag)" using past [of l] j(1) by simp
  moreover have "past_state D g z (max (n + 1) (n + int j)) (agg_state ag)" using past [of j] j st now by simp
  ultimately show ?thesis using ok \<open>l \<le> j\<close>
    by (intro conjI exI [of _ "max (n + 1) (n + int l)"] exI [of _ "max (n + 1) (n + int j)"]) simp_all
qed

text \<open>Its aggregator has applied the first delta, and told nobody yet.\<close>

theorem aggregator_shows_past_states_witness:
  "\<exists>ag v w. aggregator_runs list_sync demo_deps (\<lambda>d st. st) tiny_aggregator ag \<and> v \<le> w \<and>
     past_state tiny_deps (tiny_shared [] 1 [[0, 3]] 4) triple_final v [] \<and> notified ag = [] \<and>
     past_state tiny_deps (tiny_shared [] 1 [[0, 3]] 4) triple_final w [9] \<and> agg_state ag = [9]"
proof -
  obtain rs sq' c' where rs: "into_stream demo_deps 2 tiny_subscriber (demo_clock 5) = (rs, Ret (sq', c'))"
      "\<forall>r \<in> set rs. \<exists>data. r = Inr data" "received_deltas rs = [[9]]" using behind_reads by blast
  let ?ag1 = "tiny_aggregator\<lparr>forwarder := Listening sq' c', queue := [[9]]\<rparr>"
  let ?ag2 = "?ag1\<lparr>queue := [], producer := Applying [9]\<rparr>"
  let ?ag3 = "?ag2\<lparr>agg_state := [9], producer := Receiving False\<rparr>"
  have r1: "aggregator_runs list_sync demo_deps (\<lambda>d st. st) tiny_aggregator ?ag1"
    using forwarder_runs [OF rs(1), of tiny_aggregator list_sync "\<lambda>d st. st"] rs(2,3)
    by (simp add: tiny_aggregator_def stream_deltas_received)
  have "producer_step list_sync (\<lambda>d st. st) ?ag1 = Some ?ag2" by (simp add: producer_step_def tiny_aggregator_def)
  note r2 = goes_on [OF r1 produces [OF this]]
  have "producer_step list_sync (\<lambda>d st. st) ?ag2 = Some ?ag3" by (simp add: producer_step_def tiny_aggregator_def)
  note runs = goes_on [OF r2 produces [OF this]]
  have deps: "codec_sound (codec tiny_deps)" "delta_decode demo_deps (delta_bytes tiny_deps d) = Inr d"
    "want_sequence tiny_subscriber = 0" for d by (simp_all add: tiny_sound demo_deps_def)
  have "aggregator_new (sync tiny_deps) tiny_subscriber (Some 4) (demo_clock 5) = Ret tiny_aggregator"
    "aggregator_runs (sync tiny_deps) demo_deps (\<lambda>d st. st) tiny_aggregator ?ag3"
    using tiny_aggregator_new runs by simp_all
  from aggregator_shows_past_states [OF deps(1,2) tiny_started behind_grew behind_attached deps(3) triple_parsable this]
  obtain v w where "v \<le> w" "past_state tiny_deps (tiny_shared [] 1 [[0, 3]] 4) triple_final v (notified ?ag3)"
      "past_state tiny_deps (tiny_shared [] 1 [[0, 3]] 4) triple_final w (agg_state ?ag3)" by blast
  moreover have "notified ?ag3 = []" "agg_state ?ag3 = [9]" by (simp_all add: tiny_aggregator_def)
  ultimately show ?thesis using runs by metis
qed

end
