(* ===== verification/Settling.thy ===== *)
theory Settling
  imports Aggregator_Theorems
begin

text \<open>
  An aggregator settles: from any point of any run the rest of the stream can be read, applied and
  announced, so an aggregator converges when its subscriber does.
\<close>

section \<open>Reading on\<close>

lemma into_stream_rest:
  assumes "into_stream deps n s c = (rs1, Ret (s1, c1))" "into_stream deps m s c = (rs, fin)" "n \<le> m"
  obtains rs2 where "into_stream deps (m - n) s1 c1 = (rs2, fin)" "rs = rs1 @ rs2"
proof -
  obtain rs2 fin2 where rs2: "into_stream deps (m - n) s1 c1 = (rs2, fin2)" by fastforce
  then have "into_stream deps m s c = (rs1 @ rs2, fin2)" using into_stream_append [OF assms(1) rs2] assms(3) by simp
  then show ?thesis using assms(2) that rs2 by simp
qed

text \<open>Nobody has given up.\<close>

definition at_work :: "('st, 'd) aggregator \<Rightarrow> bool" where
  "at_work ag \<longleftrightarrow> forwarder ag \<noteq> Forwarder_Done \<and> 0 < receivers ag \<and> 0 < buffer_size ag \<and>
     (\<forall>why. producer ag \<noteq> Producer_Done why)"

text \<open>The producer has applied what there was, told the receivers, and waits.\<close>

abbreviation settled :: "'st \<Rightarrow> ('st, 'd) aggregator \<Rightarrow> ('st, 'd) aggregator" where
  "settled st ag \<equiv> ag\<lparr>queue := [], producer := Receiving True, agg_state := st, notified := st\<rparr>"

lemma producer_settles:
  assumes "at_work ag" "stage S torn st (ds @ sending ag) ag" "apply_all S ds st = Some st'"
  shows "aggregator_runs S deps torn ag (settled st' ag)"
proof (cases "producer ag")
  case (Receiving e)
  then have "ds = queue ag" "agg_state ag = st" "e \<Longrightarrow> notified ag = st" using assms(2) by (auto simp: stage_def)
  then have "snd (producer_drain S torn ag) = settled st' ag"
    using drained [of S ag st' e torn] assms Receiving by (simp add: at_work_def)
  then show ?thesis using drain_runs by metis
next
  case (Applying d)
  then have st: "ds = d # queue ag" "agg_state ag = st" using assms(2) by (auto simp: stage_def)
  then obtain u st1 where ap: "apply_delta S d st = Ret (Inr u, st1)" "apply_all S (queue ag) st1 = Some st'"
    using assms(3) by (auto split: run.splits sum.splits)
  let ?ag = "ag\<lparr>agg_state := st1, producer := Receiving False\<rparr>"
  have "producer_step S torn ag = Some ?ag" using Applying st(2) ap(1) by (simp add: producer_step_def)
  moreover have "snd (producer_drain S torn ?ag) = settled st' ?ag"
    using drained [of S ?ag st' False torn] assms(1) ap(2) by (simp add: at_work_def)
  then have "aggregator_runs S deps torn ?ag (settled st' ag)" using drain_runs [of S deps torn ?ag] by simp
  ultimately show ?thesis using runs_first [OF _ produces] by metis
qed (use assms(1) in \<open>simp add: at_work_def\<close>)

lemma settled_drains:
  assumes "at_work ag" "producer ag = Receiving True" "notified ag = agg_state ag"
    and "apply_all S (queue ag) (agg_state ag) = Some st'"
  shows "aggregator_runs S deps torn ag (settled st' ag)"
  using drained [of S ag st' True torn] drain_runs [of S deps torn ag] assms by (simp add: at_work_def)

text \<open>Item by item.\<close>

lemma reads_on:
  assumes "into_stream deps m sq c = (rs, Ret (sq', c'))" "all_data rs"
    and "at_work ag" "forwarder ag = Listening sq c" "producer ag = Receiving True" "queue ag = []"
    and "notified ag = agg_state ag" "apply_all S (stream_deltas rs) (agg_state ag) = Some st"
  shows "aggregator_runs S deps torn ag (settled st ag\<lparr>forwarder := Listening sq' c'\<rparr>)"
  using assms
proof (induction m arbitrary: sq c rs ag)
  case 0
  then have "settled st ag\<lparr>forwarder := Listening sq' c'\<rparr> = ag" by auto
  then show ?case by (simp add: stays)
next
  case (Suc m)
  obtain r sq1 c1 where nxt: "sequencer_next deps sq c = Ret (Return r sq1 c1)"
    using Suc.prems(1) by (auto split: run.splits block.splits)
  then obtain rs1 where rs1: "into_stream deps m sq1 c1 = (rs1, Ret (sq', c'))" "rs = [r] @ rs1"
    using Suc.prems(1) by (auto split: prod.splits)
  obtain st1 where st1: "apply_all S (stream_deltas [r]) (agg_state ag) = Some st1"
      "apply_all S (stream_deltas rs1) st1 = Some st"
    using Suc.prems(8) unfolding rs1(2) stream_deltas_append apply_all_append
    by (auto simp: Option.bind_eq_Some_conv)
  let ?ag1 = "ag\<lparr>forwarder := Listening sq1 c1, queue := stream_deltas [r]\<rparr>"
  let ?ag2 = "settled st1 ?ag1"
  have "aggregator_runs S deps torn ag ?ag1"
    using forwarder_runs [OF into_stream_one [OF nxt], of ag S torn] Suc.prems(2-6) rs1(2)
    by (simp add: all_data_def at_work_def)
  moreover have "aggregator_runs S deps torn ?ag1 ?ag2"
    by (rule settled_drains) (use Suc.prems st1 in \<open>simp_all add: at_work_def\<close>)
  moreover have "aggregator_runs S deps torn ?ag2 (settled st ?ag2\<lparr>forwarder := Listening sq' c'\<rparr>)"
    by (rule Suc.IH [OF rs1(1)]) (use Suc.prems st1 rs1(2) in \<open>simp_all add: at_work_def all_data_def\<close>)
  ultimately have "aggregator_runs S deps torn ag (settled st ?ag2\<lparr>forwarder := Listening sq' c'\<rparr>)"
    using runs_append by blast
  moreover have "settled st ?ag2\<lparr>forwarder := Listening sq' c'\<rparr> = settled st ag\<lparr>forwarder := Listening sq' c'\<rparr>" by simp
  ultimately show ?case by (simp only:)
qed

text \<open>From any point of a run.\<close>

lemma settles:
  assumes work: "at_work ag" and at: "forwarder ag = Listening sq c \<or> (\<exists>d. forwarder ag = Sending d sq c)"
    and stage: "stage S torn st (ds @ sending ag) ag"
    and run: "into_stream deps m sq c = (rs, Ret (sq', c'))" "all_data rs"
    and ap: "apply_all S ((ds @ sending ag) @ stream_deltas rs) st = Some st'"
  shows "\<exists>ag'. aggregator_runs S deps torn ag ag' \<and> forwarder ag' = Listening sq' c' \<and>
    agg_state ag' = st' \<and> notified ag' = st' \<and> queue ag' = []"
proof -
  obtain st1 st2 where st: "apply_all S ds st = Some st1" "apply_all S (sending ag) st1 = Some st2"
      "apply_all S (stream_deltas rs) st2 = Some st'"
    using ap by (auto simp: apply_all_append Option.bind_eq_Some_conv)
  have first: "aggregator_runs S deps torn ag (settled st1 ag)" by (rule producer_settles [OF work stage st(1)])
  let ?ag2 = "(settled st2 ag)\<lparr>forwarder := Listening sq c\<rparr>"
  have "aggregator_runs S deps torn (settled st1 ag) ?ag2"
  proof (cases "forwarder ag = Listening sq c")
    case True
    then have "?ag2 = settled st1 ag" using st(2) by (simp add: sending_def)
    then show ?thesis by (simp add: stays)
  next
    case False
    then obtain d where d: "forwarder ag = Sending d sq c" using at by blast
    let ?ag1 = "settled st1 ag\<lparr>queue := [d], forwarder := Listening sq c\<rparr>"
    have "forwarder_step deps (settled st1 ag) = Some ?ag1"
      using d work by (simp add: forwarder_step_def at_work_def)
    moreover have "aggregator_runs S deps torn ?ag1 (settled st2 ?ag1)"
      by (rule settled_drains) (use work d st(2) in \<open>simp_all add: at_work_def sending_def\<close>)
    moreover have "settled st2 ?ag1 = ?ag2" by simp
    ultimately show ?thesis using runs_first [OF _ forwards] by metis
  qed
  moreover have "aggregator_runs S deps torn ?ag2 (settled st' ?ag2\<lparr>forwarder := Listening sq' c'\<rparr>)"
    by (rule reads_on [OF run]) (use work st(3) in \<open>simp_all add: at_work_def\<close>)
  ultimately have "aggregator_runs S deps torn ag (settled st' ?ag2\<lparr>forwarder := Listening sq' c'\<rparr>)"
    using first runs_append by blast
  then show ?thesis by (intro exI [of _ "settled st' ?ag2\<lparr>forwarder := Listening sq' c'\<rparr>"]) simp
qed

section \<open>An aggregator converges\<close>

text \<open>An aggregator whose deltas apply is at work until the receivers or the stream end it.\<close>

lemma working:
  assumes "stage S torn st rest ag" "apply_all S (rest @ more_deltas) st = Some st'"
    and "0 < receivers ag" "producer ag \<noteq> Producer_Done Receivers_Closed" "forwarder ag \<noteq> Forwarder_Done"
    and "0 < buffer_size ag"
  shows "at_work ag \<and> (\<exists>ds. rest = ds @ sending ag)"
proof (cases "producer ag")
  case (Producer_Done why)
  then show ?thesis using assms by (cases why) (auto simp: stage_def)
qed (use assms in \<open>auto simp: stage_def at_work_def\<close>)

lemma delivered_items: "map item_origin rs = map Some os \<Longrightarrow> r \<in> set rs \<Longrightarrow> \<exists>data. r = Inr data"
proof -
  assume "map item_origin rs = map Some os" "r \<in> set rs"
  then have "item_origin r \<in> Some ` set os" by (metis image_eqI image_set)
  then show ?thesis by (cases r) auto
qed

text \<open>Wherever the forwarder is in the stream, it reads on as far as the subscriber can, or is there.\<close>

lemma reads_to:
  assumes C: "codec_sound (codec D)" and started: "started D s0 n g" and grew: "\<And>t. grew_from D g z (store_at t)"
    and att: "attached D store_at z sq" and par: "parsable (publisher_log D z) deps"
    and rs1: "into_stream deps j sq c = (rs1, Ret (s1, c1))" "all_data rs1"
    and up: "into_stream deps k sq c = (rs, Ret (s2, c2))" "all_data rs"
  shows "\<exists>i s' c' rs3. into_stream deps i s1 c1 = (rs3, Ret (s', c')) \<and> all_data rs3 \<and>
    into_stream deps (j + i) sq c = (rs1 @ rs3, Ret (s', c')) \<and> want_sequence s2 \<le> want_sequence s'"
proof (cases "j \<le> k")
  case True
  obtain rs3 where "into_stream deps (k - j) s1 c1 = (rs3, Ret (s2, c2))" "rs = rs1 @ rs3"
    using into_stream_rest [OF rs1(1) up(1) True] .
  then show ?thesis using up True by (intro exI [of _ "k - j"] exI [of _ s2] exI [of _ c2] exI [of _ rs3]) (auto simp: all_data_def)
next
  case False
  note L = publisher_log_ok [OF grew_store(3,4) [OF C started grew]]
  note s2 = into_stream_keeps [OF L attached_authentic [OF C started grew att] up(1)]
  obtain rs3 where late: "into_stream deps (j - k) s2 c2 = (rs3, Ret (s1, c1))"
    using into_stream_rest [OF up(1) rs1(1)] False by (metis nat_le_linear)
  have "want_sequence s2 \<le> want_sequence s1" using in_order_prefix [OF L par _ _ late] s2 by auto
  then show ?thesis using rs1 by (intro exI [of _ 0] exI [of _ s1] exI [of _ c1] exI [of _ "[]"]) (simp add: all_data_def)
qed

text \<open>C5: the whole chain converges, in every interleaving, while the publisher goes on. A publisher and a
  sequencer as in the convergence of a subscriber (any datagrams lost, the deadline passed with messages
  in the buffer, a steady service from then on), and none of the stream's items up to the deadline an
  error. An aggregator is built on that sequencer. At any point of any run of its tasks and receivers,
  while someone still listens and its forwarder has not ended, its tasks can go on to a point where
  nothing is left in the channel, the aggregated state is one the publisher had after everything
  the subscriber had heard, and the receivers have been notified of exactly that; if it is as of the
  publisher's next sequence, it is the publisher's state.\<close>

theorem aggregator_converges:
  assumes C: "codec_sound (codec D)" and dec: "\<And>d. delta_decode deps (delta_bytes D d) = Inr d"
    and started: "started D s0 n g" and grew: "\<And>t. grew_from D g z (store_at t)"
    and att: "attached D store_at z sq" and first: "want_sequence sq = n" and par: "parsable (publisher_log D z) deps"
    and some: "into_stream deps k sq c = (rs, Ret (s, c1))" "overdue s c1"
    and ch: "recovery_client sq = recovery_api_client ch" "steady (codec D) store_at n e (ticks c1) ch"
    and kept: "\<forall>t \<ge> ticks c1. \<forall>m \<in># mm_items (heap s). recv_seq m < e t"
    and clean: "all_data rs"
    and new: "aggregator_new (sync D) sq buf c = Ret ag0" and runs: "aggregator_runs (sync D) deps torn ag0 ag"
    and alive: "0 < receivers ag" "producer ag \<noteq> Producer_Done Receivers_Closed" "forwarder ag \<noteq> Forwarder_Done"
  shows "\<exists>ag' w st. aggregator_runs (sync D) deps torn ag ag' \<and> queue ag' = [] \<and> agg_state ag' = st \<and> notified ag' = st \<and>
    (\<forall>m \<in># mm_items (heap s). recv_seq m < w) \<and> past_state D g z w st \<and>
    (w = next_of z \<longrightarrow> st = inner_state (wrapper (shared z)))"
proof -
  obtain os rs2 s2 c2 where up: "into_stream deps (k + length os) sq c = (rs @ rs2, Ret (s2, c2))"
      "map item_origin rs2 = map Some os" "n < want_sequence s2" "\<forall>m \<in># mm_items (heap s). recv_seq m < want_sequence s2"
    using converges_to [OF C started grew att first par some ch kept] .
  have clean2: "all_data (rs @ rs2)" using clean delivered_items [OF up(2)] by (simp add: all_data_def ball_Un)
  obtain j applied rest st where size: "0 < buffer_size ag" and read: "has_read deps sq c j ag"
    and deltas: "stream_deltas (fst (into_stream deps j sq c)) = applied @ rest"
    and st: "apply_all (sync D) applied (default_state (sync D)) = Some st" and stage: "stage (sync D) torn st rest ag"
    using aggregator_runs_keep [OF runs new_inv [OF new]] unfolding aggregator_inv_def replayed_def by (elim conjE exE)
  obtain sq1 c1' rs1 where at: "forwarder ag = Listening sq1 c1' \<or> (\<exists>d. forwarder ag = Sending d sq1 c1')"
      and rs1: "into_stream deps j sq c = (rs1, Ret (sq1, c1'))" "all_data rs1"
    using read alive(3) by (cases "forwarder ag"; cases "into_stream deps j sq c") (auto simp: has_read_def)
  obtain i sq' c' rs3 where rs3: "into_stream deps i sq1 c1' = (rs3, Ret (sq', c'))" "all_data rs3"
      and all3: "into_stream deps (j + i) sq c = (rs1 @ rs3, Ret (sq', c'))" "want_sequence s2 \<le> want_sequence sq'"
    using reads_to [OF C started grew att par rs1 up(1) clean2] by metis
  obtain x where x: "apply_all (sync D) (received_deltas (rs1 @ rs3)) (default_state (sync D)) = Some x"
      "past_state D g z (want_sequence sq') x"
    using replica_past [OF C dec started grew att first par all3(1)] up(3) all3(2) by (auto simp: max_def)
  have "apply_all (sync D) (applied @ (rest @ stream_deltas rs3)) (default_state (sync D)) = Some x"
    using x(1) deltas rs1(1) unfolding stream_deltas_received [symmetric] stream_deltas_append by simp
  then have goal: "apply_all (sync D) (rest @ stream_deltas rs3) st = Some x" using st by (simp add: apply_all_append)
  have work: "at_work ag" and ds: "\<exists>ds. rest = ds @ sending ag"
    using working [OF stage goal alive size] by blast+
  then obtain ds where rest: "rest = ds @ sending ag" by blast
  have "\<forall>m \<in># mm_items (heap s). recv_seq m < want_sequence sq'" using up(4) all3(2) by force
  moreover have "want_sequence sq' = next_of z \<Longrightarrow> x = inner_state (wrapper (shared z))"
    using past_state_now [OF _ grew_here [OF grew]] x(2) by simp
  ultimately show ?thesis using settles [OF work at stage [unfolded rest] rs3 goal [unfolded rest]] x(2) by blast
qed

text \<open>
  The subscriber of the small publisher with two deltas hears the last message, then the first, and the
  one between is lost.
\<close>

lemma triple_grew: "grew_from tiny_deps (tiny_shared [] 1 [[0, 3]] 4) triple_final (store_of triple_final)"
  unfolding grew_from_def by (intro exI conjI, rule triple_runs, rule runs_none) simp_all

definition gap_subscriber :: message_sequencer where
  "gap_subscriber = tiny_subscriber\<lparr>recovery_client := recovery_api_client (direct_channel (store_of triple_final)),
     udp_framed := [Datagram (tiny_message 2 (Some (Delta \<lparr>body = [7]\<rparr>))), Datagram (tiny_message 0 (Some Started))]\<rparr>"

definition gap_clock :: clocks where
  "gap_clock = \<lparr>instant_at = (\<lambda>t. if t < 5 then 5 else 99), utc_at = int, ticks = 0\<rparr>"

definition gap_waiting :: message_sequencer where
  "gap_waiting = gap_subscriber\<lparr>udp_framed := [], last_deadline := 15, connected := True, want_sequence := 1,
     heap := mm_push (Reverse (received_message_new 2 (tiny_message 2 (Some (Delta \<lparr>body = [7]\<rparr>))) Udp)) mm_new\<rparr>"

lemma gap_attached: "attached tiny_deps (\<lambda>t. store_of triple_final) triple_final gap_subscriber"
proof -
  have "of_datagram tiny_codec (frame [0, 3]) = Some (tiny_message 0 (Some Started))"
    "of_datagram tiny_codec (frame [2, 4, 7]) = Some (tiny_message 2 (Some (Delta \<lparr>body = [7]\<rparr>)))"
    by (rule of_datagram_frame, simp_all add: codec_simps)+
  then show ?thesis using direct_carries
    by (auto simp: attached_def recovers_from_def gap_subscriber_def tiny_shared_def)
qed

lemma gap_first: "\<exists>data. into_stream demo_deps 1 gap_subscriber gap_clock =
    ([Inr data], Ret (gap_waiting, gap_clock\<lparr>ticks := 5\<rparr>))"
proof -
  let ?s = "gap_subscriber\<lparr>last_deadline := 15\<rparr>"
  have "heap_block demo_deps gap_subscriber gap_clock = Ret (Fall gap_subscriber gap_clock)"
    by (rule heap_block_fall) (use mm.peek_in [OF mm_inv_new] in \<open>fastforce simp: gap_subscriber_def\<close>)
  moreover have "connect_block gap_subscriber gap_clock = (?s, gap_clock\<lparr>ticks := 1\<rparr>)"
    by (simp add: connect_block_def gap_subscriber_def gap_clock_def instant_now_def tick_def)
  moreover have "ns_to_datetime demo_deps 0 = Ret 0" "wrap_i64 1 = 1"
    by (rule ns_to_datetime_exact [OF demo_chrono], simp_all add: wrap_i64_id in_i64_def)
  then have "\<exists>data. listen_block demo_deps ?s (gap_clock\<lparr>ticks := 1\<rparr>) =
      Ret (Return (Inr data) gap_waiting (gap_clock\<lparr>ticks := 5\<rparr>))"
    by (simp add: listen_event gap_clock_def gap_subscriber_def gap_waiting_def after_datagram_def tick_def advance_def
        return_parsed_def try_parse_def parse_payload_def demo_deps_def)
  ultimately obtain data where "sequencer_next demo_deps gap_subscriber gap_clock =
      Ret (Return (Inr data) gap_waiting (gap_clock\<lparr>ticks := 5\<rparr>))"
    by (auto simp: next_without_stream gap_subscriber_def)
  then show ?thesis using into_stream_one by blast
qed

definition gap_aggregator :: "(byte list, byte list) aggregator" where
  "gap_aggregator = \<lparr>forwarder = Listening gap_subscriber gap_clock, queue = [], buffer_size = 4,
     producer = Receiving True, agg_state = [], notified = [], receivers = 1\<rparr>"

theorem aggregator_converges_witness:
  "\<exists>ag'. aggregator_runs list_sync demo_deps (\<lambda>d st. st) gap_aggregator ag' \<and> queue ag' = [] \<and>
    agg_state ag' = [9, 7] \<and> notified ag' = [9, 7]"
proof -
  let ?m = "received_message_new 2 (tiny_message 2 (Some (Delta \<lparr>body = [7]\<rparr>))) Udp"
  obtain data where first: "into_stream demo_deps 1 gap_subscriber gap_clock =
      ([Inr data], Ret (gap_waiting, gap_clock\<lparr>ticks := 5\<rparr>))" using gap_first by blast
  have o: "overdue gap_waiting (gap_clock\<lparr>ticks := 5\<rparr>)" and h: "?m \<in># mm_items (heap gap_waiting)"
    by (simp_all add: overdue_def late_def gap_waiting_def gap_subscriber_def gap_clock_def mm.push_items)
  have "i < 3 \<longleftrightarrow> table_map (store_of triple_final) i \<noteq> None" if "0 \<le> i" for i
  proof -
    have "i < 3 \<longleftrightarrow> i = 0 \<or> i = 1 \<or> i = 2" using that by auto
    then show ?thesis unfolding triple_table by auto
  qed
  then have st: "steady (codec tiny_deps) (\<lambda>t. store_of triple_final) 0 (\<lambda>t. 3) (ticks (gap_clock\<lparr>ticks := 5\<rparr>))
      (direct_channel (store_of triple_final))" using direct_reliable by (simp add: steady_def tiny_shared_def)
  have C: "codec_sound (codec tiny_deps)" "delta_decode demo_deps (delta_bytes tiny_deps d) = Inr d"
    "recovery_client gap_subscriber = recovery_api_client (direct_channel (store_of triple_final))"
    "want_sequence gap_subscriber = 0" for d by (simp_all add: tiny_sound demo_deps_def gap_subscriber_def)
  have kept: "\<forall>t \<ge> ticks (gap_clock\<lparr>ticks := 5\<rparr>). \<forall>m \<in># mm_items (heap gap_waiting). recv_seq m < (3 :: int)"
    by (simp add: gap_waiting_def mm.push_items)
  have new: "aggregator_new (sync tiny_deps) gap_subscriber (Some 4) gap_clock = Ret gap_aggregator"
    by (simp add: aggregator_new_def gap_aggregator_def Let_def)
  obtain ag' w st where ag': "aggregator_runs list_sync demo_deps (\<lambda>d st. st) gap_aggregator ag'" "queue ag' = []"
      "agg_state ag' = st" "notified ag' = st" "2 < w" "past_state tiny_deps (tiny_shared [] 1 [[0, 3]] 4) triple_final w st"
      "w = next_of triple_final \<longrightarrow> st = [9, 7]"
    using aggregator_converges [where torn = "\<lambda>d st. st", OF C(1,2) tiny_started triple_grew gap_attached C(4) triple_parsable
        first o C(3) st kept _ new stays] h
    by (auto simp: all_data_def gap_aggregator_def tiny_shared_def)
  have "w \<le> next_of triple_final" by (rule past_state_within(2) [OF C(1) tiny_started ag'(6)])
  then have "st = [9, 7]" using ag'(5,7) by (simp add: tiny_shared_def)
  then show ?thesis using ag' by blast
qed

end
