(* ===== verification/Restart.thy ===== *)
theory Restart
  imports Convergence
begin

text \<open>
  A publisher that stops and starts again on the same log: what a subscriber that goes on across
  the restart rebuilds.
\<close>

section \<open>Two lives of a publisher\<close>






section \<open>A subscriber that goes on\<close>


text \<open>The small publisher, started again, with the byte 7 in its second life; its subscriber hears
  the datagrams of both.\<close>

definition second_shared :: "byte list \<Rightarrow> int \<Rightarrow> byte list list \<Rightarrow> nat \<Rightarrow> (byte list, master_pool) shared" where
  "second_shared st n entries calls = (tiny_shared st n entries calls)\<lparr>socket :=
     quiet_socket\<lparr>sent := map frame (drop 2 entries), attempts := length entries - 2\<rparr>\<rparr>"


lemma second_simps [simp]:
  "wrapper_sequence (wrapper (second_shared st n es c)) = n" "inner_state (wrapper (second_shared st n es c)) = st"
  "store (second_shared st n es c) = store (tiny_shared st n es c)"
  "sent (socket (second_shared st n es c)) = map frame (drop 2 es)"
  by (simp_all add: second_shared_def tiny_shared_def)










end
