(* ===== verification/Order_Book.thy ===== *)
theory Order_Book
  imports State_Sync
begin

text \<open>
  \<open>examples/src/order_book.rs\<close> and \<open>examples/src/generated/order_book.rs\<close>: the example application, a
  level 1 order book that is shared through \<open>StateSync\<close>, and the random deltas that drive it.

  The random choices (crates \<open>rand\<close> and \<open>rand_distr\<close>) and the time are explicit; prices and
  quantities are \<open>u32\<close>, whose arithmetic wraps around.
\<close>

section \<open>The messages\<close>

type_synonym u32 = "32 word"

record quote_delta =
  quote_action :: int
  quote_price :: u32
  quote_quantity :: u32
  quote_timestamp :: int
  quote_side :: int

datatype quote_action = Insert | Remove

datatype side = Buy | Sell

text \<open>The discriminants (\<open>as i32\<close>), what prost derives from them, and the names in the \<open>.proto\<close> file.\<close>

fun action_as_i32 :: "quote_action \<Rightarrow> int" where
  "action_as_i32 Insert = 1"
| "action_as_i32 Remove = 2"

fun side_as_i32 :: "side \<Rightarrow> int" where
  "side_as_i32 Buy = 1"
| "side_as_i32 Sell = 2"

definition action_from_i32 :: "int \<Rightarrow> quote_action option" where
  "action_from_i32 i = (if i = 1 then Some Insert else if i = 2 then Some Remove else None)"

definition side_from_i32 :: "int \<Rightarrow> side option" where
  "side_from_i32 i = (if i = 1 then Some Buy else if i = 2 then Some Sell else None)"

fun action_as_str_name :: "quote_action \<Rightarrow> string" where
  "action_as_str_name Insert = ''INSERT''"
| "action_as_str_name Remove = ''REMOVE''"

fun side_as_str_name :: "side \<Rightarrow> string" where
  "side_as_str_name Buy = ''BUY''"
| "side_as_str_name Sell = ''SELL''"

lemma from_as_i32 [simp]: "action_from_i32 (action_as_i32 a) = Some a" "side_from_i32 (side_as_i32 s) = Some s"
  by (cases a; simp add: action_from_i32_def) (cases s; simp add: side_from_i32_def)

section \<open>The book\<close>

record quote_aggregate =
  price :: u32
  quantity :: u32
  last_updated :: int

text \<open>\<open>QuoteAggregate \{ price, ..Default::default() \}\<close>\<close>

definition aggregate_at :: "u32 \<Rightarrow> quote_aggregate" where
  "aggregate_at p = \<lparr>price = p, quantity = 0, last_updated = 0\<rparr>"

text \<open>The result tells whether to retain the aggregate; an unknown action panics.\<close>

definition aggregate_apply_delta :: "quote_delta \<Rightarrow> quote_aggregate \<Rightarrow> (bool \<times> quote_aggregate) run" where
  "aggregate_apply_delta delta agg =
     (case action_from_i32 (quote_action delta) of
        None \<Rightarrow> Panic
      | Some Insert \<Rightarrow>
          Ret (True, agg\<lparr>quantity := quantity agg + quote_quantity delta, last_updated := quote_timestamp delta\<rparr>)
      | Some Remove \<Rightarrow>
          let agg' = agg\<lparr>quantity := quantity agg - quote_quantity delta, last_updated := quote_timestamp delta\<rparr>
          in Ret (quantity agg' > 0, agg'))"

record order_book =
  buys :: "(u32 reverse, quote_aggregate) btree_map"
  sells :: "(u32, quote_aggregate) btree_map"

definition book_default :: order_book where
  "book_default = \<lparr>buys = [], sells = []\<rparr>"

text \<open>\<open>entry(key).or_insert(..).apply_delta(delta)\<close>, then \<open>remove(&key)\<close> unless retained.\<close>

definition apply_to_entry ::
  "'k::linorder \<Rightarrow> quote_delta \<Rightarrow> ('k, quote_aggregate) btree_map \<Rightarrow> ('k, quote_aggregate) btree_map run" where
  "apply_to_entry key delta m =
     (let agg = (case bt_get m key of Some agg \<Rightarrow> agg | None \<Rightarrow> aggregate_at (quote_price delta))
      in run_bind (aggregate_apply_delta delta agg) (\<lambda>(retain, agg').
           let m' = bt_insert key agg' m in Ret (if retain then m' else bt_remove key m')))"

definition book_apply_delta :: "quote_delta \<Rightarrow> order_book \<Rightarrow> ((unit, unit) result \<times> order_book) run" where
  "book_apply_delta delta book =
     (case side_from_i32 (quote_side delta) of
        None \<Rightarrow> Panic
      | Some Buy \<Rightarrow> run_bind (apply_to_entry (Reverse (quote_price delta)) delta (buys book))
          (\<lambda>m. Ret (Inr (), book\<lparr>buys := m\<rparr>))
      | Some Sell \<Rightarrow> run_bind (apply_to_entry (quote_price delta) delta (sells book))
          (\<lambda>m. Ret (Inr (), book\<lparr>sells := m\<rparr>)))"

text \<open>The error type is \<open>Infallible\<close>, as for the tree of leaves.\<close>

definition book_sync :: "(order_book, quote_delta, unit) state_sync" where
  "book_sync = \<lparr>default_state = book_default, apply_delta = book_apply_delta\<rparr>"

text \<open>\<open>Display\<close>: what \<open>\{:?\}\<close> prints for the optional pairs.\<close>

definition show_pair :: "(u32 \<times> u32) option \<Rightarrow> string" where
  "show_pair p = (case p of
     None \<Rightarrow> ''None''
   | Some (a, b) \<Rightarrow> ''Some(('' @ show_int (uint a) @ '', '' @ show_int (uint b) @ ''))'')"

definition book_display :: "order_book \<Rightarrow> string" where
  "book_display book =
     (let best_buy = map_option (\<lambda>k. let e = the (bt_get (buys book) k) in (quantity e, price e)) (bt_min_key (buys book));
          best_sell = map_option (\<lambda>k. let e = the (bt_get (sells book) k) in (price e, quantity e)) (bt_min_key (sells book))
      in ''Buy: '' @ show_pair best_buy @ '' | '' @ show_pair best_sell @ '' :Sell'')"

section \<open>Random deltas\<close>

text \<open>
  What one call draws: the two coins, the price from the normal distribution (after \<open>as u32\<close>), the
  quantity to insert, the index that \<open>choose\<close> picks of so many elements, the quantity to remove up
  to a bound, and the time.
\<close>

record dice =
  coin_side :: bool
  coin_action :: bool
  normal_price :: u32
  range_quantity :: u32
  choose_index :: "nat \<Rightarrow> nat"
  range_removal :: "u32 \<Rightarrow> u32"
  nanos :: int

definition MIN_ORDERS :: nat where "MIN_ORDERS = 10"
definition MAX_ORDERS :: nat where "MAX_ORDERS = 15"
definition MAX_QUANTITY :: u32 where "MAX_QUANTITY = 100"

text \<open>What \<open>rand\<close> documents of \<open>gen_range(1..MAX_QUANTITY)\<close>, \<open>choose\<close> and \<open>gen_range(1..=n)\<close>.\<close>

definition fair :: "dice \<Rightarrow> bool" where
  "fair d \<longleftrightarrow> 1 \<le> range_quantity d \<and> range_quantity d < MAX_QUANTITY \<and>
     (\<forall>n>0. choose_index d n < n) \<and> (\<forall>q>0. 1 \<le> range_removal d q \<and> range_removal d q \<le> q)"

definition choose_action :: "dice \<Rightarrow> nat \<Rightarrow> quote_action" where
  "choose_action d n_orders =
     (if n_orders < MIN_ORDERS then Insert
      else if n_orders < MAX_ORDERS then (if coin_action d then Remove else Insert)
      else Remove)"

text \<open>A random element of the side and part of its quantity: \<open>unwrap\<close> panics on an empty side, and
  \<open>gen_range\<close> on an empty range.\<close>

definition choose_removal :: "dice \<Rightarrow> quote_aggregate list \<Rightarrow> (u32 \<times> u32) run" where
  "choose_removal d aggs =
     (if aggs = [] then Panic
      else let agg = aggs ! choose_index d (length aggs)
           in if quantity agg = 0 then Panic else Ret (price agg, range_removal d (quantity agg)))"

definition new_random_delta :: "dice \<Rightarrow> order_book \<Rightarrow> quote_delta run" where
  "new_random_delta d book =
     (let (sd, n_orders, cross_limit) =
        (if coin_side d
         then (Buy, length (buys book), map_option (\<lambda>x. x - 1) (bt_min_key (sells book)))
         else (Sell, length (sells book), map_option (\<lambda>x. unreverse x + 1) (bt_min_key (buys book))));
        action = choose_action d n_orders
      in case action of
           Insert \<Rightarrow>
             let p = (case sd of
                        Buy \<Rightarrow> (case cross_limit of Some l \<Rightarrow> min l (normal_price d) | None \<Rightarrow> normal_price d)
                      | Sell \<Rightarrow> (case cross_limit of Some l \<Rightarrow> max l (normal_price d) | None \<Rightarrow> normal_price d))
             in Ret \<lparr>quote_action = action_as_i32 action, quote_price = p, quote_quantity = range_quantity d,
                  quote_timestamp = nanos d, quote_side = side_as_i32 sd\<rparr>
         | Remove \<Rightarrow>
             run_bind (case sd of Buy \<Rightarrow> choose_removal d (map snd (buys book)) | Sell \<Rightarrow> choose_removal d (map snd (sells book)))
               (\<lambda>(p, q). Ret \<lparr>quote_action = action_as_i32 action, quote_price = p, quote_quantity = q,
                  quote_timestamp = nanos d, quote_side = side_as_i32 sd\<rparr>))"

text \<open>The loop of \<open>order_book_publisher.rs\<close>, as the book sees it: draw a delta, apply it.\<close>

fun random_walk :: "dice list \<Rightarrow> order_book \<Rightarrow> order_book run" where
  "random_walk [] book = Ret book"
| "random_walk (d # ds) book =
     run_bind (new_random_delta d book) (\<lambda>delta.
       run_bind (book_apply_delta delta book) (\<lambda>(r, book'). random_walk ds book'))"

section \<open>One delta\<close>

text \<open>The quantity of a level; an absent level has none.\<close>

definition level :: "('k, quote_aggregate) btree_map \<Rightarrow> 'k \<Rightarrow> u32" where
  "level m k = (case bt_get m k of Some agg \<Rightarrow> quantity agg | None \<Rightarrow> 0)"

text \<open>A side of the book: every aggregate sits under its own price.\<close>

definition side_ok :: "('k::linorder \<Rightarrow> u32) \<Rightarrow> ('k, quote_aggregate) btree_map \<Rightarrow> bool" where
  "side_ok f m \<longleftrightarrow> bt_ok m \<and> (\<forall>k agg. bt_get m k = Some agg \<longrightarrow> price agg = f k)"

definition book_ok :: "order_book \<Rightarrow> bool" where
  "book_ok book \<longleftrightarrow> side_ok unreverse (buys book) \<and> side_ok (\<lambda>k. k) (sells book)"

definition signed_quantity :: "quote_action \<Rightarrow> u32 \<Rightarrow> u32" where
  "signed_quantity a q = (case a of Insert \<Rightarrow> q | Remove \<Rightarrow> - q)"

lemma apply_to_entry_panic: "apply_to_entry key delta m = Panic \<longleftrightarrow> action_from_i32 (quote_action delta) = None"
  by (auto simp: apply_to_entry_def aggregate_apply_delta_def run_bind_Panic_iff Let_def
      split: option.splits quote_action.splits)

lemma word_pos_iff: "0 < (x :: u32) \<longleftrightarrow> x \<noteq> 0"
  by (simp only: word_neq_0_conv)

lemma apply_to_entry_ok:
  assumes ok: "side_ok f m" and key: "f key = quote_price delta" and act: "action_from_i32 (quote_action delta) = Some a"
  shows "\<exists>m'. apply_to_entry key delta m = Ret m' \<and> side_ok f m' \<and>
    level m' = (level m)(key := level m key + signed_quantity a (quote_quantity delta)) \<and>
    dom (bt_get m') \<subseteq> insert key (dom (bt_get m)) \<and>
    (a = Remove \<longrightarrow> (\<forall>k. k \<noteq> key \<longrightarrow> bt_get m' k = bt_get m k) \<and> (key \<in> dom (bt_get m') \<longrightarrow> level m' key \<noteq> 0))"
proof -
  define agg where "agg = (case bt_get m key of Some agg \<Rightarrow> agg | None \<Rightarrow> aggregate_at (quote_price delta))"
  define agg' where "agg' = agg\<lparr>quantity := quantity agg + signed_quantity a (quote_quantity delta),
    last_updated := quote_timestamp delta\<rparr>"
  have lev: "level m key = quantity agg" by (simp add: agg_def level_def aggregate_at_def split: option.split)
  have pr: "price agg = f key"
    using ok key by (auto simp: agg_def side_ok_def aggregate_at_def split: option.split)
  let ?m = "bt_insert key agg' m"
  have bt: "bt_ok m" using ok by (simp add: side_ok_def)
  have run: "apply_to_entry key delta m =
      Ret (if a = Insert \<or> quantity agg' \<noteq> 0 then ?m else bt_remove key ?m)"
    using act by (cases a)
      (simp_all add: apply_to_entry_def aggregate_apply_delta_def agg_def [symmetric] agg'_def signed_quantity_def
        word_pos_iff Let_def)
  have get: "bt_get ?m = (bt_get m)(key \<mapsto> agg')" by (rule bt_get_insert [OF bt])
  have ins: "side_ok f ?m" using ok pr bt by (auto simp: side_ok_def agg'_def)
  have levels: "level ?m = (level m)(key := level m key + signed_quantity a (quote_quantity delta))"
    using lev bt by (auto simp: level_def agg'_def fun_eq_iff)
  show ?thesis
  proof (cases "a = Insert \<or> quantity agg' \<noteq> 0")
    case True
    then show ?thesis using run ins levels get by (auto simp: level_def)
  next
    case False
    have "level (bt_remove key ?m) = level ?m" using False bt by (auto simp: level_def fun_eq_iff)
    moreover have "side_ok f (bt_remove key ?m)" using ins by (auto simp: side_ok_def split: if_splits)
    ultimately show ?thesis using run False levels get bt by auto
  qed
qed

text \<open>The levels of a side of the book by price, and what a delta does to them.\<close>

fun levels :: "side \<Rightarrow> order_book \<Rightarrow> u32 \<Rightarrow> u32" where
  "levels Buy book p = level (buys book) (Reverse p)"
| "levels Sell book p = level (sells book) p"

lemma other_side:
  "(\<forall>other. other \<noteq> Buy \<longrightarrow> P other) \<longleftrightarrow> P Sell" "(\<forall>other. other \<noteq> Sell \<longrightarrow> P other) \<longleftrightarrow> P Buy"
  by (metis side.exhaust side.distinct(1))+

lemma book_apply_effect:
  assumes "book_ok book" "side_from_i32 (quote_side delta) = Some sd" "action_from_i32 (quote_action delta) = Some a"
  shows "\<exists>book'. book_apply_delta delta book = Ret (Inr (), book') \<and> book_ok book' \<and>
    levels sd book' = (levels sd book)(quote_price delta :=
      levels sd book (quote_price delta) + signed_quantity a (quote_quantity delta)) \<and>
    (\<forall>other. other \<noteq> sd \<longrightarrow> levels other book' = levels other book)"
proof (cases sd)
  case Buy
  obtain m' where "apply_to_entry (Reverse (quote_price delta)) delta (buys book) = Ret m'" "side_ok unreverse m'"
    "level m' = (level (buys book))(Reverse (quote_price delta) :=
      level (buys book) (Reverse (quote_price delta)) + signed_quantity a (quote_quantity delta))"
    using apply_to_entry_ok [of unreverse "buys book" "Reverse (quote_price delta)" delta a] assms
    unfolding book_ok_def by auto
  then show ?thesis using assms Buy
    by (simp add: book_apply_delta_def book_ok_def other_side fun_eq_iff)
next
  case Sell
  obtain m' where "apply_to_entry (quote_price delta) delta (sells book) = Ret m'" "side_ok (\<lambda>k. k) m'"
    "level m' = (level (sells book))(quote_price delta :=
      level (sells book) (quote_price delta) + signed_quantity a (quote_quantity delta))"
    using apply_to_entry_ok [of "\<lambda>k. k" "sells book" "quote_price delta" delta a] assms
    unfolding book_ok_def by auto
  then show ?thesis using assms Sell
    by (simp add: book_apply_delta_def book_ok_def other_side fun_eq_iff)
qed

lemma book_apply_panic:
  "book_apply_delta delta book = Panic \<longleftrightarrow>
    side_from_i32 (quote_side delta) = None \<or> action_from_i32 (quote_action delta) = None"
  by (auto simp: book_apply_delta_def run_bind_Panic_iff apply_to_entry_panic split: option.split side.split)

section \<open>Walks\<close>

lemma pred_less: "x \<noteq> 0 \<Longrightarrow> (x :: u32) - 1 < x"
  by (simp add: word_less_nat_alt unat_minus_one unat_gt_0)

lemma less_succ: "x \<noteq> - 1 \<Longrightarrow> (x :: u32) < x + 1"
proof -
  assume "x \<noteq> - 1"
  then have "x + 1 \<noteq> 0" unfolding eq_neg_iff_add_eq_0 .
  then have "1 + x \<noteq> 0" by (metis add.commute)
  then show ?thesis using unatSuc [of x] by (simp add: word_less_nat_alt add.commute)
qed

text \<open>After \<open>k\<close> deltas: no level is empty, and none has more than 99 for each delta.\<close>

definition side_walk :: "nat \<Rightarrow> ('k::linorder \<Rightarrow> u32) \<Rightarrow> ('k, quote_aggregate) btree_map \<Rightarrow> bool" where
  "side_walk k f m \<longleftrightarrow> side_ok f m \<and>
     (\<forall>key \<in> dom (bt_get m). level m key \<noteq> 0 \<and> unat (level m key) \<le> 99 * k)"

text \<open>Every buy is below every sell.\<close>

definition uncrossed :: "order_book \<Rightarrow> bool" where
  "uncrossed book \<longleftrightarrow> (\<forall>b \<in> dom (bt_get (buys book)). \<forall>s \<in> dom (bt_get (sells book)). unreverse b < s)"

definition walk_ok :: "nat \<Rightarrow> order_book \<Rightarrow> bool" where
  "walk_ok k book \<longleftrightarrow> side_walk k unreverse (buys book) \<and> side_walk k (\<lambda>x. x) (sells book) \<and> uncrossed book \<and>
     (\<forall>b \<in> dom (bt_get (buys book)). unreverse b \<noteq> - 1) \<and> (\<forall>s \<in> dom (bt_get (sells book)). s \<noteq> 0)"

lemma insert_walk:
  assumes m: "side_walk k f m" and key: "f key = quote_price delta"
    and act: "action_from_i32 (quote_action delta) = Some Insert"
    and q: "quote_quantity delta \<noteq> 0" "unat (quote_quantity delta) \<le> 99" and k: "99 * Suc k < 2 ^ 32"
  shows "\<exists>m'. apply_to_entry key delta m = Ret m' \<and> side_walk (Suc k) f m' \<and>
    dom (bt_get m') \<subseteq> insert key (dom (bt_get m))"
proof -
  have "side_ok f m" using m by (simp add: side_walk_def)
  from apply_to_entry_ok [OF this key act] obtain m' where m':
    "apply_to_entry key delta m = Ret m'" "side_ok f m'"
    "level m' = (level m)(key := level m key + quote_quantity delta)"
    "dom (bt_get m') \<subseteq> insert key (dom (bt_get m))"
    by (auto simp: signed_quantity_def)
  have "unat (level m key) \<le> 99 * k"
    using m by (cases "key \<in> dom (bt_get m)") (auto simp: side_walk_def level_def domIff)
  then have "unat (level m key) + unat (quote_quantity delta) < 2 ^ LENGTH(32)" using q(2) k by simp
  then have sum: "unat (level m key + quote_quantity delta) = unat (level m key) + unat (quote_quantity delta)"
    by (simp only: unat_add_lem [THEN iffD1])
  have "0 < unat (quote_quantity delta)" using q(1) by (simp add: unat_gt_0)
  then have "level m' x \<noteq> 0 \<and> unat (level m' x) \<le> 99 * Suc k" if "x \<in> dom (bt_get m')" for x
    using that m'(3,4) sum \<open>unat (level m key) \<le> 99 * k\<close> q(2) m
    by (cases "x = key") (force simp: side_walk_def)+
  then show ?thesis using m' by (auto simp: side_walk_def)
qed

lemma remove_walk:
  assumes m: "side_walk k f m" and key: "f key = quote_price delta"
    and act: "action_from_i32 (quote_action delta) = Some Remove"
    and q: "quote_quantity delta \<le> level m key" "key \<in> dom (bt_get m)"
  shows "\<exists>m'. apply_to_entry key delta m = Ret m' \<and> side_walk (Suc k) f m' \<and> dom (bt_get m') \<subseteq> dom (bt_get m)"
proof -
  have "side_ok f m" using m by (simp add: side_walk_def)
  from apply_to_entry_ok [OF this key act] obtain m' where m':
    "apply_to_entry key delta m = Ret m'" "side_ok f m'"
    "level m' = (level m)(key := level m key - quote_quantity delta)"
    "dom (bt_get m') \<subseteq> insert key (dom (bt_get m))" "key \<in> dom (bt_get m') \<longrightarrow> level m' key \<noteq> 0"
    by (auto simp: signed_quantity_def)
  have "unat (level m key - quote_quantity delta) \<le> unat (level m key)"
    using q(1) by (simp add: unat_sub)
  then have "level m' x \<noteq> 0 \<and> unat (level m' x) \<le> 99 * Suc k" if "x \<in> dom (bt_get m')" for x
    using that m'(3-5) q(2) m by (cases "x = key") (force simp: side_walk_def)+
  moreover have "dom (bt_get m') \<subseteq> dom (bt_get m)" using m'(4) q(2) by blast
  ultimately show ?thesis using m'(1,2) unfolding side_walk_def by blast
qed

text \<open>What a fair draw can be.\<close>

definition fits :: "order_book \<Rightarrow> side \<Rightarrow> quote_action \<Rightarrow> u32 \<Rightarrow> u32 \<Rightarrow> bool" where
  "fits book sd a p q \<longleftrightarrow> q \<noteq> 0 \<and>
     (case a of
        Insert \<Rightarrow> unat q \<le> 99 \<and>
          (case sd of
             Buy \<Rightarrow> p \<noteq> - 1 \<and> (\<forall>s \<in> dom (bt_get (sells book)). p < s)
           | Sell \<Rightarrow> p \<noteq> 0 \<and> (\<forall>b \<in> dom (bt_get (buys book)). unreverse b < p))
      | Remove \<Rightarrow>
          (case sd of
             Buy \<Rightarrow> Reverse p \<in> dom (bt_get (buys book)) \<and> q \<le> level (buys book) (Reverse p)
           | Sell \<Rightarrow> p \<in> dom (bt_get (sells book)) \<and> q \<le> level (sells book) p))"

lemma choose_removal_ok:
  assumes m: "side_walk k f m" and d: "fair d" and ne: "m \<noteq> []"
  shows "\<exists>key q. choose_removal d (map snd m) = Ret (f key, q) \<and> key \<in> dom (bt_get m) \<and> q \<noteq> 0 \<and> q \<le> level m key"
proof -
  let ?i = "choose_index d (length m)"
  have i: "?i < length m" using d ne by (simp add: fair_def)
  obtain key agg where e: "m ! ?i = (key, agg)" by fastforce
  then have "(key, agg) \<in> set m" using i by (metis nth_mem)
  then have get: "bt_get m key = Some agg" using m by (simp add: side_walk_def side_ok_def bt_get_entry)
  then have "price agg = f key" "level m key = quantity agg"
    using m by (simp_all add: side_walk_def side_ok_def level_def)
  moreover have "level m key \<noteq> 0" using m get unfolding side_walk_def by blast
  ultimately have "quantity agg \<noteq> 0" "price agg = f key" "level m key = quantity agg" by simp_all
  then have "choose_removal d (map snd m) = Ret (f key, range_removal d (level m key))"
    using ne i e by (simp add: choose_removal_def Let_def)
  moreover have "range_removal d (level m key) \<noteq> 0" "range_removal d (level m key) \<le> level m key"
    using d \<open>quantity agg \<noteq> 0\<close> \<open>level m key = _\<close> by (auto simp: fair_def word_pos_iff)
  ultimately show ?thesis using get by blast
qed

lemma new_random_delta_fits:
  assumes w: "walk_ok k book" and d: "fair d" "normal_price d \<noteq> 0" "normal_price d \<noteq> - 1"
  shows "\<exists>sd a p q. new_random_delta d book = Ret \<lparr>quote_action = action_as_i32 a, quote_price = p,
      quote_quantity = q, quote_timestamp = nanos d, quote_side = side_as_i32 sd\<rparr> \<and> fits book sd a p q"
proof -
  have q: "range_quantity d \<noteq> 0" "unat (range_quantity d) \<le> 99"
    using d(1) by (auto simp: fair_def MAX_QUANTITY_def word_less_nat_alt)
  have below: "min (x - 1) p < s" if "bt_min_key (sells book) = Some x" "s \<in> dom (bt_get (sells book))" for x s p
  proof -
    have "x \<noteq> 0" "x \<le> s" using bt_min_key_Some [OF that(1)] that(2) w by (auto simp: walk_ok_def)
    then show ?thesis using pred_less [of x] by (simp add: min.strict_coboundedI1)
  qed
  have above: "unreverse b < max (unreverse x + 1) p" if "bt_min_key (buys book) = Some x" "b \<in> dom (bt_get (buys book))" for x b p
  proof -
    have "unreverse x \<noteq> - 1" "unreverse b \<le> unreverse x"
      using bt_min_key_Some [OF that(1)] that(2) w by (auto simp: walk_ok_def less_eq_reverse_def)
    then show ?thesis using less_succ [of "unreverse x"] by (simp add: max.strict_coboundedI1)
  qed
  show ?thesis
  proof (cases "coin_side d")
    case True
    show ?thesis
    proof (cases "choose_action d (length (buys book))")
      case Insert
      let ?p = "case map_option (\<lambda>x. x - 1) (bt_min_key (sells book)) of
        Some l \<Rightarrow> min l (normal_price d) | None \<Rightarrow> normal_price d"
      have "?p \<noteq> - 1 \<and> (\<forall>s \<in> dom (bt_get (sells book)). ?p < s)"
      proof (cases "bt_min_key (sells book)")
        case None
        then show ?thesis using d(3) by (simp add: bt_min_key_def dom_bt_get split: if_splits)
      next
        case (Some x)
        have "min (x - 1) (normal_price d) \<le> normal_price d" by simp
        also have "normal_price d < - 1" using d(3) by (simp add: word_order.not_eq_extremum)
        finally have "min (x - 1) (normal_price d) \<noteq> - 1" by (rule less_imp_neq)
        then show ?thesis using below [OF Some] Some by auto
      qed
      then show ?thesis using Insert True q unfolding new_random_delta_def Let_def fits_def
        by (intro exI [of _ Buy] exI [of _ quote_action.Insert] exI [of _ ?p] exI [of _ "range_quantity d"]) simp
    next
      case Remove
      then have "buys book \<noteq> []" by (auto simp: choose_action_def MIN_ORDERS_def)
      then obtain key rq where r: "choose_removal d (map snd (buys book)) = Ret (unreverse key, rq)"
          "key \<in> dom (bt_get (buys book))" "rq \<noteq> 0" "rq \<le> level (buys book) key"
        using choose_removal_ok [of k unreverse "buys book" d] w d(1) by (auto simp: walk_ok_def)
      then show ?thesis using True Remove unfolding new_random_delta_def Let_def fits_def
        by (intro exI [of _ Buy] exI [of _ quote_action.Remove] exI [of _ "unreverse key"] exI [of _ rq])
          (cases key, simp)
    qed
  next
    case False
    show ?thesis
    proof (cases "choose_action d (length (sells book))")
      case Insert
      let ?p = "case map_option (\<lambda>x. unreverse x + 1) (bt_min_key (buys book)) of
        Some l \<Rightarrow> max l (normal_price d) | None \<Rightarrow> normal_price d"
      have "?p \<noteq> 0 \<and> (\<forall>b \<in> dom (bt_get (buys book)). unreverse b < ?p)"
      proof (cases "bt_min_key (buys book)")
        case None
        then show ?thesis using d(2) by (simp add: bt_min_key_def dom_bt_get split: if_splits)
      next
        case (Some x)
        have "0 < normal_price d" using d(2) unfolding word_pos_iff .
        also have "normal_price d \<le> max (unreverse x + 1) (normal_price d)" by simp
        finally have "max (unreverse x + 1) (normal_price d) \<noteq> 0" unfolding word_pos_iff .
        then show ?thesis using above [OF Some] Some by auto
      qed
      then show ?thesis using Insert False q unfolding new_random_delta_def Let_def fits_def
        by (intro exI [of _ Sell] exI [of _ quote_action.Insert] exI [of _ ?p] exI [of _ "range_quantity d"]) simp
    next
      case Remove
      then have "sells book \<noteq> []" by (auto simp: choose_action_def MIN_ORDERS_def)
      then obtain key rq where r: "choose_removal d (map snd (sells book)) = Ret (key, rq)"
          "key \<in> dom (bt_get (sells book))" "rq \<noteq> 0" "rq \<le> level (sells book) key"
        using choose_removal_ok [of k "\<lambda>x. x" "sells book" d] w d(1) by (auto simp: walk_ok_def)
      then show ?thesis using False Remove unfolding new_random_delta_def Let_def fits_def
        by (intro exI [of _ Sell] exI [of _ quote_action.Remove] exI [of _ key] exI [of _ rq]) simp
    qed
  qed
qed

lemma side_walk_mono: "side_walk k f m \<Longrightarrow> side_walk (Suc k) f m"
  by (force simp: side_walk_def)

lemma fits_step:
  assumes w: "walk_ok k book" and k: "99 * Suc k < 2 ^ 32" and fits: "fits book sd a p q"
    and delta: "delta = \<lparr>quote_action = action_as_i32 a, quote_price = p, quote_quantity = q,
      quote_timestamp = t, quote_side = side_as_i32 sd\<rparr>"
  shows "\<exists>book'. book_apply_delta delta book = Ret (Inr (), book') \<and> walk_ok (Suc k) book'"
proof -
  have act: "action_from_i32 (quote_action delta) = Some a" and sd: "side_from_i32 (quote_side delta) = Some sd"
    and q: "quote_quantity delta = q" and p: "quote_price delta = p" using delta by simp_all
  have B: "side_walk k unreverse (buys book)" and S: "side_walk k (\<lambda>x. x) (sells book)"
    using w by (simp_all add: walk_ok_def)
  note mono = side_walk_mono [OF B] side_walk_mono [OF S]
  show ?thesis
  proof (cases sd)
    case Buy
    obtain m' where m': "apply_to_entry (Reverse p) delta (buys book) = Ret m'" "side_walk (Suc k) unreverse m'"
        "dom (bt_get m') \<subseteq> dom (bt_get (buys book)) \<union> (if a = Insert then {Reverse p} else {})"
    proof (cases a)
      case Insert
      then show ?thesis using insert_walk [OF B, of "Reverse p" delta] act p q k fits Buy that by (auto simp: fits_def)
    next
      case Remove
      then show ?thesis using remove_walk [OF B, of "Reverse p" delta] act p q fits Buy that by (auto simp: fits_def)
    qed
    have "book_apply_delta delta book = Ret (Inr (), book\<lparr>buys := m'\<rparr>)"
      using m'(1) sd Buy p by (simp add: book_apply_delta_def)
    moreover have "unreverse b \<noteq> - 1 \<and> (\<forall>s \<in> dom (bt_get (sells book)). unreverse b < s)"
      if "b \<in> dom (bt_get m')" for b
    proof (cases "b \<in> dom (bt_get (buys book))")
      case True
      then show ?thesis using w by (simp add: walk_ok_def uncrossed_def)
    next
      case False
      then have "a = Insert" "b = Reverse p" using that m'(3) by (auto split: if_splits)
      then show ?thesis using fits Buy by (simp add: fits_def)
    qed
    ultimately show ?thesis using m'(2) mono w by (auto simp: walk_ok_def uncrossed_def)
  next
    case Sell
    obtain m' where m': "apply_to_entry p delta (sells book) = Ret m'" "side_walk (Suc k) (\<lambda>x. x) m'"
        "dom (bt_get m') \<subseteq> dom (bt_get (sells book)) \<union> (if a = Insert then {p} else {})"
    proof (cases a)
      case Insert
      then show ?thesis using insert_walk [OF S, of p delta] act p q k fits Sell that by (auto simp: fits_def)
    next
      case Remove
      then show ?thesis using remove_walk [OF S, of p delta] act p q fits Sell that by (auto simp: fits_def)
    qed
    have "book_apply_delta delta book = Ret (Inr (), book\<lparr>sells := m'\<rparr>)"
      using m'(1) sd Sell p by (simp add: book_apply_delta_def)
    moreover have "s \<noteq> 0 \<and> (\<forall>b \<in> dom (bt_get (buys book)). unreverse b < s)"
      if "s \<in> dom (bt_get m')" for s
    proof (cases "s \<in> dom (bt_get (sells book))")
      case True
      then show ?thesis using w by (simp add: walk_ok_def uncrossed_def)
    next
      case False
      then have "a = Insert" "s = p" using that m'(3) by (auto split: if_splits)
      then show ?thesis using fits Sell by (simp add: fits_def)
    qed
    ultimately show ?thesis using m'(2) mono w by (auto simp: walk_ok_def uncrossed_def)
  qed
qed

lemma walk_stays_ok:
  "walk_ok k book \<Longrightarrow> 99 * (k + length ds) < 2 ^ 32 \<Longrightarrow>
   (\<And>d. d \<in> set ds \<Longrightarrow> fair d \<and> normal_price d \<noteq> 0 \<and> normal_price d \<noteq> - 1) \<Longrightarrow>
   \<exists>book'. random_walk ds book = Ret book' \<and> walk_ok (k + length ds) book'"
proof (induction ds arbitrary: k book)
  case Nil
  then show ?case by simp
next
  case (Cons d ds)
  have d: "fair d" "normal_price d \<noteq> 0" "normal_price d \<noteq> - 1" using Cons.prems(3) [of d] by simp_all
  obtain sd a p q where nd: "new_random_delta d book = Ret \<lparr>quote_action = action_as_i32 a, quote_price = p,
      quote_quantity = q, quote_timestamp = nanos d, quote_side = side_as_i32 sd\<rparr>" "fits book sd a p q"
    using new_random_delta_fits [OF Cons.prems(1) d] by (elim exE conjE)
  have "99 * Suc k < 2 ^ 32" using Cons.prems(2) by simp
  from fits_step [OF Cons.prems(1) this nd(2) refl, of "nanos d"] obtain book1 where b1:
    "book_apply_delta \<lparr>quote_action = action_as_i32 a, quote_price = p, quote_quantity = q,
       quote_timestamp = nanos d, quote_side = side_as_i32 sd\<rparr> book = Ret (Inr (), book1)" "walk_ok (Suc k) book1"
    by (elim exE conjE)
  have "99 * (Suc k + length ds) < 2 ^ 32" using Cons.prems(2) by simp
  from Cons.IH [OF b1(2) this] Cons.prems(3) nd(1) b1(1) show ?case by simp
qed

lemma walk_ok_default: "walk_ok 0 book_default"
  by (simp add: walk_ok_def book_default_def side_walk_def side_ok_def uncrossed_def dom_bt_get)

end
