(* ===== verification/Transport.thy ===== *)
theory Transport
  imports Proto
begin

text \<open>
  \<open>transport/multicast.rs\<close>: how the UDP sockets of publishers and subscribers are made. The system
  calls behind \<open>socket2\<close> and \<open>tokio\<close> can each fail; which do, and with what error, is a parameter.
  A call that succeeds sets its option on the socket.
\<close>

section \<open>Addresses\<close>

datatype ipv4_addr = Ipv4 byte byte byte byte

record socket_addr_v4 =
  ip :: ipv4_addr
  port :: nat

text \<open>\<open>Ipv4Addr::is_multicast\<close>: 224.0.0.0/4.\<close>

fun is_multicast :: "ipv4_addr \<Rightarrow> bool" where
  "is_multicast (Ipv4 a b c d) \<longleftrightarrow> 224 \<le> a \<and> a \<le> 239"

definition any_addr :: ipv4_addr where
  "any_addr = Ipv4 0 0 0 0"

section \<open>Sockets\<close>

record mc_socket =
  nonblocking :: bool
  reuse_address :: bool
  multicast_loop :: bool
  joined :: "(ipv4_addr \<times> ipv4_addr) option"
  bound :: "socket_addr_v4 option"
  connected_to :: "socket_addr_v4 option"

datatype sys_call =
  New_Socket | Set_Nonblocking bool | Set_Reuse_Address bool | Set_Multicast_Loop bool
| Join_Multicast ipv4_addr ipv4_addr | Bind socket_addr_v4 | From_Std | Connect socket_addr_v4

definition raw_socket :: mc_socket where
  "raw_socket = \<lparr>nonblocking = False, reuse_address = False, multicast_loop = False, joined = None,
     bound = None, connected_to = None\<rparr>"

fun sys_effect :: "sys_call \<Rightarrow> mc_socket \<Rightarrow> mc_socket" where
  "sys_effect New_Socket s = raw_socket"
| "sys_effect (Set_Nonblocking b) s = s\<lparr>nonblocking := b\<rparr>"
| "sys_effect (Set_Reuse_Address b) s = s\<lparr>reuse_address := b\<rparr>"
| "sys_effect (Set_Multicast_Loop b) s = s\<lparr>multicast_loop := b\<rparr>"
| "sys_effect (Join_Multicast multi interface) s = s\<lparr>joined := Some (multi, interface)\<rparr>"
| "sys_effect (Bind addr) s = s\<lparr>bound := Some addr\<rparr>"
| "sys_effect From_Std s = s"
| "sys_effect (Connect addr) s = s\<lparr>connected_to := Some addr\<rparr>"

datatype multicast_error = Not_Multicast ipv4_addr | Io string

text \<open>A call with its \<open>?\<close>, in a computation that also lists the calls it has made.\<close>

type_synonym 'a io = "(multicast_error, 'a) result \<times> sys_call list"

definition sys :: "(sys_call \<Rightarrow> string option) \<Rightarrow> sys_call \<Rightarrow> mc_socket \<Rightarrow> mc_socket io" where
  "sys fails call s = (case fails call of Some e \<Rightarrow> Inl (Io e) | None \<Rightarrow> Inr (sys_effect call s), [call])"

fun io_then :: "'a io \<Rightarrow> ('a \<Rightarrow> 'b io) \<Rightarrow> 'b io" where
  "io_then (Inl e, calls) f = (Inl e, calls)"
| "io_then (Inr x, calls) f = (let (r, later) = f x in (r, calls @ later))"

definition new_multicast_socket ::
  "(sys_call \<Rightarrow> string option) \<Rightarrow> socket_addr_v4 \<Rightarrow> mc_socket io" where
  "new_multicast_socket fails mc_addr =
     (if \<not> is_multicast (ip mc_addr) then (Inl (Not_Multicast (ip mc_addr)), [])
      else io_then (sys fails New_Socket raw_socket) (\<lambda>socket.
           io_then (sys fails (Set_Nonblocking True) socket) (\<lambda>socket.
           io_then (sys fails (Set_Reuse_Address True) socket) (\<lambda>socket.
           io_then (sys fails (Set_Multicast_Loop True) socket) (\<lambda>socket.
           io_then (sys fails (Join_Multicast (ip mc_addr) any_addr) socket) (\<lambda>socket.
           io_then (sys fails (Bind mc_addr) socket) (\<lambda>socket.
           sys fails From_Std socket)))))))"

definition new_multicast_publisher ::
  "(sys_call \<Rightarrow> string option) \<Rightarrow> socket_addr_v4 \<Rightarrow> mc_socket io" where
  "new_multicast_publisher fails mc_addr =
     io_then (new_multicast_socket fails mc_addr) (\<lambda>socket. sys fails (Connect mc_addr) socket)"

section \<open>Properties\<close>

text \<open>A sequence of calls, as a whole.\<close>

fun sys_all :: "(sys_call \<Rightarrow> string option) \<Rightarrow> sys_call list \<Rightarrow> mc_socket \<Rightarrow> mc_socket io" where
  "sys_all fails [] s = (Inr s, [])"
| "sys_all fails (call # calls) s = io_then (sys fails call s) (sys_all fails calls)"

definition socket_calls :: "socket_addr_v4 \<Rightarrow> sys_call list" where
  "socket_calls addr = [New_Socket, Set_Nonblocking True, Set_Reuse_Address True, Set_Multicast_Loop True,
     Join_Multicast (ip addr) any_addr, Bind addr, From_Std]"

lemma io_then_ret [simp]: "io_then r (\<lambda>x. (Inr x, [])) = r"
  by (cases r; cases "fst r") auto

lemma io_then_assoc: "io_then (io_then r f) g = io_then r (\<lambda>x. io_then (f x) g)"
proof (cases r)
  case (Pair res calls)
  show ?thesis
  proof (cases res)
    case (Inr x)
    obtain r1 c1 where f: "f x = (r1, c1)" by fastforce
    show ?thesis
    proof (cases r1)
      case Inl
      then show ?thesis using Pair Inr f by simp
    next
      case r1: (Inr y)
      obtain r2 c2 where "g y = (r2, c2)" by fastforce
      then show ?thesis using Pair Inr f r1 by simp
    qed
  qed (simp add: Pair)
qed

lemma sys_all_first_failure:
  "sys_all fails calls s =
     (case dropWhile (\<lambda>c. fails c = None) calls of
        [] \<Rightarrow> (Inr (foldl (\<lambda>s c. sys_effect c s) s calls), calls)
      | c # rest \<Rightarrow> (Inl (Io (the (fails c))), takeWhile (\<lambda>c. fails c = None) calls @ [c]))"
proof (induction calls arbitrary: s)
  case (Cons c calls)
  show ?case
  proof (cases "fails c")
    case None
    then have "sys_all fails (c # calls) s =
        (case sys_all fails calls (sys_effect c s) of (r, later) \<Rightarrow> (r, c # later))"
      by (simp add: sys_def)
    then show ?thesis unfolding Cons.IH using None
      by (cases "dropWhile (\<lambda>c. fails c = None) calls") (simp_all del: dropWhile_eq_Nil_conv sys_all.simps)
  next
    case (Some e)
    then show ?thesis by (simp add: sys_def)
  qed
qed simp

lemma sys_all_fun:
  "sys_all fails (call # call' # calls) = (\<lambda>s. io_then (sys fails call s) (sys_all fails (call' # calls)))"
  "sys_all fails [call] = sys fails call"
proof -
  have "sys_all fails [] = (\<lambda>s. (Inr s, []))" by (rule ext) simp
  then show "sys_all fails [call] = sys fails call" by (intro ext) simp
qed (rule ext, simp)

lemma publisher_calls:
  assumes "is_multicast (ip addr)"
  shows "new_multicast_publisher fails addr = sys_all fails (socket_calls addr @ [Connect addr]) raw_socket"
proof -
  have "new_multicast_socket fails addr = sys_all fails (socket_calls addr) raw_socket"
    using assms by (simp only: new_multicast_socket_def socket_calls_def sys_all_fun if_False not_True_eq_False)
  moreover have "sys_all fails (cs @ [c]) s = io_then (sys_all fails cs s) (sys fails c)" for cs c s
  proof (induction cs arbitrary: s)
    case Nil
    then show ?case by (simp only: append_Nil sys_all_fun(2) sys_all.simps(1)) simp
  next
    case (Cons x xs)
    have "sys_all fails (xs @ [c]) = (\<lambda>s. io_then (sys_all fails xs s) (sys fails c))"
      by (rule ext) (rule Cons.IH)
    then show ?case by (simp add: io_then_assoc)
  qed
  ultimately show ?thesis by (simp add: new_multicast_publisher_def)
qed

text \<open>A publisher's socket is set up completely or not at all. For an address that is not multicast the
  call fails with that address and makes no system call. Otherwise it makes the eight calls in their
  order up to the first one that fails, whose error it returns; if none fails, the socket does not
  block, shares its address, hears its own messages, has joined the group on every interface, and is
  bound and connected to the address.\<close>

theorem publisher_socket_complete:
  "new_multicast_publisher fails addr =
    (if \<not> is_multicast (ip addr) then (Inl (Not_Multicast (ip addr)), [])
     else let calls = [New_Socket, Set_Nonblocking True, Set_Reuse_Address True, Set_Multicast_Loop True,
         Join_Multicast (ip addr) any_addr, Bind addr, From_Std, Connect addr]
       in case dropWhile (\<lambda>c. fails c = None) calls of
            [] \<Rightarrow> (Inr \<lparr>nonblocking = True, reuse_address = True, multicast_loop = True,
              joined = Some (ip addr, any_addr), bound = Some addr, connected_to = Some addr\<rparr>, calls)
          | c # rest \<Rightarrow> (Inl (Io (the (fails c))), takeWhile (\<lambda>c. fails c = None) calls @ [c]))"
proof (cases "is_multicast (ip addr)")
  case True
  have calls: "socket_calls addr @ [Connect addr] = [New_Socket, Set_Nonblocking True, Set_Reuse_Address True,
      Set_Multicast_Loop True, Join_Multicast (ip addr) any_addr, Bind addr, From_Std, Connect addr]"
    by (simp add: socket_calls_def)
  have socket: "foldl (\<lambda>s c. sys_effect c s) raw_socket (socket_calls addr @ [Connect addr]) =
      \<lparr>nonblocking = True, reuse_address = True, multicast_loop = True,
        joined = Some (ip addr, any_addr), bound = Some addr, connected_to = Some addr\<rparr>"
    by (simp add: socket_calls_def raw_socket_def)
  show ?thesis
    unfolding publisher_calls [OF True] sys_all_first_failure socket
    by (simp only: calls Let_def True not_True_eq_False if_False)
next
  case False
  then show ?thesis by (simp add: new_multicast_publisher_def new_multicast_socket_def)
qed

end
