(* ===== verification/Example_Programs.thy ===== *)
theory Example_Programs
  imports Order_Book Transport Convergence
begin

text \<open>
  \<open>examples/order_book_publisher.rs\<close> and \<open>examples/order_book_subscriber.rs\<close>: the two programs that share
  the example's order book. The publisher's main task is interleaved with the heartbeats of its
  publisher; a panic of a main task ends its process.
\<close>

section \<open>The surroundings\<close>

datatype journal_mode = Wal
datatype synchronous = Synchronous_Off

text \<open>
  What the programs find: system calls that fail, the environment's \<open>DATABASE_URL\<close>, and sqlx
  (parsing a URL, opening a pool, running the migrations). A socket's later failures to send are a
  function of the socket.
\<close>

record ('o, 's) host =
  sys_fails :: "sys_call \<Rightarrow> string option"
  database_url :: "string option"
  parse_options :: "string \<Rightarrow> (string, 'o) result"
  connect_pool :: "'o \<Rightarrow> journal_mode \<Rightarrow> synchronous \<Rightarrow> (string, 's) result"
  run_migrations :: "'s \<Rightarrow> (string, 's) result"
  send_faults :: "mc_socket \<Rightarrow> nat \<Rightarrow> string option"

definition example_addr :: socket_addr_v4 where
  "example_addr = \<lparr>ip = Ipv4 224 0 0 123, port = 1234\<rparr>"

text \<open>The database, as both programs open it.\<close>

definition open_database :: "('o, 's) host \<Rightarrow> 's run" where
  "open_database host =
     (let url = (case database_url host of Some u \<Rightarrow> u | None \<Rightarrow> ''sqlite::memory:'')
      in run_bind (unwrap (parse_options host url)) (\<lambda>opts.
         run_bind (unwrap (connect_pool host opts Wal Synchronous_Off)) (\<lambda>pool.
         unwrap (run_migrations host pool))))"

section \<open>The publisher\<close>

text \<open>Up to the loop. \<open>now\<close> is the time of the \<open>Started\<close> message.\<close>

definition publisher_setup ::
  "('o, master_pool) host \<Rightarrow> (order_book, quote_delta, unit) publisher_deps \<Rightarrow> int \<Rightarrow>
   ((order_book, master_pool) shared \<times> destructor \<times> destructor) run" where
  "publisher_setup host D now =
     run_bind (unwrap (fst (new_multicast_publisher (sys_fails host) example_addr))) (\<lambda>sock.
     run_bind (open_database host) (\<lambda>pool.
     unwrap (fst (publisher_run sqlite_publisher D now pool
       \<lparr>sent = [], send_error = send_faults host sock, attempts = 0\<rparr>))))"

text \<open>
  The loop. The main task reads the book to draw a delta, stamps it, stores it, sends it, and
  reports the book after each ten thousandth sequence; each of these is one step, as is each of
  the heartbeat's. The draws of \<open>new_random_delta\<close> so far are remembered.
\<close>

datatype crash = Draw_Panicked | Delta_Panicked | Delta_Refused | Publish_Failed

datatype main_task = Drawing | Drawn quote_delta | Awaiting int | Applied int | Crashed crash

record book_publisher =
  running :: "(order_book, master_pool) system"
  main_at :: main_task
  drawn :: "dice list"
  reports :: "string list"

abbreviation book_of :: "(order_book, master_pool) system \<Rightarrow> order_book" where
  "book_of y \<equiv> inner_state (wrapper (shared y))"

definition book_report :: "int \<Rightarrow> order_book \<Rightarrow> string list" where
  "book_report i book =
     (if rust_rem i 10000 = 0 then [''Sequence '' @ show_int i @ '' Order book: '' @ book_display book] else [])"

abbreviation is_alive :: "book_publisher \<Rightarrow> bool" where
  "is_alive x \<equiv> \<forall>why. main_at x \<noteq> Crashed why"

inductive main_step ::
  "(order_book, quote_delta, unit) publisher_deps \<Rightarrow> book_publisher \<Rightarrow> book_publisher \<Rightarrow> bool"
  for D :: "(order_book, quote_delta, unit) publisher_deps"
  where
    draws: "main_at x = Drawing \<Longrightarrow> new_random_delta d (book_of (running x)) = Ret delta \<Longrightarrow>
      main_step D x (x\<lparr>main_at := Drawn delta, drawn := drawn x @ [d]\<rparr>)"
  | draw_panics: "main_at x = Drawing \<Longrightarrow> new_random_delta d (book_of (running x)) = Panic \<Longrightarrow>
      main_step D x (x\<lparr>main_at := Crashed Draw_Panicked, drawn := drawn x @ [d]\<rparr>)"
  | stamps: "main_at x = Drawn delta \<Longrightarrow> task_of (running x) Application = Waiting \<Longrightarrow> in_i64 now \<Longrightarrow>
      stamp_delta D delta now (shared (running x)) =
        Ret (Inr m :: ((unit, sqlx_error) publish_error, raw_message) result, g) \<Longrightarrow>
      main_step D x (x\<lparr>running := goto Application (Holding m) g (running x), main_at := Awaiting (msg_seq m)\<rparr>)"
  | is_refused: "main_at x = Drawn delta \<Longrightarrow> task_of (running x) Application = Waiting \<Longrightarrow>
      stamp_delta D delta now (shared (running x)) =
        Ret (Inl err :: ((unit, sqlx_error) publish_error, raw_message) result, g) \<Longrightarrow>
      main_step D x (x\<lparr>running := goto Application Waiting g (running x), main_at := Crashed Delta_Refused\<rparr>)"
  | delta_panics: "main_at x = Drawn delta \<Longrightarrow>
      stamp_delta D delta now (shared (running x)) =
        (Panic :: (((unit, sqlx_error) publish_error, raw_message) result \<times> (order_book, master_pool) shared) run) \<Longrightarrow>
      main_step D x (x\<lparr>main_at := Crashed Delta_Panicked\<rparr>)"
  | stores: "main_at x = Awaiting i \<Longrightarrow> task_of (running x) Application = Holding m \<Longrightarrow>
      publish_store sqlite_publisher (codec D) m (shared (running x)) =
        (Inr f :: ((unit, sqlx_error) publish_error, byte list) result, g) \<Longrightarrow>
      main_step D x (x\<lparr>running := goto Application (Stored f) g (running x)\<rparr>)"
  | store_fails: "main_at x = Awaiting i \<Longrightarrow> task_of (running x) Application = Holding m \<Longrightarrow>
      publish_store sqlite_publisher (codec D) m (shared (running x)) =
        (Inl err :: ((unit, sqlx_error) publish_error, byte list) result, g) \<Longrightarrow>
      main_step D x (x\<lparr>running := goto Application Waiting g (running x), main_at := Crashed Publish_Failed\<rparr>)"
  | sends: "main_at x = Awaiting i \<Longrightarrow> task_of (running x) Application = Stored f \<Longrightarrow>
      publish_send f (shared (running x)) = (res :: ((unit, sqlx_error) publish_error, nat) result, g) \<Longrightarrow>
      main_step D x (x\<lparr>running := goto Application Waiting g (running x),
        main_at := (case res of Inr k \<Rightarrow> Applied i | Inl err \<Rightarrow> Crashed Publish_Failed)\<rparr>)"
  | reported: "main_at x = Applied i \<Longrightarrow>
      main_step D x (x\<lparr>main_at := Drawing, reports := reports x @ book_report i (book_of (running x))\<rparr>)"
  | beats: "is_alive x \<Longrightarrow> task_of (running x) Heartbeats = Waiting \<Longrightarrow> in_i64 now \<Longrightarrow>
      stamp_heartbeat now (shared (running x)) = (m, g) \<Longrightarrow>
      main_step D x (x\<lparr>running := goto Heartbeats (Holding m) g (running x)\<rparr>)"
  | beat_stored: "is_alive x \<Longrightarrow> task_of (running x) Heartbeats = Holding m \<Longrightarrow>
      publish_store sqlite_publisher (codec D) m (shared (running x)) =
        (Inr f :: ((unit, sqlx_error) publish_error, byte list) result, g) \<Longrightarrow>
      main_step D x (x\<lparr>running := goto Heartbeats (Stored f) g (running x)\<rparr>)"
  | beat_store_fails: "is_alive x \<Longrightarrow> task_of (running x) Heartbeats = Holding m \<Longrightarrow>
      publish_store sqlite_publisher (codec D) m (shared (running x)) =
        (Inl err :: ((unit, sqlx_error) publish_error, byte list) result, g) \<Longrightarrow>
      main_step D x (x\<lparr>running := goto Heartbeats Waiting g (running x)\<rparr>)"
  | beat_sent: "is_alive x \<Longrightarrow> task_of (running x) Heartbeats = Stored f \<Longrightarrow>
      publish_send f (shared (running x)) = (res :: ((unit, sqlx_error) publish_error, nat) result, g) \<Longrightarrow>
      main_step D x (x\<lparr>running := goto Heartbeats Waiting g (running x)\<rparr>)"

inductive main_runs ::
  "(order_book, quote_delta, unit) publisher_deps \<Rightarrow> nat \<Rightarrow> book_publisher \<Rightarrow> book_publisher \<Rightarrow> bool"
  for D :: "(order_book, quote_delta, unit) publisher_deps"
  where
    main_stays: "main_runs D 0 x x"
  | main_more: "main_runs D n x y \<Longrightarrow> main_step D y z \<Longrightarrow> main_runs D (Suc n) x z"

definition main_start :: "(order_book, master_pool) shared \<Rightarrow> book_publisher" where
  "main_start g = \<lparr>running = idle_system g, main_at = Drawing, drawn = [], reports = []\<rparr>"

section \<open>The subscriber\<close>

text \<open>
  Up to the loop. What the socket hears and the channel that \<open>tonic\<close> makes of the recovery address
  are parameters; the database is opened and not used. Durations are in nanoseconds.
\<close>

definition subscriber_setup ::
  "('o, 's) host \<Rightarrow> (mc_socket \<Rightarrow> udp_event list) \<Rightarrow> (string \<Rightarrow> (string, grpc_channel) result) \<Rightarrow> clocks \<Rightarrow>
   (message_sequencer \<times> clocks) run" where
  "subscriber_setup host events channel_to c =
     run_bind (unwrap (fst (new_multicast_socket (sys_fails host) example_addr))) (\<lambda>sock.
     run_bind (open_database host) (\<lambda>pool.
     run_bind (unwrap (channel_to ''127.0.0.1:7755'')) (\<lambda>ch.
     Ret (sequencer_new (events sock) (recovery_api_client ch) 0 5000000000 c))))"

text \<open>The loop prints each item and panics on an error; here, for \<open>n\<close> items.\<close>

fun subscriber_loop ::
  "'d subscriber_deps \<Rightarrow> nat \<Rightarrow> message_sequencer \<Rightarrow> clocks \<Rightarrow>
   'd subscriber_stream list \<times> (message_sequencer \<times> clocks) run" where
  "subscriber_loop deps 0 s c = ([], Ret (s, c))"
| "subscriber_loop deps (Suc n) s c =
     (case sequencer_next deps s c of
        Ret (Return (Inr data) s' c') \<Rightarrow>
          (let (printed, fin) = subscriber_loop deps n s' c' in (data # printed, fin))
      | Ret (Return (Inl err) s' c') \<Rightarrow> ([], Panic)
      | Ret (Fall s' c') \<Rightarrow> ([], Panic)
      | Panic \<Rightarrow> ([], Panic)
      | Pending \<Rightarrow> ([], Pending))"

lemma subscriber_loop_stream:
  "subscriber_loop deps n s c = (ps, Ret (s', c')) \<Longrightarrow> into_stream deps n s c = (map Inr ps, Ret (s', c'))"
proof (induction n arbitrary: s c ps)
  case (Suc n)
  then obtain data s1 c1 where "sequencer_next deps s c = Ret (Return (Inr data) s1 c1)"
    by (auto split: run.splits block.splits sum.splits)
  then show ?case using Suc by (cases "subscriber_loop deps n s1 c1") auto
qed simp

lemma subscriber_loop_data:
  "into_stream deps n s c = (rs, Ret (s', c')) \<Longrightarrow> \<forall>r \<in> set rs. \<exists>data. r = Inr data \<Longrightarrow>
   \<exists>ps. rs = map Inr ps \<and> subscriber_loop deps n s c = (ps, Ret (s', c'))"
proof (induction n arbitrary: s c rs)
  case (Suc n)
  obtain r s1 c1 where nxt: "sequencer_next deps s c = Ret (Return r s1 c1)"
    using Suc.prems(1) by (auto split: run.splits block.splits)
  then obtain rs1 where rs1: "into_stream deps n s1 c1 = (rs1, Ret (s', c'))" "rs = r # rs1"
    using Suc.prems(1) by (auto split: prod.splits)
  moreover obtain data where "r = Inr data" using Suc.prems(2) rs1(2) by auto
  moreover obtain ps where "rs1 = map Inr ps" "subscriber_loop deps n s1 c1 = (ps, Ret (s', c'))"
    using Suc.IH [OF rs1(1)] Suc.prems(2) rs1(2) by auto
  ultimately show ?case using nxt by (intro exI [of _ "data # ps"]) simp
qed simp

section \<open>The publisher program runs a publisher\<close>

lemma main_step_system:
  assumes "main_step D x y"
  shows "running y = running x \<or> system_step sqlite_publisher D (running x) (running y)"
  using assms
proof (cases rule: main_step.cases)
  case (stamps delta now m g)
  then show ?thesis using delta_stamped [of "running x" now D delta m g] by auto
next
  case (is_refused delta now err g)
  then show ?thesis using delta_refused [of "running x" D delta now err g] by auto
next
  case (beats now m g)
  then show ?thesis using heartbeat_stamped [of "running x" now m g] by auto
next
  case (sends i f res g)
  then show ?thesis using message_sent [of "running x" Application f res g] by auto
qed (auto intro: message_stored store_failed message_sent)

lemma main_runs_system:
  "main_runs D n x y \<Longrightarrow> \<exists>k \<le> n. system_runs sqlite_publisher D k (running x) (running y)"
proof (induction rule: main_runs.induct)
  case (main_stays x)
  show ?case by (intro exI [of _ 0]) simp
next
  case (main_more n x y z)
  then obtain k where k: "k \<le> n" "system_runs sqlite_publisher D k (running x) (running y)" by blast
  then show ?case using main_step_system [OF main_more.hyps(2)] runs_more [OF k(2)]
    by (cases "running z = running y") (auto intro: exI [of _ k] exI [of _ "Suc k"])
qed

text \<open>A successful setup starts a publisher on the pool it has opened.\<close>

lemma setup_started:
  assumes "publisher_setup host D now = Ret (g, chans)" "in_i64 now"
    and pool: "\<And>pool. open_database host = Ret pool \<Longrightarrow>
      key_ok master_id pool \<and> log_valid (codec D) (table_map pool) \<and> (\<forall>i \<in> dom (table_map pool). i < 2 ^ 62)"
  shows "\<exists>pool n s1. open_database host = Ret pool \<and> sqlite_next_sequence pool = (Inr n, s1) \<and> started D pool n g"
proof -
  obtain sk pool where "open_database host = Ret pool" and run: "fst (publisher_run sqlite_publisher D now pool
      \<lparr>sent = [], send_error = send_faults host sk, attempts = 0\<rparr>) = Inr (g, chans)"
    using assms(1) by (auto simp: publisher_setup_def run_simps)
  note ok = pool [OF this(1)]
  obtain s' sock' where run': "publisher_run sqlite_publisher D now pool
      \<lparr>sent = [], send_error = send_faults host sk, attempts = 0\<rparr> = (Inr (g, chans), s', sock')"
    using run by (metis prod.collapse)
  obtain n s1 where "sqlite_next_sequence pool = (Inr n, s1)"
    using run' by (auto simp: publisher_run_def split: prod.splits sum.splits)
  moreover from this have "started D pool n g"
    unfolding started_def using ok run' assms(2)
    by (intro conjI exI [of _ s1] exI [of _ now] exI [of _ "\<lparr>sent = [], send_error = send_faults host sk, attempts = 0\<rparr>"])
      auto
  ultimately show ?thesis using \<open>open_database host = Ret pool\<close> by blast
qed

section \<open>The book stays uncrossed\<close>

text \<open>What \<open>rand\<close> promises of a draw, and a price that is no extreme value.\<close>

definition moderate :: "dice \<Rightarrow> bool" where
  "moderate d \<longleftrightarrow> fair d \<and> normal_price d \<noteq> 0 \<and> normal_price d \<noteq> - 1"

text \<open>A delta that was drawn for a book fits it.\<close>

definition drawn_for :: "order_book \<Rightarrow> quote_delta \<Rightarrow> bool" where
  "drawn_for book delta \<longleftrightarrow> (\<exists>sd a p q t. fits book sd a p q \<and> delta = \<lparr>quote_action = action_as_i32 a,
     quote_price = p, quote_quantity = q, quote_timestamp = t, quote_side = side_as_i32 sd\<rparr>)"

definition main_inv :: "book_publisher \<Rightarrow> bool" where
  "main_inv x \<longleftrightarrow> (case main_at x of
     Drawn delta \<Rightarrow> (\<exists>k. length (drawn x) = Suc k \<and> walk_ok k (book_of (running x))) \<and> drawn_for (book_of (running x)) delta
   | Crashed why \<Rightarrow> why = Publish_Failed \<and> walk_ok (length (drawn x)) (book_of (running x))
   | _ \<Rightarrow> walk_ok (length (drawn x)) (book_of (running x)))"

lemma draw_fits:
  assumes "walk_ok k book" "moderate d"
  shows "\<exists>delta. new_random_delta d book = Ret delta \<and> drawn_for book delta"
  using new_random_delta_fits [OF assms(1)] assms(2) unfolding moderate_def drawn_for_def by blast

lemma stamp_fits:
  assumes S: "sync D = book_sync" and w: "walk_ok k (book_of y)" and k: "99 * Suc k < 2 ^ 32" and fit: "drawn_for (book_of y) delta"
  shows "\<exists>m g. stamp_delta D delta now (shared y) =
      Ret (Inr m :: ((unit, 'e) publish_error, raw_message) result, g) \<and> walk_ok (Suc k) (inner_state (wrapper g))"
proof -
  obtain sd a p q t where "fits (book_of y) sd a p q" "delta = \<lparr>quote_action = action_as_i32 a,
     quote_price = p, quote_quantity = q, quote_timestamp = t, quote_side = side_as_i32 sd\<rparr>"
    using fit unfolding drawn_for_def by blast
  from fits_step [OF w k this] obtain book' where
    "book_apply_delta delta (book_of y) = Ret (Inr (), book')" "walk_ok (Suc k) book'" by blast
  then show ?thesis using S by (simp add: stamp_delta_def stamp_def book_sync_def)
qed

lemma main_inv_same_book:
  "main_inv x \<Longrightarrow> inner_state (wrapper g) = book_of (running x) \<Longrightarrow> main_inv (x\<lparr>running := goto r t g (running x)\<rparr>)"
  by (cases "main_at x") (simp_all add: main_inv_def)

lemma main_step_inv:
  assumes S: "sync D = book_sync" and step: "main_step D x y" and inv: "main_inv x"
    and dice: "\<And>d. d \<in> set (drawn y) \<Longrightarrow> moderate d" and bound: "99 * length (drawn y) < 2 ^ 32"
  shows "main_inv y"
  using step
proof (cases rule: main_step.cases)
  case (draws d delta)
  then have w: "walk_ok (length (drawn x)) (book_of (running x))" using inv by (simp add: main_inv_def)
  have "drawn_for (book_of (running x)) delta" using draw_fits [OF w, of d] dice [of d] draws by auto
  then show ?thesis using w draws by (simp add: main_inv_def)
next
  case (draw_panics d)
  then have "walk_ok (length (drawn x)) (book_of (running x))" using inv by (simp add: main_inv_def)
  from draw_fits [OF this, of d] have False using dice [of d] draw_panics by auto
  then show ?thesis ..
next
  case (stamps delta now m g)
  then obtain k where k: "length (drawn x) = Suc k" "walk_ok k (book_of (running x))" "drawn_for (book_of (running x)) delta"
    using inv by (auto simp: main_inv_def)
  have "99 * Suc k < 2 ^ 32" using bound stamps(1) k(1) by simp
  from stamp_fits [OF S k(2) this k(3), of now, where 'e = sqlx_error] show ?thesis using stamps k(1)
    by (auto simp: main_inv_def)
next
  case (is_refused delta now err g)
  then obtain k where k: "length (drawn x) = Suc k" "walk_ok k (book_of (running x))" "drawn_for (book_of (running x)) delta"
    using inv by (auto simp: main_inv_def)
  have "99 * Suc k < 2 ^ 32" using bound is_refused(1) k(1) by simp
  from stamp_fits [OF S k(2) this k(3), of now, where 'e = sqlx_error] have False using is_refused by auto
  then show ?thesis ..
next
  case (delta_panics delta now)
  then obtain k where k: "length (drawn x) = Suc k" "walk_ok k (book_of (running x))" "drawn_for (book_of (running x)) delta"
    using inv by (auto simp: main_inv_def)
  have "99 * Suc k < 2 ^ 32" using bound delta_panics(1) k(1) by simp
  from stamp_fits [OF S k(2) this k(3), of now, where 'e = sqlx_error] have False using delta_panics by auto
  then show ?thesis ..
next
  case (beats now m g)
  then have "inner_state (wrapper g) = book_of (running x)" by (auto simp: stamp_heartbeat_eq)
  then show ?thesis using main_inv_same_book [OF inv] beats by simp
next
  case (stores i m f g)
  then show ?thesis using main_inv_same_book [OF inv] publish_store_keeps(1) [OF stores(4)] by simp
next
  case (store_fails i m err g)
  then show ?thesis using inv publish_store_keeps(1) [OF store_fails(4)] by (simp add: main_inv_def)
next
  case (sends i f res g)
  then show ?thesis using inv publish_send_keeps(1) [OF sends(4)] by (simp add: main_inv_def split: sum.split)
next
  case (beat_stored m f g)
  then show ?thesis using main_inv_same_book [OF inv] publish_store_keeps(1) [OF beat_stored(4)] by simp
next
  case (beat_store_fails m err g)
  then show ?thesis using main_inv_same_book [OF inv] publish_store_keeps(1) [OF beat_store_fails(4)] by simp
next
  case (beat_sent f res g)
  then show ?thesis using main_inv_same_book [OF inv] publish_send_keeps(1) [OF beat_sent(4)] by simp
next
  case (reported i)
  then show ?thesis using inv by (simp add: main_inv_def)
qed

lemma main_step_drawn: "main_step D x y \<Longrightarrow> \<exists>ds. drawn y = drawn x @ ds"
  by (cases rule: main_step.cases) auto

lemma main_runs_inv:
  assumes S: "sync D = book_sync"
  shows "main_runs D n x y \<Longrightarrow> main_inv x \<Longrightarrow> (\<And>d. d \<in> set (drawn y) \<Longrightarrow> moderate d) \<Longrightarrow>
    99 * length (drawn y) < 2 ^ 32 \<Longrightarrow> main_inv y"
proof (induction rule: main_runs.induct)
  case (main_more n x y z)
  obtain ds where "drawn z = drawn y @ ds" using main_step_drawn [OF main_more.hyps(2)] by blast
  then have "main_inv y" using main_more.prems main_more.IH by simp
  then show ?case by (rule main_step_inv [OF S main_more.hyps(2) _ main_more.prems(2,3)])
qed

lemma main_start_inv:
  assumes "sync D = book_sync" "publisher_setup host D now = Ret (g, chans)"
  shows "main_inv (main_start g)"
proof -
  obtain sk pool where "fst (publisher_run sqlite_publisher D now pool
      \<lparr>sent = [], send_error = send_faults host sk, attempts = 0\<rparr>) = Inr (g, chans)"
    using assms(2) by (auto simp: publisher_setup_def run_simps)
  then have "inner_state (wrapper g) = book_default"
    using publisher_run_state assms(1) by (metis prod.collapse book_sync_def state_sync.select_convs(1))
  then show ?thesis using walk_ok_default by (simp add: main_inv_def main_start_def)
qed

lemma main_inv_book: "main_inv x \<Longrightarrow> \<exists>k \<le> length (drawn x). walk_ok k (book_of (running x))"
  by (cases "main_at x") (auto simp: main_inv_def intro: exI [where x = "length (drawn x)"] exI [where x = "length (drawn x) - 1"])

lemma side_walk_le: "side_walk k f m \<Longrightarrow> k \<le> n \<Longrightarrow> side_walk n f m"
  unfolding side_walk_def by (meson mult_le_mono2 order_trans)

lemma moderate_runs:
  assumes "sync D = book_sync" "publisher_setup host D now = Ret (g, chans)" "main_runs D n (main_start g) z"
    and "length (drawn z) \<le> 43000000" "\<And>d. d \<in> set (drawn z) \<Longrightarrow> moderate d"
  shows "main_inv z"
  using main_runs_inv [OF assms(1,3) main_start_inv [OF assms(1,2)] assms(5)] assms(4) by simp

section \<open>A turn that nothing interrupts\<close>

lemma publish_turn:
  fixes D :: "(order_book, quote_delta, unit) publisher_deps"
  assumes "task_of (running x) Application = Holding m" "main_at x = Awaiting i"
    and "publish sqlite_publisher (codec D) m (shared (running x)) =
      (Inr k :: ((unit, sqlx_error) publish_error, nat) result, g)"
  shows "main_runs D 2 x (x\<lparr>running := goto Application Waiting g (running x), main_at := Applied i\<rparr>)"
proof -
  obtain f g1 where f: "publish_store sqlite_publisher (codec D) m (shared (running x)) =
        (Inr f :: ((unit, sqlx_error) publish_error, byte list) result, g1)"
    and g: "publish_send f g1 = (Inr k :: ((unit, sqlx_error) publish_error, nat) result, g)"
    using assms(3) by (auto simp: publish_def split: prod.splits sum.splits)
  let ?x1 = "x\<lparr>running := goto Application (Stored f) g1 (running x)\<rparr>"
  have s1: "main_step D x ?x1" by (rule stores [OF assms(2,1) f])
  have "main_step D ?x1 (?x1\<lparr>running := goto Application Waiting g (running ?x1),
      main_at := (case Inr k :: ((unit, sqlx_error) publish_error, nat) result of
        Inr k \<Rightarrow> Applied i | Inl err \<Rightarrow> Crashed Publish_Failed)\<rparr>)"
    by (rule sends [where f = f]) (use assms(2) g in simp_all)
  then have "main_step D ?x1 (x\<lparr>running := goto Application Waiting g (running x), main_at := Applied i\<rparr>)" by simp
  then show ?thesis unfolding numeral_2_eq_2 by (rule main_more [OF main_more [OF main_stays s1]])
qed

lemma main_runs_trans: "main_runs D k y z \<Longrightarrow> main_runs D n x y \<Longrightarrow> main_runs D (n + k) x z"
  by (induction rule: main_runs.induct) (auto intro: main_more)

lemma main_turn:
  fixes D :: "(order_book, quote_delta, unit) publisher_deps"
  assumes "main_at x = Drawing" "running x = idle_system g" "in_i64 now"
    and draw: "new_random_delta d (inner_state (wrapper g)) = Ret delta"
    and apply_it: "context_apply_delta sqlite_publisher D delta now g = Ret (Inr i :: ((unit, sqlx_error) publish_error, int) result, g')"
  shows "main_runs D 5 x (x\<lparr>running := idle_system g', drawn := drawn x @ [d],
    reports := reports x @ book_report i (inner_state (wrapper g'))\<rparr>)"
proof -
  obtain m g1 k where st: "stamp_delta D delta now g = Ret (Inr m :: ((unit, sqlx_error) publish_error, raw_message) result, g1)"
    and pub: "publish sqlite_publisher (codec D) m g1 = (Inr k :: ((unit, sqlx_error) publish_error, nat) result, g')"
    and i: "i = msg_seq m"
    using apply_it by (rule context_apply_delta_Inr)
  let ?x1 = "x\<lparr>main_at := Drawn delta, drawn := drawn x @ [d]\<rparr>"
  let ?x2 = "?x1\<lparr>running := goto Application (Holding m) g1 (idle_system g), main_at := Awaiting i\<rparr>"
  have "main_step D x ?x1" by (rule draws) (use assms(1,2) draw in simp_all)
  moreover have "main_step D ?x1 (?x1\<lparr>running := goto Application (Holding m) g1 (running ?x1), main_at := Awaiting (msg_seq m)\<rparr>)"
    by (rule stamps [where delta = delta]) (use assms(2,3) st in simp_all)
  ultimately have "main_runs D (Suc (Suc 0)) x ?x2" using assms(2) i by (auto intro: main_runs.intros)
  moreover have "main_runs D 2 ?x2 (?x2\<lparr>running := goto Application Waiting g' (running ?x2), main_at := Applied i\<rparr>)"
    by (rule publish_turn) (use pub in simp_all)
  moreover have "goto Application Waiting g' (running ?x2) = idle_system g'" by (simp add: idle_system_def fun_eq_iff)
  ultimately have four: "main_runs D (Suc (Suc 0) + 2) x (?x2\<lparr>running := idle_system g', main_at := Applied i\<rparr>)"
    by (metis (no_types) main_runs_trans)
  have "main_step D (?x2\<lparr>running := idle_system g', main_at := Applied i\<rparr>)
      ((?x2\<lparr>running := idle_system g', main_at := Applied i\<rparr>)\<lparr>main_at := Drawing,
        reports := reports x @ book_report i (inner_state (wrapper g'))\<rparr>)"
    using reported [of "?x2\<lparr>running := idle_system g', main_at := Applied i\<rparr>" i D] by simp
  from main_more [OF four this] show ?thesis using assms(1) by (cases x) (simp add: eval_nat_numeral)
qed

end
