(* ===== verification/Order_Book_Theorems.thy ===== *)
theory Order_Book_Theorems
  imports Order_Book
begin

text \<open>
  The properties of the example application: the type of its state under any delta, its quantities
  as arithmetic modulo \<open>2 ^ 32\<close>, and the promise of its random deltas not to cross the book.
\<close>

text \<open>C36: any delta keeps the book well typed, or panics on an unknown enumeration value. Both sides
  stay sorted maps in which each aggregate sits under its own price; the call never fails, and it
  panics exactly when the side or the action is not one of the two declared numbers, which the
  wire format does not exclude.\<close>

theorem book_delta_typed:
  assumes "book_ok book"
  shows "(book_apply_delta delta book = Panic \<longleftrightarrow> quote_side delta \<notin> {1, 2} \<or> quote_action delta \<notin> {1, 2}) \<and>
    (\<forall>res. book_apply_delta delta book = res \<longrightarrow> res = Panic \<or> (\<exists>book'. res = Ret (Inr (), book') \<and> book_ok book'))"
proof -
  have panic: "book_apply_delta delta book = Panic \<longleftrightarrow> quote_side delta \<notin> {1, 2} \<or> quote_action delta \<notin> {1, 2}"
    unfolding book_apply_panic by (simp add: side_from_i32_def action_from_i32_def)
  show ?thesis
  proof (cases "side_from_i32 (quote_side delta) = None \<or> action_from_i32 (quote_action delta) = None")
    case True
    then show ?thesis using panic book_apply_panic [of delta book] by simp
  next
    case False
    then obtain sd a where "side_from_i32 (quote_side delta) = Some sd" "action_from_i32 (quote_action delta) = Some a"
      by auto
    from book_apply_effect [OF assms this] panic show ?thesis by auto
  qed
qed

lemma book_ok_default: "book_ok book_default"
  by (simp add: book_ok_def book_default_def side_ok_def)

definition demo_quote :: "int \<Rightarrow> int \<Rightarrow> quote_delta" where
  "demo_quote action sd = \<lparr>quote_action = action, quote_price = 7, quote_quantity = 5, quote_timestamp = 0, quote_side = sd\<rparr>"

theorem book_delta_typed_witness:
  "book_apply_delta (demo_quote 3 1) book_default = Panic \<and>
   (\<exists>book'. book_apply_delta (demo_quote 1 2) book_default = Ret (Inr (), book') \<and> book_ok book')"
  using book_delta_typed [OF book_ok_default, of "demo_quote 3 1"] book_delta_typed [OF book_ok_default, of "demo_quote 1 2"]
  by (auto simp: demo_quote_def)

text \<open>C35: a level is the sum of what was inserted less what was removed, modulo \<open>2 ^ 32\<close>, whatever its
  history: a delta adds to or subtracts from the quantity of its price on its side and leaves every
  other level alone, where an absent level counts 0. Removing more than a level has does not fail:
  the quantity wraps around (removing 5 from an absent level leaves 4294967291).\<close>

theorem book_delta_quantities:
  assumes "book_ok book" "side_from_i32 (quote_side delta) = Some sd" "action_from_i32 (quote_action delta) = Some a"
  shows "\<exists>book'. book_apply_delta delta book = Ret (Inr (), book') \<and>
    levels sd book' = (levels sd book)(quote_price delta :=
      (case a of Insert \<Rightarrow> levels sd book (quote_price delta) + quote_quantity delta
       | Remove \<Rightarrow> levels sd book (quote_price delta) - quote_quantity delta)) \<and>
    (\<forall>other. other \<noteq> sd \<longrightarrow> levels other book' = levels other book)"
  using book_apply_effect [OF assms] by (cases a) (auto simp: signed_quantity_def)

theorem book_delta_quantities_witness:
  "\<exists>book'. book_apply_delta (demo_quote 2 1) book_default = Ret (Inr (), book') \<and>
    levels Buy book' 7 = 4294967291 \<and> levels Sell book' 7 = 0"
proof -
  have zero: "levels sd book_default p = 0" for sd p
    by (cases sd) (simp_all add: book_default_def level_def)
  show ?thesis
    using book_delta_quantities [OF book_ok_default, of "demo_quote 2 1" Buy Remove]
    by (auto simp: demo_quote_def side_from_i32_def action_from_i32_def zero other_side simp del: levels.simps)
qed

text \<open>The example's random deltas never cross the book. Started on an empty book, any number of draws
  up to 43 million (so that no level can reach \<open>2 ^ 32\<close>) whose prices are neither 0 nor the largest
  \<open>u32\<close>, each turned into a delta and applied, runs without a panic; at the end every buy is below
  every sell, no level is empty, and no quantity has wrapped around: none exceeds 99 for each draw.\<close>

theorem random_deltas_never_cross:
  assumes "length ds \<le> 43000000" "\<And>d. d \<in> set ds \<Longrightarrow> fair d \<and> normal_price d \<noteq> 0 \<and> normal_price d \<noteq> - 1"
  shows "\<exists>book. random_walk ds book_default = Ret book \<and> book_ok book \<and>
    (\<forall>b \<in> dom (bt_get (buys book)). \<forall>s \<in> dom (bt_get (sells book)). unreverse b < s) \<and>
    (\<forall>b \<in> dom (bt_get (buys book)). 0 < unat (levels Buy book (unreverse b)) \<and>
      unat (levels Buy book (unreverse b)) \<le> 99 * length ds) \<and>
    (\<forall>s \<in> dom (bt_get (sells book)). 0 < unat (levels Sell book s) \<and> unat (levels Sell book s) \<le> 99 * length ds)"
proof -
  have "99 * (0 + length ds) < 2 ^ 32" using assms(1) by simp
  from walk_stays_ok [OF walk_ok_default this assms(2)] obtain book where
    run: "random_walk ds book_default = Ret book" and w: "walk_ok (length ds) book" by auto
  then have "side_walk (length ds) unreverse (buys book)" "side_walk (length ds) (\<lambda>x. x) (sells book)" "uncrossed book"
    by (simp_all add: walk_ok_def)
  then show ?thesis using run
    by (intro exI [of _ book]) (simp add: side_walk_def book_ok_def uncrossed_def unat_gt_0)
qed

text \<open>Draws with given coins and price, which insert 5.\<close>

definition demo_dice :: "bool \<Rightarrow> u32 \<Rightarrow> dice" where
  "demo_dice buy p = \<lparr>coin_side = buy, coin_action = True, normal_price = p, range_quantity = 5,
     choose_index = (\<lambda>n. 0), range_removal = (\<lambda>q. q), nanos = 0\<rparr>"

lemma demo_fair: "fair (demo_dice buy p)"
proof -
  have "1 \<le> q" if "0 < q" for q :: u32 using inc_le [OF that] by simp
  then show ?thesis by (simp add: fair_def demo_dice_def MAX_QUANTITY_def)
qed

lemma demo_dice_price [simp]: "normal_price (demo_dice buy p) = p"
  by (simp add: demo_dice_def)

theorem random_deltas_never_cross_witness:
  "\<exists>book. random_walk [demo_dice True 12000, demo_dice False 9000] book_default = Ret book \<and>
    (\<forall>b \<in> dom (bt_get (buys book)). \<forall>s \<in> dom (bt_get (sells book)). unreverse b < s)"
proof -
  have "(12000 :: u32) \<noteq> - 1" "(9000 :: u32) \<noteq> - 1" by simp_all
  then have "fair d \<and> normal_price d \<noteq> 0 \<and> normal_price d \<noteq> - 1"
    if "d \<in> set [demo_dice True 12000, demo_dice False 9000]" for d
    using that demo_fair by (elim set_ConsD [THEN disjE]) auto
  from random_deltas_never_cross [OF _ this, where ds = "[demo_dice True 12000, demo_dice False 9000]"] show ?thesis
    by (simp del: random_walk.simps) blast
qed


end
