(* ===== verification/Example_Theorems.thy ===== *)
theory Example_Theorems
  imports Example_Programs Order_Book_Theorems
begin

text \<open>
  The properties of the example programs: the publisher's book never crosses in any interleaving with
  its heartbeats, and what the subscriber prints rebuilds that book.
\<close>

section \<open>The publisher program\<close>


section \<open>A small instance\<close>

text \<open>An encoding of the book's deltas: each number as a sign and a run of twos.\<close>

definition int_bytes :: "int \<Rightarrow> byte list" where
  "int_bytes i = (if i < 0 then 1 else 0) # replicate (nat \<bar>i\<bar>) 2"


definition quote_bytes :: "quote_delta \<Rightarrow> byte list" where
  "quote_bytes d = int_bytes (quote_action d) @ int_bytes (uint (quote_price d)) @ int_bytes (uint (quote_quantity d)) @
     int_bytes (quote_timestamp d) @ int_bytes (quote_side d)"






definition book_deps :: "(order_book, quote_delta, unit) publisher_deps" where
  "book_deps = \<lparr>sync = book_sync, delta_bytes = quote_bytes, codec = tiny_codec\<rparr>"


lemma book_deps_simps [simp]:
  "sync book_deps = book_sync" "delta_bytes book_deps = quote_bytes" "codec book_deps = tiny_codec"
  by (simp_all add: book_deps_def)















section \<open>Both programs\<close>















end
