(* ===== verification/Unit_Tests.thy ===== *)
theory Unit_Tests
  imports Transport Publishing Master_Log
begin

text \<open>
  The unit tests of the crate's components and the tests of the sqlite store, as the programs that
  they are: a failed assertion or \<open>unwrap\<close> is a panic. That each of them passes, whatever the
  encodings underneath, ties the definitions of the components to what their authors expect.
\<close>

section \<open>Destructor channels, the counter, the sockets\<close>

definition test_should_destruct :: "unit run" where
  "test_should_destruct = assert_that (\<not> fst (should_destruct channel))"

definition test_should_destruct_signal :: "unit run" where
  "test_should_destruct_signal =
     (let (ok, rx) = channel_send channel
      in run_bind (assert_that ok) (\<lambda>_. assert_that (fst (should_destruct rx))))"

definition test_should_destruct_error :: "unit run" where
  "test_should_destruct_error = assert_that (fst (should_destruct (channel\<lparr>sender_alive := False\<rparr>)))"

theorem destructor_tests_pass:
  "test_should_destruct = Ret ()" "test_should_destruct_signal = Ret ()" "test_should_destruct_error = Ret ()"
  by (simp_all add: test_should_destruct_def test_should_destruct_signal_def test_should_destruct_error_def
      should_destruct_def try_recv_def channel_def channel_send_def assert_that_def)

text \<open>\<open>assert_eq!(state_wrapper.stamp(), n)\<close>\<close>

definition assert_stamp :: "int \<Rightarrow> 'st state_wrapper \<Rightarrow> 'st state_wrapper run" where
  "assert_stamp n w = (let (i, w') = stamp w in run_bind (assert_that (i = n)) (\<lambda>_. Ret w'))"

definition test_stamp :: "(unit, 'd, 'ae) state_sync \<Rightarrow> unit run" where
  "test_stamp S =
     run_bind (assert_stamp 0 \<lparr>inner_state = (), wrapper_sequence = 0\<rparr>) (\<lambda>w.
     run_bind (assert_stamp 1 w) (\<lambda>w.
     run_bind (assert_stamp 2 w) (\<lambda>w.
     run_bind (assert_stamp 10 (with_sequence S 10)) (\<lambda>w.
     run_bind (assert_stamp 11 w) (\<lambda>w. Ret ())))))"

theorem stamp_test_passes: "test_stamp S = Ret ()"
  by (simp add: test_stamp_def assert_stamp_def stamp_def with_sequence_def assert_that_def wrap_i64_def)

definition test_not_multicast_socket :: "(sys_call \<Rightarrow> string option) \<Rightarrow> unit run" where
  "test_not_multicast_socket fails =
     (let res = fst (new_multicast_publisher fails \<lparr>ip = Ipv4 8 8 8 8, port = 80\<rparr>)
      in assert_that (isl res))"

theorem not_multicast_test_passes: "test_not_multicast_socket fails = Ret ()"
  by (simp add: test_not_multicast_socket_def new_multicast_publisher_def new_multicast_socket_def assert_that_def)

section \<open>The tree\<close>

text \<open>\<open>state.apply_delta(delta).unwrap()\<close>, one after the other\<close>

fun apply_unwrapped :: "('st, 'd, 'ae) state_sync \<Rightarrow> 'd list \<Rightarrow> 'st \<Rightarrow> 'st run" where
  "apply_unwrapped S [] st = Ret st"
| "apply_unwrapped S (d # ds) st =
     run_bind (apply_delta S d st) (\<lambda>(r, st'). run_bind (unwrap r) (\<lambda>_. apply_unwrapped S ds st'))"

definition test_state_sync :: "unit run" where
  "test_state_sync =
     (let s1 = \<lparr>leaf_id = 1, leaf_a = 2, leaf_b = 3\<rparr>; s2 = \<lparr>leaf_id = 2, leaf_a = 4, leaf_b = 6\<rparr>;
          s3 = \<lparr>leaf_id = 3, leaf_a = 6, leaf_b = 9\<rparr>; s4 = \<lparr>leaf_id = 4, leaf_a = 8, leaf_b = 12\<rparr>;
          delta = (\<lambda>d. Leaf_Delta (Some d))
      in run_bind (apply_unwrapped tree_sync [delta (New_Leaf s1), delta (New_Leaf s2), delta (New_Leaf s3)]
             (default_state tree_sync)) (\<lambda>st.
         run_bind (assert_that (st = \<lparr>leaves = [(leaf_id s1, s1), (leaf_id s2, s2), (leaf_id s3, s3)]\<rparr>)) (\<lambda>_.
         run_bind (apply_unwrapped tree_sync
            [delta (Edit_A \<lparr>edit_id = leaf_id s1, edit_value = 10\<rparr>),
             delta (Edit_B \<lparr>edit_id = leaf_id s1, edit_value = - 10\<rparr>),
             delta (Edit_B \<lparr>edit_id = leaf_id s3, edit_value = 100\<rparr>)] st) (\<lambda>st.
         run_bind (assert_that (bt_get (leaves st) (leaf_id s2) = Some s2)) (\<lambda>_.
         run_bind (apply_unwrapped tree_sync [delta (Delete_Leaf (leaf_id s2))] st) (\<lambda>st.
         run_bind (assert_that (bt_get (leaves st) (leaf_id s2) = None)) (\<lambda>_.
         run_bind (apply_unwrapped tree_sync
            [delta (New_Leaf s4), delta (Edit_A \<lparr>edit_id = leaf_id s1, edit_value = 20\<rparr>),
             delta (Edit_B \<lparr>edit_id = leaf_id s4, edit_value = - 100\<rparr>)] st) (\<lambda>st.
         run_bind (assert_that (st = \<lparr>leaves =
            [(leaf_id s1, \<lparr>leaf_id = leaf_id s1, leaf_a = 32, leaf_b = - 7\<rparr>),
             (leaf_id s3, \<lparr>leaf_id = leaf_id s3, leaf_a = 6, leaf_b = 109\<rparr>),
             (leaf_id s4, \<lparr>leaf_id = leaf_id s4, leaf_a = 8, leaf_b = - 88\<rparr>)]\<rparr>)) (\<lambda>_.
         assert_that (reset tree_sync st = default_state tree_sync))))))))))"

theorem state_sync_test_passes: "test_state_sync = Ret ()"
  by (simp add: test_state_sync_def tree_sync_def tree_default_def tree_apply_delta_def edit_entry_def bt_get_def
      bt_remove_def wrap_i32_def reset_def assert_that_def)

section \<open>The sqlite store\<close>

text \<open>
  \<open>grapevine-tests/tests/sqlite_persistence.rs\<close>. \<open>enc\<close> is \<open>encode_to_vec\<close>, \<open>dec\<close> is \<open>Message::decode\<close>;
  sqlx connects to a database and runs the migrations.
\<close>

definition heartbeat_message :: "int \<Rightarrow> raw_message" where
  "heartbeat_message i = \<lparr>metadata = \<lparr>timestamp = 0, sequence = i\<rparr>, payload = Some Heartbeat\<rparr>"

record database =
  connect_to :: "string \<Rightarrow> (string, master_pool) result"
  migrate :: "master_pool \<Rightarrow> (string, master_pool) result"

definition test_db_pool :: "database \<Rightarrow> master_pool run" where
  "test_db_pool db = run_bind (unwrap (connect_to db ''sqlite::memory:'')) (\<lambda>pool. unwrap (migrate db pool))"

text \<open>An operation of the store and its \<open>unwrap\<close>\<close>

definition unwrapped :: "('s \<Rightarrow> ('e, 'a) result \<times> 's) \<Rightarrow> 's \<Rightarrow> ('a \<times> 's) run" where
  "unwrapped op s = (let (r, s') = op s in run_bind (unwrap r) (\<lambda>x. Ret (x, s')))"

abbreviation write_raw :: "(raw_message \<Rightarrow> byte list) \<Rightarrow> raw_message \<Rightarrow> master_pool \<Rightarrow> (unit \<times> master_pool) run" where
  "write_raw enc m \<equiv> unwrapped (sqlite_write_message (msg_seq m) (msg_ts m) (enc m))"

definition initialize_empty :: "database \<Rightarrow> unit run" where
  "initialize_empty db =
     run_bind (test_db_pool db) (\<lambda>pool.
     run_bind (unwrapped sqlite_next_sequence pool) (\<lambda>(n, pool). assert_that (n = 0)))"

definition initialize_exists :: "database \<Rightarrow> (raw_message \<Rightarrow> byte list) \<Rightarrow> unit run" where
  "initialize_exists db enc =
     (let msg = heartbeat_message 123
      in run_bind (test_db_pool db) (\<lambda>pool.
         run_bind (write_raw enc msg pool) (\<lambda>(u, pool).
         run_bind (unwrapped sqlite_next_sequence pool) (\<lambda>(n, pool). assert_that (n = wrap_i64 (msg_seq msg + 1))))))"

definition write_read_message :: "database \<Rightarrow> (raw_message \<Rightarrow> byte list) \<Rightarrow> unit run" where
  "write_read_message db enc =
     (let msg = heartbeat_message 1234; bytes = enc msg
      in run_bind (test_db_pool db) (\<lambda>pool.
         run_bind (write_raw enc msg pool) (\<lambda>(u, pool).
         run_bind (unwrapped (sqlite_read_sequence (msg_seq msg)) pool) (\<lambda>(read, pool). assert_that (read = bytes)))))"

fun write_each :: "(raw_message \<Rightarrow> byte list) \<Rightarrow> raw_message list \<Rightarrow> master_pool \<Rightarrow> master_pool run" where
  "write_each enc [] pool = Ret pool"
| "write_each enc (m # ms) pool = run_bind (write_raw enc m pool) (\<lambda>(u, pool). write_each enc ms pool)"

text \<open>\<open>while let Some(Ok(msg)) = stream.next().await\<close>: it counts the records, and ends at an error.\<close>

fun count_records ::
  "(byte list \<Rightarrow> (string, raw_message) result) \<Rightarrow> raw_message list \<Rightarrow> (status, byte list) result list \<Rightarrow> int run" where
  "count_records dec data (Inr bytes # items) =
     run_bind (unwrap (dec bytes)) (\<lambda>m.
     run_bind (assert_that (0 \<le> msg_seq m \<and> nat (msg_seq m) < length data \<and> data ! nat (msg_seq m) = m)) (\<lambda>_.
     run_bind (count_records dec data items) (\<lambda>records. Ret (records + 1))))"
| "count_records dec data items = Ret 0"

definition test_stream_from_sequence ::
  "database \<Rightarrow> (raw_message \<Rightarrow> byte list) \<Rightarrow> (byte list \<Rightarrow> (string, raw_message) result) \<Rightarrow> unit run" where
  "test_stream_from_sequence db enc dec =
     (let data = map (\<lambda>i. heartbeat_message (int i)) [0..<20]
      in run_bind (test_db_pool db) (\<lambda>pool.
         run_bind (write_each enc data pool) (\<lambda>pool.
         run_bind (unwrapped (sqlite_stream_from_sequence 10) pool) (\<lambda>(stream, pool).
         run_bind (count_records dec data stream) (\<lambda>records. assert_that (records = 10))))))"

text \<open>A new database in memory, and no faults.\<close>

definition fresh_database :: "database \<Rightarrow> bool" where
  "fresh_database db \<longleftrightarrow> (\<exists>pool. test_db_pool db = Ret pool \<and> rows pool = [] \<and> faults pool = (\<lambda>_. None))"

lemma unwrapped_write:
  assumes "faults pool = (\<lambda>_. None)" "msg_seq m \<notin> master_id ` set (rows pool)"
  shows "write_raw enc m pool = Ret ((), pool\<lparr>rows := rows pool @
    [\<lparr>master_id = msg_seq m, master_ts = msg_ts m, master_raw = enc m\<rparr>], uses := uses pool + 2\<rparr>)"
  using assms by (simp add: unwrapped_def sqlite_write_message_def run_statement_healthy insert_row_def)

lemma written:
  assumes "faults pool = (\<lambda>_. None)" "distinct (map msg_seq ms)" "\<forall>m \<in> set ms. msg_seq m \<notin> master_id ` set (rows pool)"
  shows "\<exists>pool'. write_each enc ms pool = Ret pool' \<and> faults pool' = (\<lambda>_. None) \<and>
    rows pool' = rows pool @ map (\<lambda>m. \<lparr>master_id = msg_seq m, master_ts = msg_ts m, master_raw = enc m\<rparr>) ms"
  using assms
proof (induction ms arbitrary: pool)
  case (Cons m ms)
  let ?p = "pool\<lparr>rows := rows pool @ [\<lparr>master_id = msg_seq m, master_ts = msg_ts m, master_raw = enc m\<rparr>],
    uses := uses pool + 2\<rparr>"
  have "faults ?p = (\<lambda>_. None)" "distinct (map msg_seq ms)" "\<forall>m \<in> set ms. msg_seq m \<notin> master_id ` set (rows ?p)"
    using Cons.prems by (simp, simp) (use Cons.prems(2,3) in \<open>auto simp: image_iff\<close>)
  from Cons.IH [OF this] show ?case using Cons.prems by (simp add: unwrapped_write)
qed simp

theorem sqlite_tests_pass:
  assumes "fresh_database db" "\<And>m. wf_raw m \<Longrightarrow> dec (enc m) = Inr m"
  shows "initialize_empty db = Ret ()" "initialize_exists db enc = Ret ()" "write_read_message db enc = Ret ()"
    "test_stream_from_sequence db enc dec = Ret ()"
proof -
  obtain pool where pool: "test_db_pool db = Ret pool" "rows pool = []" "faults pool = (\<lambda>_. None)"
    using assms(1) by (auto simp: fresh_database_def)
  show "initialize_empty db = Ret ()"
    by (simp add: initialize_empty_def pool unwrapped_def sqlite_next_sequence_def run_statement_healthy
        select_last_id_def assert_that_def)
  show "initialize_exists db enc = Ret ()"
    by (simp add: initialize_exists_def pool unwrapped_write Let_def)
      (simp add: pool unwrapped_def sqlite_next_sequence_def run_statement_healthy select_last_id_def assert_that_def
        heartbeat_message_def)
  show "write_read_message db enc = Ret ()"
    by (simp add: write_read_message_def pool unwrapped_write Let_def)
      (simp add: pool unwrapped_def sqlite_read_sequence_def run_statement_healthy assert_that_def)
  let ?row = "\<lambda>m. \<lparr>master_id = msg_seq m, master_ts = msg_ts m, master_raw = enc m\<rparr>"
  let ?data = "map (\<lambda>i. heartbeat_message (int i)) [0..<20]"
  have "distinct (map msg_seq ?data)" by (simp add: heartbeat_message_def comp_def distinct_map)
  then obtain pool' where pool': "write_each enc ?data pool = Ret pool'" "faults pool' = (\<lambda>_. None)"
      "rows pool' = map ?row ?data"
    using written [OF pool(3), of ?data enc] pool(2) by auto
  have count: "count_records dec ?data (map Inr (map (\<lambda>i. enc (heartbeat_message (int i))) is)) = Ret (int (length is))"
    if "\<forall>i \<in> set is. i < 20" for "is"
    using that
  proof (induction "is")
    case (Cons i "is")
    have "dec (enc (heartbeat_message (int i))) = Inr (heartbeat_message (int i))"
      using Cons.prems by (intro assms(2)) (simp add: wf_raw_def heartbeat_message_def in_i64_def)
    then show ?case using Cons by (simp add: assert_that_def heartbeat_message_def)
  qed simp
  have sorted: "sort_key master_id (map (\<lambda>i. ?row (heartbeat_message (int i))) is) = map (\<lambda>i. ?row (heartbeat_message (int i))) is"
    if "sorted is" for "is"
    by (rule sort_key_id_if_sorted) (use that in \<open>simp add: heartbeat_message_def sorted_iff_nth_mono\<close>)
  obtain ks where ks: "ks = filter (\<lambda>i. 10 \<le> i) [0..<20::nat]" by blast
  have "length (filter (\<lambda>i. 10 \<le> i) [0..<20::nat]) = 10" by code_simp
  then have len: "length ks = 10" "sorted ks" "\<forall>i \<in> set ks. i < 20" using ks sorted_wrt_filter [OF sorted_upt] by auto
  have "filter (\<lambda>r. 10 \<le> master_id r) (rows pool') = map (\<lambda>i. ?row (heartbeat_message (int i))) ks"
    by (simp add: pool'(3) filter_map comp_def heartbeat_message_def ks)
  then have "unwrapped (sqlite_stream_from_sequence 10) pool' =
      Ret (map Inr (map (\<lambda>i. enc (heartbeat_message (int i))) ks), pool'\<lparr>uses := uses pool' + 2\<rparr>)"
    by (simp add: unwrapped_def sqlite_stream_from_sequence_def run_statement_healthy pool'(2) sorted [OF len(2)] comp_def)
  then show "test_stream_from_sequence db enc dec = Ret ()"
    using count [OF len(3)] len(1)
    by (simp add: test_stream_from_sequence_def pool(1) pool'(1) Let_def assert_that_def)
qed

section \<open>The context and the heartbeat\<close>

text \<open>
  Both tests publish to a multicast address and read the datagrams back through a framed socket on
  the same machine. \<open>next_message\<close> is \<open>subscriber.next().await.unwrap().unwrap()\<close> on the datagrams that
  were sent and not read yet: it waits for one, and panics if it does not decode.
\<close>

fun next_message :: "raw_message codec_deps \<Rightarrow> byte list list \<Rightarrow> (raw_message \<times> byte list list) run" where
  "next_message C [] = Pending"
| "next_message C (f # fs) = (case of_datagram C f of Some m \<Rightarrow> Ret (m, fs) | None \<Rightarrow> Panic)"

definition test_sockets :: "(sys_call \<Rightarrow> string option) \<Rightarrow> nat \<Rightarrow> (mc_socket \<times> mc_socket) run" where
  "test_sockets fails p =
     (let mc_addr = \<lparr>ip = Ipv4 224 0 0 124, port = p\<rparr>
      in run_bind (unwrap (fst (new_multicast_publisher fails mc_addr))) (\<lambda>publisher.
         run_bind (unwrap (fst (new_multicast_socket fails mc_addr))) (\<lambda>subscriber. Ret (publisher, subscriber))))"

text \<open>\<open>assert_eq!(message, RawMessage { .. timestamp: message.metadata.timestamp .. })\<close>\<close>

definition assert_message :: "int \<Rightarrow> payload \<Rightarrow> raw_message \<Rightarrow> unit run" where
  "assert_message i p m = assert_that (m = \<lparr>metadata = \<lparr>timestamp = msg_ts m, sequence = i\<rparr>, payload = Some p\<rparr>)"

text \<open>The faults of the publisher's socket, and the two times at which messages are stamped, are parameters.\<close>

definition test_context_apply_delta ::
  "(sys_call \<Rightarrow> string option) \<Rightarrow> (mc_socket \<Rightarrow> nat \<Rightarrow> string option) \<Rightarrow> raw_message codec_deps \<Rightarrow>
   (leaf_delta \<Rightarrow> byte list) \<Rightarrow> int \<Rightarrow> int \<Rightarrow> unit run" where
  "test_context_apply_delta fails send_faults C enc now1 now2 =
     run_bind (test_sockets fails 4535) (\<lambda>(publisher, subscriber).
     let D = \<lparr>sync = tree_sync, delta_bytes = enc, codec = C\<rparr>;
         context = \<lparr>wrapper = \<lparr>inner_state = tree_default, wrapper_sequence = 0\<rparr>, store = [],
           socket = \<lparr>sent = [], send_error = send_faults publisher, attempts = 0\<rparr>\<rparr>;
         delta1 = Leaf_Delta (Some (New_Leaf \<lparr>leaf_id = 1, leaf_a = 2, leaf_b = 3\<rparr>));
         delta2 = Leaf_Delta (Some (New_Leaf \<lparr>leaf_id = 2, leaf_a = 3, leaf_b = 4\<rparr>))
     in run_bind (context_apply_delta mock_publisher D delta1 now1 context) (\<lambda>(r, g1).
        run_bind (unwrap r) (\<lambda>_.
        run_bind (context_apply_delta mock_publisher D delta2 now2 g1) (\<lambda>(r, g2).
        run_bind (unwrap r) (\<lambda>_.
        run_bind (assert_that (length (leaves (inner_state (wrapper g2))) = 2)) (\<lambda>_.
        run_bind (assert_that (wrapper_sequence (wrapper g2) = 2)) (\<lambda>_.
        run_bind (next_message C (sent (socket g2))) (\<lambda>(message1, heard).
        run_bind (assert_message 0 (Delta \<lparr>body = enc delta1\<rparr>) message1) (\<lambda>_.
        run_bind (next_message C heard) (\<lambda>(message2, heard).
        assert_message 1 (Delta \<lparr>body = enc delta2\<rparr>) message2))))))))))"

definition test_heartbeat ::
  "(sys_call \<Rightarrow> string option) \<Rightarrow> (mc_socket \<Rightarrow> nat \<Rightarrow> string option) \<Rightarrow> raw_message codec_deps \<Rightarrow> int \<Rightarrow> int \<Rightarrow> unit run" where
  "test_heartbeat fails send_faults C now1 now2 =
     run_bind (test_sockets fails 4536) (\<lambda>(publisher, subscriber).
     let loop = \<lparr>wrapper = \<lparr>inner_state = (), wrapper_sequence = 0\<rparr>, store = [],
           socket = \<lparr>sent = [], send_error = send_faults publisher, attempts = 0\<rparr>\<rparr>;
         g = heartbeat mock_publisher C now2 (heartbeat mock_publisher C now1 loop)
     in run_bind (next_message C (sent (socket g))) (\<lambda>(message1, heard).
        run_bind (assert_message 0 Heartbeat message1) (\<lambda>_.
        run_bind (next_message C heard) (\<lambda>(message2, heard).
        assert_message 1 Heartbeat message2))))"

text \<open>Nothing fails: a codec that reads what it writes, and system calls that succeed.\<close>

lemma sockets_made: "\<exists>p s. test_sockets (\<lambda>_. None) n = Ret (p, s)"
  by (simp add: test_sockets_def new_multicast_publisher_def new_multicast_socket_def sys_def Let_def)

text \<open>A message small enough is sent as the frame that gives it back.\<close>

lemma publish_mock:
  assumes "codec_sound C" "prost_encode C m = Inr bytes" "length bytes \<le> MAX_PAYLOAD_SIZE"
    and "bt_get (store g) (msg_seq m) = None" "send_error (socket g) = (\<lambda>_. None)"
  shows "publish mock_publisher C m g = (Inr (length (frame bytes)), g\<lparr>store := bt_insert (msg_seq m) bytes (store g),
      socket := socket g\<lparr>sent := sent (socket g) @ [frame bytes], attempts := Suc (attempts (socket g))\<rparr>\<rparr>)"
  using assms by (simp add: publish_def publish_store_def encode_empty codec_sound_def mock_publisher_def
      mock_write_message_def publish_send_def socket_send_def drop_frame)

lemma frame_read:
  assumes "codec_sound C" "prost_encode C m = Inr bytes" "length bytes \<le> MAX_PAYLOAD_SIZE" "wf_raw m"
  shows "of_datagram C (frame bytes) = Some m"
  using assms by (intro of_datagram_frame) (auto simp: codec_sound_def)

definition sendable :: "raw_message codec_deps \<Rightarrow> raw_message \<Rightarrow> bool" where
  "sendable C m \<longleftrightarrow> (\<exists>bytes. prost_encode C m = Inr bytes \<and> length bytes \<le> MAX_PAYLOAD_SIZE)"

theorem heartbeat_test_passes:
  assumes "codec_sound C" "in_i64 now1" "in_i64 now2"
    and "\<And>i now. sendable C \<lparr>metadata = \<lparr>timestamp = now, sequence = i\<rparr>, payload = Some Heartbeat\<rparr>"
  shows "test_heartbeat (\<lambda>_. None) (\<lambda>_ _. None) C now1 now2 = Ret ()"
proof -
  let ?m = "\<lambda>i now. \<lparr>metadata = \<lparr>timestamp = now, sequence = i\<rparr>, payload = Some Heartbeat\<rparr>"
  obtain p s where ps: "test_sockets (\<lambda>_. None) 4536 = Ret (p, s)" using sockets_made by blast
  obtain b0 b1 where b0: "prost_encode C (?m 0 now1) = Inr b0" "length b0 \<le> MAX_PAYLOAD_SIZE"
    and b1: "prost_encode C (?m 1 now2) = Inr b1" "length b1 \<le> MAX_PAYLOAD_SIZE"
    using assms(4) unfolding sendable_def by metis
  have wf: "wf_raw (?m 0 now1)" "wf_raw (?m 1 now2)" using assms(2,3) by (simp_all add: wf_raw_def in_i64_def)
  note sent0 = publish_mock [OF assms(1) b0] frame_read [OF assms(1) b0 wf(1)]
    and sent1 = publish_mock [OF assms(1) b1] frame_read [OF assms(1) b1 wf(2)]
  show ?thesis
    by (simp add: test_heartbeat_def ps Let_def heartbeat_def stamp_heartbeat_def stamp_def wrap_i64_def bt_get_def
        sent0 sent1 assert_message_def assert_that_def)
qed

theorem context_test_passes:
  assumes "codec_sound C" "in_i64 now1" "in_i64 now2"
    and "\<And>i now d. sendable C \<lparr>metadata = \<lparr>timestamp = now, sequence = i\<rparr>, payload = Some (Delta \<lparr>body = enc d\<rparr>)\<rparr>"
  shows "test_context_apply_delta (\<lambda>_. None) (\<lambda>_ _. None) C enc now1 now2 = Ret ()"
proof -
  let ?m = "\<lambda>i now l. \<lparr>metadata = \<lparr>timestamp = now, sequence = i\<rparr>,
    payload = Some (Delta \<lparr>body = enc (Leaf_Delta (Some (New_Leaf l)))\<rparr>)\<rparr>"
  let ?m0 = "?m 0 now1 \<lparr>leaf_id = 1, leaf_a = 2, leaf_b = 3\<rparr>" and ?m1 = "?m 1 now2 \<lparr>leaf_id = 2, leaf_a = 3, leaf_b = 4\<rparr>"
  obtain p s where ps: "test_sockets (\<lambda>_. None) 4535 = Ret (p, s)" using sockets_made by blast
  obtain b0 b1 where b0: "prost_encode C ?m0 = Inr b0" "length b0 \<le> MAX_PAYLOAD_SIZE"
    and b1: "prost_encode C ?m1 = Inr b1" "length b1 \<le> MAX_PAYLOAD_SIZE"
    using assms(4) unfolding sendable_def by metis
  have wf: "wf_raw ?m0" "wf_raw ?m1" using assms(2,3) by (simp_all add: wf_raw_def in_i64_def)
  note sent0 = publish_mock [OF assms(1) b0] frame_read [OF assms(1) b0 wf(1)]
    and sent1 = publish_mock [OF assms(1) b1] frame_read [OF assms(1) b1 wf(2)]
  show ?thesis
    by (simp add: test_context_apply_delta_def ps Let_def context_apply_delta_def stamp_delta_def stamp_def wrap_i64_def
        bt_get_def tree_sync_def tree_default_def tree_apply_delta_def sent0 sent1 assert_message_def assert_that_def)
qed

end
