(* ===== verification/Sequencer_Tests.thy ===== *)
theory Sequencer_Tests
  imports Subscriber_Theorems Publisher_Theorems
begin

text \<open>
  The tests of \<open>subscriber/sequencer.rs\<close> with their helpers (and those of \<open>subscriber/message.rs\<close>), as
  the programs that they are. The tests of the order pass whatever the shuffle, the encodings and the
  times, as long as no two looks at the clock are a timeout apart; the test of a single recovery fails
  when the message that it leaves out is the last one, whatever the timing.
\<close>

section \<open>What is recovered alone\<close>

text \<open>Everything that the sequencer has buffered or will hear from the socket is below \<open>B\<close>.\<close>

definition below :: "int \<Rightarrow> message_sequencer \<Rightarrow> bool" where
  "below B s \<longleftrightarrow> mm_inv (heap s) \<and>
     (\<forall>m. m \<in># mm_items (heap s) \<longrightarrow> origin m = Udp \<and> 0 \<le> recv_seq m \<and> recv_seq m < B) \<and>
     (\<forall>m. Datagram m \<in> set (udp_framed s) \<longrightarrow> 0 \<le> msg_seq m \<and> msg_seq m < B)"

text \<open>An item of origin \<open>Missing\<close> is the service's answer for a sequence whose next one is below \<open>B\<close>.\<close>

definition missing_below :: "'d subscriber_deps \<Rightarrow> recovery_client \<Rightarrow> int \<Rightarrow> 'd stream_item \<Rightarrow> bool" where
  "missing_below deps cl B r \<longleftrightarrow> (item_origin r = Some Missing \<longrightarrow>
     (\<exists>st rt p m t w. r = Inr (Stream_Message st rt Missing p) \<and> log_entry deps m = Some (st, p) \<and>
        rpc_get_message cl t \<lparr>sequence_id = w\<rparr> = Inr m \<and> msg_seq m = w \<and> 0 \<le> w \<and> w + 1 < B))"

fun block_below :: "'d subscriber_deps \<Rightarrow> recovery_client \<Rightarrow> int \<Rightarrow> int \<Rightarrow> 'd block \<Rightarrow> bool" where
  "block_below deps cl B w (Return r s c) \<longleftrightarrow> below B s \<and> recovery_client s = cl \<and>
     (want_sequence s = w \<or> want_sequence s = w + 1) \<and> missing_below deps cl B r"
| "block_below deps cl B w (Fall s c) \<longleftrightarrow> below B s \<and> recovery_client s = cl \<and> want_sequence s = w"

lemma item_parsed:
  assumes "return_parsed deps msg s c = Ret b"
  shows "\<exists>r. b = Return r s c \<and> (item_origin r = None \<or> (\<exists>st p. r = Inr (Stream_Message st (recv_ts msg) (origin msg) p) \<and>
    log_entry deps (raw msg) = Some (st, p)))"
proof -
  let ?a = "and_then (ok_or Missing_Payload (payload (raw msg))) (parse_payload deps)"
  show ?thesis using assms
    by (cases ?a; cases "ns_to_datetime deps (msg_ts (raw msg))") (auto simp: return_parsed_def try_parse_def log_entry_def)
qed

lemma parsed_below:
  assumes "return_parsed deps msg (advance t s) c = Ret b" "below B s" "recovery_client s = cl" "want_sequence s = w"
    and "0 \<le> w" "w < 2 ^ 63 - 1"
    and "origin msg = Missing \<Longrightarrow> \<exists>t. rpc_get_message cl t \<lparr>sequence_id = w\<rparr> = Inr (raw msg) \<and> recv_seq msg = w \<and> w + 1 < B"
  shows "block_below deps cl B w b"
proof -
  obtain r where r: "b = Return r (advance t s) c" "item_origin r = None \<or> (\<exists>st p.
      r = Inr (Stream_Message st (recv_ts msg) (origin msg) p) \<and> log_entry deps (raw msg) = Some (st, p))"
    using item_parsed [OF assms(1)] by blast
  have "missing_below deps cl B r" using r(2) assms(5,7) by (auto simp: missing_below_def intro!: exI [of _ "raw msg"])
  moreover have "in_i64 (w + 1)" using assms(5,6) by (simp add: in_i64_def)
  ultimately show ?thesis using r(1) assms(2-4) by (auto simp: below_def)
qed

lemma missing_below_other [simp]:
  "missing_below deps cl B (Inl e)" "missing_below deps cl B (Inr subscriber_stream.Disconnected)"
  by (simp_all add: missing_below_def)

lemma below_simps [simp]:
  "below B (s\<lparr>recovery_stream := x\<rparr>) = below B s" "below B (s\<lparr>connected := y\<rparr>) = below B s"
  "below B (advance t s) = below B s" "below B (s\<lparr>last_deadline := d\<rparr>) = below B s"
  by (simp_all add: below_def)

lemma sync_block_below:
  assumes "sync_block deps s c = Ret b" "below B s" "recovery_client s = cl" "want_sequence s = w"
    and w: "0 \<le> w" "w < 2 ^ 63 - 1"
  shows "block_below deps cl B w b"
proof (cases "recovery_stream s")
  case (Some items)
  show ?thesis
  proof (cases items)
    case (Cons item rest)
    let ?s1 = "s\<lparr>recovery_stream := Some rest\<rparr>"
    show ?thesis
    proof (cases item)
      case (Inr m)
      show ?thesis
      proof (cases "msg_seq m = want_sequence s")
        case True
        let ?msg = "received_message_new (utc_at c (ticks c)) m Sync"
        have "return_parsed deps ?msg (advance (instant_at (tick c) (ticks (tick c)) + sequence_timeout s) ?s1)
            (tick (tick c)) = Ret b"
          using Some Cons Inr True assms(1) by (simp add: sync_block_def)
        from parsed_below [OF this _ _ _ w] show ?thesis using assms(2-4) by simp
      qed (use Some Cons Inr assms in \<open>auto simp: sync_block_def\<close>)
    qed (use Some Cons assms in \<open>auto simp: sync_block_def\<close>)
  qed (use Some assms in \<open>auto simp: sync_block_def\<close>)
qed (use assms in \<open>auto simp: sync_block_def\<close>)

lemma heap_block_below:
  assumes "heap_block deps s c = Ret b" "below B s" "recovery_client s = cl" "want_sequence s = w"
    and w: "0 \<le> w" "w < 2 ^ 63 - 1"
  shows "block_below deps cl B w b"
proof -
  have mm: "mm_inv (heap s)" using assms(2) by (simp add: below_def)
  have sub: "below B (s\<lparr>heap := h\<rparr>)" if "mm_inv h" "mm_items h \<subseteq># mm_items (heap s)" for h
    using assms(2) that mset_subset_eqD [OF that(2)] by (auto simp: below_def)
  from heap_block_cases [OF mm, of deps c] show ?thesis
  proof
    assume "heap_falls deps s c"
    then show ?thesis using assms(1,3,4) sub multiset_filter_subset unfolding heap_falls_def by fastforce
  next
    assume "heap_returns deps s c"
    then obtain h r where call: "return_parsed deps r
        (advance (instant_at c (ticks c) + sequence_timeout s) (s\<lparr>heap := h\<rparr>)) (tick c) = Ret b"
      and h: "mm_inv h" "r \<in># mm_items (heap s)" "mm_items h \<subseteq># mm_items (heap s)"
      using assms(1) unfolding heap_returns_def by force
    have "origin r = Udp" using assms(2) h(2) by (simp add: below_def)
    then show ?thesis using parsed_below [OF call sub [OF h(1,3)] _ _ w] assms(3,4) by simp
  qed
qed

lemma deadline_block_below:
  assumes "deadline_block deps now s c = Ret b" "below B s" "recovery_client s = cl" "want_sequence s = w"
    and w: "0 \<le> w" "w < 2 ^ 63 - 1"
  shows "block_below deps cl B w b"
proof (cases "mm_peek (heap s)")
  case None
  then show ?thesis using assms by (auto simp: deadline_block_def)
next
  case (Some x)
  have mm: "mm_inv (heap s)" using assms(2) by (simp add: below_def)
  have x: "rev_seq x < B" using mm.peek_in [OF mm Some] assms(2) by (auto simp: below_def)
  have w1: "wrap_i64 (w + 1) = w + 1" using w by (simp add: in_i64_def)
  obtain g where g: "mm_has_gaps (heap s) = Ret g" using mm_has_gaps_Ret [OF mm] by blast
  show ?thesis
  proof (cases "w + 1 = rev_seq x \<and> \<not> g")
    case True
    then have call: "recover_single deps now s c = Ret b"
      using assms(1,4) Some g w1 by (auto simp: deadline_block_def single_missing_def)
    show ?thesis
    proof (cases "rpc_get_message cl (ticks c) \<lparr>sequence_id = w\<rparr>")
      case (Inl e)
      then show ?thesis using call assms(2-4) by (auto simp: recover_single_def)
    next
      case (Inr m)
      let ?msg = "received_message_new (utc_at c (ticks (tick c))) m Missing"
      show ?thesis
      proof (cases "msg_seq m = w")
        case True
        have "return_parsed deps ?msg (advance (now + sequence_timeout s) s) (tick (tick c)) = Ret b"
          using call Inr True assms(3,4) by (simp add: recover_single_def)
        from parsed_below [OF this assms(2-4) w] show ?thesis using Inr True x \<open>w + 1 = rev_seq x \<and> \<not> g\<close> by auto
      qed (use call Inr assms(2-4) in \<open>auto simp: recover_single_def\<close>)
    qed
  next
    case False
    then have call: "recover_stream deps now s c = Ret b"
      using assms(1,4) Some g w1 by (auto simp: deadline_block_def single_missing_def split: if_splits)
    show ?thesis
    proof (cases "\<exists>m items. rpc_stream_from cl (ticks c) \<lparr>sequence_id = w\<rparr> = Inr (Inr m # items) \<and> msg_seq m = w")
      case True
      then obtain m items where m: "rpc_stream_from cl (ticks c) \<lparr>sequence_id = w\<rparr> = Inr (Inr m # items)" "msg_seq m = w"
        by blast
      let ?msg = "received_message_new (utc_at c (ticks (tick c))) m Sync"
      let ?s1 = "s\<lparr>recovery_stream := Some items\<rparr>"
      have eq: "(advance (now + sequence_timeout s) s)\<lparr>recovery_stream := Some items\<rparr> = advance (now + sequence_timeout s) ?s1"
        by (simp add: advance_def)
      have "return_parsed deps ?msg ((advance (now + sequence_timeout s) s)\<lparr>recovery_stream := Some items\<rparr>)
          (tick (tick c)) = Ret b"
        using call m assms(3,4) by (simp add: recover_stream_def)
      from parsed_below [OF this [unfolded eq] _ _ _ w] show ?thesis using assms(2-4) by simp
    qed (use call assms(2-4) in \<open>auto simp: recover_stream_def split: sum.splits list.splits if_splits\<close>)
  qed
qed

lemma listen_block_below:
  "listen_block deps s c = Ret b \<Longrightarrow> below B s \<Longrightarrow> recovery_client s = cl \<Longrightarrow> want_sequence s = w \<Longrightarrow>
   0 \<le> w \<Longrightarrow> w < 2 ^ 63 - 1 \<Longrightarrow> block_below deps cl B w b"
proof (induction "length (udp_framed s)" arbitrary: s c rule: less_induct)
  case less
  note w = less.prems(5,6)
  show ?case
  proof (cases "last_deadline s < instant_at c (ticks c)")
    case True
    then show ?thesis using deadline_block_below [OF _ less.prems(2-)] less.prems(1) by (simp add: listen_deadline)
  next
    case False
    show ?thesis
    proof (cases "udp_framed s")
      case Nil
      then show ?thesis using False less.prems(1) by (simp add: listen_pending)
    next
      case (Cons ev evs)
      note turn = listen_event [OF False Cons, of deps]
      let ?s1 = "s\<lparr>udp_framed := evs\<rparr>"
      have s1: "below B ?s1" "length (udp_framed ?s1) < length (udp_framed s)"
        using less.prems(2) Cons by (auto simp: below_def)
      show ?thesis
      proof (cases ev)
        case (Datagram m)
        have m: "0 \<le> msg_seq m" "msg_seq m < B" using less.prems(2) Cons Datagram by (auto simp: below_def)
        show ?thesis
        proof (cases "msg_seq m = w")
          case True
          then have "return_parsed deps (received_message_new (utc_at (tick c) (ticks (tick c))) m Udp)
              (advance (instant_at c (ticks c) + sequence_timeout s) (?s1\<lparr>connected := True\<rparr>)) (tick (tick c)) = Ret b"
            using less.prems(1,4) turn Datagram by simp
          from parsed_below [OF this _ _ _ w] show ?thesis using s1 less.prems(3,4) by simp
        next
          case other: False
          let ?s2 = "after_datagram ?s1 (tick c) m"
          have "below B ?s2" using s1(1) m
            by (auto simp: after_datagram_def below_def mm.push_items mm.push_invar)
          then show ?thesis
            using less.hyps [of ?s2 "tick (tick c)"] less.prems s1(2) turn Datagram other by simp
        qed
      next
        case Elapsed
        then show ?thesis using less.hyps [of ?s1 "tick c"] less.prems s1 turn by simp
      qed (use less.prems s1 turn in auto)
    qed
  qed
qed

lemma next_below:
  assumes res: "sequencer_next deps s c = Ret b" and s: "below B s" "recovery_client s = cl" "want_sequence s = w"
    and w: "0 \<le> w" "w < 2 ^ 63 - 1"
  shows "block_below deps cl B w b"
proof -
  obtain b1 where b1: "sync_block deps s c = Ret b1" using res by (auto simp: sequencer_next_def run_simps)
  note k1 = sync_block_below [OF b1 s w]
  show ?thesis
  proof (cases b1)
    case (Return r s' c')
    then show ?thesis using k1 b1 res by (auto simp: sequencer_next_def)
  next
    case (Fall s1 c1)
    then have s1: "below B s1" "recovery_client s1 = cl" "want_sequence s1 = w" using k1 by simp_all
    obtain b2 where b2: "heap_block deps s1 c1 = Ret b2"
      using res b1 Fall by (auto simp: sequencer_next_def run_simps)
    note k2 = heap_block_below [OF b2 s1 w]
    show ?thesis
    proof (cases b2)
      case (Return r s' c')
      then show ?thesis using k2 b1 b2 Fall res by (auto simp: sequencer_next_def)
    next
      case fall2: (Fall s2 c2)
      have "listen_block deps (fst (connect_block s2 c2)) (snd (connect_block s2 c2)) = Ret b"
        using res b1 b2 Fall fall2 by (simp add: sequencer_next_def case_prod_beta Let_def)
      from listen_block_below [OF this _ _ _ w] show ?thesis using k2 fall2 by (simp add: connect_block_def)
    qed
  qed
qed

lemma stream_below:
  "below B s \<Longrightarrow> recovery_client s = cl \<Longrightarrow> 0 \<le> want_sequence s \<Longrightarrow> want_sequence s + int n < 2 ^ 63 - 1 \<Longrightarrow>
   r \<in> set (fst (into_stream deps n s c)) \<Longrightarrow> missing_below deps cl B r"
proof (induction n arbitrary: s c)
  case (Suc n)
  then obtain r1 s1 c1 where nxt: "sequencer_next deps s c = Ret (Return r1 s1 c1)"
    by (auto split: run.splits block.splits)
  have "block_below deps cl B (want_sequence s) (Return r1 s1 c1)"
    by (rule next_below [OF nxt Suc.prems(1,2)]) (use Suc.prems(3,4) in simp_all)
  moreover have "r = r1 \<or> r \<in> set (fst (into_stream deps n s1 c1))"
    using Suc.prems(5) nxt by (simp add: case_prod_beta Let_def)
  ultimately show ?case using Suc.IH [of s1 c1] Suc.prems(3,4) by auto
qed simp

section \<open>Helpers\<close>

text \<open>\<open>anyhow::Error\<close>\<close>

datatype test_error = Prost_Failed string | Encoder_Failed status | Stream_Failed stream_error | Non_Deltas | Test_Elapsed

text \<open>\<open>enc\<close> is \<open><i64>::encode\<close>.\<close>

definition make_raw_msg :: "(int \<Rightarrow> (string, byte list) result) \<Rightarrow> int \<Rightarrow> int \<Rightarrow> (string, raw_message) result" where
  "make_raw_msg enc now i = and_then (enc i) (\<lambda>buf.
     Inr \<lparr>metadata = \<lparr>timestamp = now, sequence = i\<rparr>, payload = Some (Delta \<lparr>body = buf\<rparr>)\<rparr>)"

definition make_raw_msg_bytes ::
  "raw_message codec_deps \<Rightarrow> (int \<Rightarrow> (string, byte list) result) \<Rightarrow> int \<Rightarrow> int \<Rightarrow> (test_error, byte list) result" where
  "make_raw_msg_bytes C enc now i =
     and_then (map_err Prost_Failed (make_raw_msg enc now i)) (\<lambda>msg.
       case encode C msg [] of (Inl e, buffer) \<Rightarrow> Inl (Encoder_Failed e) | (Inr _, buffer) \<Rightarrow> Inr buffer)"

text \<open>\<open>TestStateSync\<close> counts its deltas.\<close>

definition counting_sync :: "(int, int, unit) state_sync" where
  "counting_sync = \<lparr>default_state = 0, apply_delta = (\<lambda>d sum. Ret (Inr (), wrap_i64 (sum + 1)))\<rparr>"

text \<open>
  \<open>TestRecoveryApi\<close>: it makes the messages that it is asked for, up to \<open>count\<close> when streaming, and counts
  them. The stream ends at a message that cannot be made.
\<close>

record test_recovery_api =
  api_count :: int
  api_sent :: int

definition api_get_message ::
  "(int \<Rightarrow> (string, byte list) result) \<Rightarrow> int \<Rightarrow> sequence_request \<Rightarrow> test_recovery_api \<Rightarrow>
   (status, raw_message) result \<times> test_recovery_api" where
  "api_get_message enc now inner api =
     (map_err (\<lambda>e. status_internal ''cannot make msg'') (make_raw_msg enc now (sequence_id inner)),
      api\<lparr>api_sent := wrap_i64 (api_sent api + 1)\<rparr>)"

fun try_each :: "('a \<Rightarrow> ('e, 'b) result) \<Rightarrow> 'a list \<Rightarrow> ('e, 'b) result list" where
  "try_each f [] = []"
| "try_each f (x # xs) = (case f x of Inl e \<Rightarrow> [Inl e] | Inr y \<Rightarrow> Inr y # try_each f xs)"

definition api_stream_from ::
  "(int \<Rightarrow> (string, byte list) result) \<Rightarrow> (int \<Rightarrow> int) \<Rightarrow> sequence_request \<Rightarrow> test_recovery_api \<Rightarrow>
   (status, (status, raw_message) result list) result \<times> test_recovery_api" where
  "api_stream_from enc now inner api =
     (let ids = [sequence_id inner..api_count api - 1]
      in (Inr (try_each (\<lambda>i. map_err (\<lambda>e. status_internal ''cannot make msg'') (make_raw_msg enc (now i) i)) ids),
          api\<lparr>api_sent := wrap_i64 (api_sent api + int (length ids))\<rparr>))"

text \<open>\<open>make_recovery_server\<close>, as its client sees it: the tests do not look at the counter.\<close>

definition make_recovery_server :: "(int \<Rightarrow> (string, byte list) result) \<Rightarrow> (int \<Rightarrow> int) \<Rightarrow> int \<Rightarrow> recovery_client" where
  "make_recovery_server enc now total_len =
     (let api = \<lparr>api_count = total_len, api_sent = 0\<rparr>
      in \<lparr>rpc_get_message = (\<lambda>t q. fst (api_get_message enc (now (sequence_id q)) q api)),
          rpc_stream_from = (\<lambda>t q. fst (api_stream_from enc now q api))\<rparr>)"

definition make_sequencer ::
  "udp_event list \<Rightarrow> (int \<Rightarrow> (string, byte list) result) \<Rightarrow> (int \<Rightarrow> int) \<Rightarrow> int \<Rightarrow> nat \<Rightarrow> int \<Rightarrow> clocks \<Rightarrow>
   message_sequencer \<times> clocks" where
  "make_sequencer subscriber enc now want timeout total_len c =
     sequencer_new subscriber (make_recovery_server enc now total_len) want timeout c"

fun get_id :: "int subscriber_stream \<Rightarrow> (int \<times> origin) option" where
  "get_id (Stream_Message st rt org (SDelta i)) = Some (i, org)"
| "get_id _ = None"

fun collect_ids :: "int subscriber_stream list \<Rightarrow> (int \<times> origin) list option" where
  "collect_ids [] = Some []"
| "collect_ids (v # vs) = Option.bind (get_id v) (\<lambda>x. map_option ((#) x) (collect_ids vs))"

definition get_ids :: "int subscriber_stream list \<Rightarrow> (test_error, (int \<times> origin) list) result" where
  "get_ids vs = ok_or Non_Deltas (collect_ids vs)"

section \<open>The test\<close>

text \<open>
  The publisher's task: it sends the messages of \<open>source\<close>, and ends at one that cannot be made. \<open>now k\<close>
  is the time at which it makes message \<open>k\<close>.
\<close>

fun send_each ::
  "raw_message codec_deps \<Rightarrow> (int \<Rightarrow> (string, byte list) result) \<Rightarrow> (nat \<Rightarrow> int) \<Rightarrow> int list \<Rightarrow>
   byte list list \<times> (test_error, unit) result" where
  "send_each C enc now [] = ([], Inr ())"
| "send_each C enc now (i # is) =
     (case make_raw_msg_bytes C enc (now 0) i of
        Inl e \<Rightarrow> ([], Inl e)
      | Inr f \<Rightarrow> (let (frames, res) = send_each C enc (\<lambda>k. now (Suc k)) is in (f # frames, res)))"

text \<open>What the framed socket makes of a datagram: one that does not decode is an error.\<close>

definition hear :: "raw_message codec_deps \<Rightarrow> byte list \<Rightarrow> udp_event" where
  "hear C f = (case of_datagram C f of Some m \<Rightarrow> Datagram m | None \<Rightarrow> Frame_Error (status_internal ''decode''))"

fun try_collect :: "('e, 'a) result list \<Rightarrow> ('e, 'a list) result" where
  "try_collect [] = Inr []"
| "try_collect (r # rs) = and_then r (\<lambda>x. and_then (try_collect rs) (\<lambda>xs. Inr (x # xs)))"

text \<open>
  \<open>test_it\<close>: the stream is asked for as many items as the target has and ends at its first error; the
  result is an error, or the outcome of \<open>assert_eq!\<close> (and the clock then). Every datagram that is sent
  arrives; \<open>quiet\<close> is what the socket yields after them.
\<close>

definition test_it ::
  "raw_message codec_deps \<Rightarrow> int subscriber_deps \<Rightarrow> (int \<Rightarrow> (string, byte list) result) \<Rightarrow> (nat \<Rightarrow> int) \<Rightarrow> (int \<Rightarrow> int) \<Rightarrow>
   udp_event list \<Rightarrow> clocks \<Rightarrow> int list \<Rightarrow> (int \<times> origin) list \<Rightarrow> int \<Rightarrow> nat \<Rightarrow> (test_error, clocks) result run" where
  "test_it C deps enc now api_now quiet c source target want timeout =
     (let (frames, publisher_thread) = send_each C enc now source;
          (sequencer, c1) = make_sequencer (map (hear C) frames @ quiet) enc api_now want timeout
            (int (length target)) c;
          (rs, stopped) = into_stream deps (length target) sequencer c1
      in case try_collect rs of
           Inl e \<Rightarrow> Ret (Inl (Stream_Failed e))
         | Inr data \<Rightarrow> run_bind stopped (\<lambda>(_, c2).
             case and_then (get_ids data) (\<lambda>out. and_then publisher_thread (\<lambda>_. Inr out)) of
               Inl e \<Rightarrow> Ret (Inl e)
             | Inr out \<Rightarrow> run_bind (assert_that (target = out)) (\<lambda>_. Ret (Inr c2))))"

abbreviation SECOND :: nat where
  "SECOND \<equiv> 1000000000"

abbreviation MILLI :: nat where
  "MILLI \<equiv> 1000000"

abbreviation from_udp_ids :: "int \<Rightarrow> int \<Rightarrow> (int \<times> origin) list" where
  "from_udp_ids a b \<equiv> map (\<lambda>i. (i, Udp)) [a..b - 1]"

text \<open>\<open>run c source target want timeout\<close> is \<open>test_it\<close> in its surroundings; \<open>shuffle\<close> is \<open>thread_rng\<close>'s.\<close>

type_synonym test_run = "clocks \<Rightarrow> int list \<Rightarrow> (int \<times> origin) list \<Rightarrow> int \<Rightarrow> nat \<Rightarrow> (test_error, clocks) result run"

text \<open>\<open>test_it(..).await?; Ok(())\<close>\<close>

definition passes :: "(test_error, clocks) result run \<Rightarrow> (test_error, unit) result run" where
  "passes res = run_bind res (\<lambda>r. Ret (and_then r (\<lambda>_. Inr ())))"

definition ordered :: "test_run \<Rightarrow> clocks \<Rightarrow> (test_error, unit) result run" where
  "ordered run c = passes (run c [0..100 - 1] (from_udp_ids 0 100) 0 (60 * SECOND))"

definition unordered :: "(int list \<Rightarrow> int list) \<Rightarrow> test_run \<Rightarrow> clocks \<Rightarrow> (test_error, unit) result run" where
  "unordered shuffle run c = passes (run c (shuffle [0..100 - 1]) (from_udp_ids 0 100) 0 (60 * SECOND))"

definition unordered_from :: "(int list \<Rightarrow> int list) \<Rightarrow> test_run \<Rightarrow> clocks \<Rightarrow> (test_error, unit) result run" where
  "unordered_from shuffle run c = passes (run c (shuffle [0..100 - 1]) (from_udp_ids 10 100) 10 (60 * SECOND))"

definition unordered_with_duplicates :: "(int list \<Rightarrow> int list) \<Rightarrow> test_run \<Rightarrow> clocks \<Rightarrow> (test_error, unit) result run" where
  "unordered_with_duplicates shuffle run c =
     passes (run c (shuffle ([0..100 - 1] @ [0..100 - 1])) (from_udp_ids 0 100) 0 (60 * SECOND))"

text \<open>The recovery tests look at the clock before and after, and must be done within half a second.\<close>

definition within_half_second :: "(clocks \<Rightarrow> (test_error, clocks) result run) \<Rightarrow> clocks \<Rightarrow> (test_error, unit) result run" where
  "within_half_second test c =
     (let (start_at, c1) = instant_now c
      in run_bind (test c1) (\<lambda>r. case r of
           Inl e \<Rightarrow> Ret (Inl e)
         | Inr c2 \<Rightarrow> let (now, c3) = instant_now c2
             in run_bind (assert_that (now - start_at < 500 * MILLI)) (\<lambda>_. Ret (Inr ()))))"

definition singe_recovery :: "(int list \<Rightarrow> int list) \<Rightarrow> test_run \<Rightarrow> clocks \<Rightarrow> (test_error, unit) result run" where
  "singe_recovery shuffle run c =
     (let target = from_udp_ids 0 100; source = shuffle [0..100 - 1]
      in case rev source of
           [] \<Rightarrow> Panic
         | missing_id # _ \<Rightarrow>
             if nat missing_id < length target
             then let target = target[nat missing_id := (fst (target ! nat missing_id), Missing)]
               in within_half_second (\<lambda>c. run c (butlast source) target 0 (250 * MILLI)) c
             else Panic)"

definition batch_recovery :: "test_run \<Rightarrow> clocks \<Rightarrow> (test_error, unit) result run" where
  "batch_recovery run c =
     (let missing = [70, 72, 74, 76, 78];
          target = from_udp_ids 0 70 @ map (\<lambda>i. (i, Sync)) [70..100 - 1];
          source = filter (\<lambda>v. v \<notin> set missing) [0..100 - 1]
      in within_half_second (\<lambda>c. run c source target 0 (250 * MILLI)) c)"

definition batch_recovery_with_duplicates :: "test_run \<Rightarrow> clocks \<Rightarrow> (test_error, unit) result run" where
  "batch_recovery_with_duplicates run c =
     (let target = from_udp_ids 0 70 @ map (\<lambda>i. (i, Sync)) [70..100 - 1];
          missing = [70, 72, 74, 76, 78]; duplicates = [71, 73, 75, 77, 79];
          source = filter (\<lambda>v. v \<notin> set missing) [0..100 - 1] @ duplicates
      in run_bind (assert_that (length source = length target)) (\<lambda>_.
           within_half_second (\<lambda>c. run c source target 0 (250 * MILLI)) c))"

section \<open>They pass\<close>

text \<open>What the tests rely on: the codec and the encoding of an \<open>i64\<close> read what they write, messages fit a
  datagram, and the clock is after the epoch.\<close>

definition test_ready ::
  "int \<Rightarrow> raw_message codec_deps \<Rightarrow> int subscriber_deps \<Rightarrow> (int \<Rightarrow> (string, byte list) result) \<Rightarrow> (nat \<Rightarrow> int) \<Rightarrow> bool" where
  "test_ready B C deps enc now \<longleftrightarrow> B \<le> 2 ^ 62 \<and> codec_sound C \<and> chrono_spec (from_timestamp_opt deps) \<and>
     (\<forall>k. in_i64 (now k) \<and> 0 \<le> now k) \<and>
     (\<forall>i \<in> {0..<B}. \<exists>buf. enc i = Inr buf \<and> delta_decode deps buf = Inr i \<and>
       (\<forall>k. \<exists>bytes. prost_encode C \<lparr>metadata = \<lparr>timestamp = now k, sequence = i\<rparr>, payload = Some (Delta \<lparr>body = buf\<rparr>)\<rparr> = Inr bytes \<and>
         length bytes \<le> MAX_PAYLOAD_SIZE))"

text \<open>The message of a test is read back as its own id.\<close>

definition says_id :: "int subscriber_deps \<Rightarrow> raw_message \<Rightarrow> bool" where
  "says_id deps m \<longleftrightarrow> (\<exists>st. log_entry deps m = Some (st, SDelta (msg_seq m))) \<and> 0 \<le> msg_seq m \<and> msg_seq m < 2 ^ 62"

lemma made_message:
  assumes "test_ready B C deps enc now" "i \<in> {0..<B}"
  shows "\<exists>f m. make_raw_msg_bytes C enc (now k) i = Inr f \<and> of_datagram C f = Some m \<and> msg_seq m = i \<and> says_id deps m"
proof -
  obtain buf bytes where buf: "enc i = Inr buf" "delta_decode deps buf = Inr i"
    and bytes: "prost_encode C \<lparr>metadata = \<lparr>timestamp = now k, sequence = i\<rparr>, payload = Some (Delta \<lparr>body = buf\<rparr>)\<rparr> = Inr bytes"
      "length bytes \<le> MAX_PAYLOAD_SIZE"
    using assms unfolding test_ready_def by blast
  let ?m = "\<lparr>metadata = \<lparr>timestamp = now k, sequence = i\<rparr>, payload = Some (Delta \<lparr>body = buf\<rparr>)\<rparr>"
  have C: "header_ok C" "prost_decode C bytes = Inr ?m"
    using assms bytes(1) by (auto simp: test_ready_def codec_sound_def wf_raw_def in_i64_def)
  have "ns_to_datetime deps (now k) = Ret (now k)"
    by (rule ns_to_datetime_exact) (use assms(1) in \<open>simp_all add: test_ready_def\<close>)
  then have "says_id deps ?m"
    using assms buf(2) by (simp add: says_id_def test_ready_def log_entry_def try_parse_def parse_payload_def)
  moreover have "make_raw_msg_bytes C enc (now k) i = Inr (frame bytes)"
    using buf(1) bytes C(1) by (simp add: make_raw_msg_bytes_def make_raw_msg_def encode_empty)
  ultimately show ?thesis using of_datagram_frame [OF bytes(2) C(2)] by (intro exI [of _ "frame bytes"] exI [of _ ?m]) simp
qed

lemma hear_Some: "of_datagram C f = Some m \<Longrightarrow> hear C f = Datagram m"
  by (simp add: hear_def)

lemma sent_messages:
  assumes "test_ready B C deps enc now" "set is \<subseteq> {0..<B}"
  shows "\<exists>frames ms. send_each C enc now is = (frames, Inr ()) \<and> map (hear C) frames = map Datagram ms \<and>
    map msg_seq ms = is \<and> (\<forall>m \<in> set ms. says_id deps m)"
  using assms
proof (induction "is" arbitrary: now)
  case (Cons i "is")
  have later: "test_ready B C deps enc (\<lambda>k. now (Suc k))" using Cons.prems(1) unfolding test_ready_def by blast
  obtain frames ms where "send_each C enc (\<lambda>k. now (Suc k)) is = (frames, Inr ())"
      "map (hear C) frames = map Datagram ms" "map msg_seq ms = is" "\<forall>m \<in> set ms. says_id deps m"
    using Cons.IH [OF later] Cons.prems(2) by auto
  moreover obtain f m where "make_raw_msg_bytes C enc (now 0) i = Inr f" "of_datagram C f = Some m" "msg_seq m = i"
      "says_id deps m"
    using made_message [OF Cons.prems(1), of i 0] Cons.prems(2) by auto
  ultimately show ?case
    by (intro exI [of _ "f # frames"] exI [of _ "m # ms"]) (simp add: hear_Some)
qed simp

lemma read_ids:
  assumes "length rs = n" "\<forall>j < n. passes_on deps ms (w + int j) (rs ! j)" "\<forall>m \<in> ms. says_id deps m"
  shows "\<exists>vs. try_collect rs = Inr vs \<and> collect_ids vs = Some (map (\<lambda>j. (w + int j, Udp)) [0..<n])"
  using assms(1,2)
proof (induction n arbitrary: rs w)
  case (Suc n)
  then obtain r rs' where rs: "rs = r # rs'" "length rs' = n" by (cases rs) auto
  have "passes_on deps ms w r" using Suc.prems(2) rs by force
  then obtain st rt where r: "r = Inr (Stream_Message st rt Udp (SDelta w))"
    using assms(3) by (fastforce simp: passes_on_def says_id_def)
  have "\<forall>j < n. passes_on deps ms (w + 1 + int j) (rs' ! j)" using Suc.prems(2) rs by (auto simp: add.assoc)
  from Suc.IH [OF rs(2) this] obtain vs where
    "try_collect rs' = Inr vs" "collect_ids vs = Some (map (\<lambda>j. (w + 1 + int j, Udp)) [0..<n])" by blast
  moreover have "map (\<lambda>j. (w + int j, Udp)) [0..<Suc n] = (w, Udp) # map (\<lambda>j. (w + 1 + int j, Udp)) [0..<n]"
    by (simp add: upt_conv_Cons map_Suc_upt [symmetric] comp_def add.assoc del: upt_Suc)
  ultimately show ?case by (simp add: rs(1) r)
qed simp

lemma upto_from: "from_udp_ids a (a + int n) = map (\<lambda>j. (a + int j, Udp)) [0..<n]"
  by (induction n) (simp_all add: upto_rec2)

text \<open>Any order, any duplicates.\<close>

lemma test_it_passes:
  assumes ready: "test_ready 100 C deps enc now" and src: "set source \<subseteq> {0..<100}" "{w..<w + int n} \<subseteq> set source"
    and w: "0 \<le> w" "w < 100" and c: "\<And>i j. instant_at c i \<le> instant_at c j + timeout"
  shows "passes (test_it C deps enc now api_now [] c source (from_udp_ids w (w + int n)) w timeout) = Ret (Inr ())"
proof -
  obtain frames ms where sent: "send_each C enc now source = (frames, Inr ())" "map (hear C) frames = map Datagram ms"
      "map msg_seq ms = source" "\<forall>m \<in> set ms. says_id deps m"
    using sent_messages [OF ready src(1)] by blast
  let ?t = "int (length (from_udp_ids w (w + int n)))"
  obtain sq c1 where sq: "make_sequencer (map Datagram ms) enc api_now w timeout ?t c = (sq, c1)" by fastforce
  then have simps: "held sq = set ms" "heard sq = set source" "want_sequence sq = w" "calm sq c1" "sq_inv sq"
    using c w sent(3)
    by (auto simp: make_sequencer_def sequencer_new_def instant_now_def held_def heard_def calm_def sq_inv_def
        in_i64_def mm_inv_new image_def)
  have "readable deps m" if "m \<in> set ms" for m
    using sent(4) that by (fastforce simp: says_id_def readable_def in_i64_def)
  then have "\<forall>m \<in> held sq. readable deps m" using simps(1) by simp
  moreover have "want_sequence sq + int j \<in> heard sq" if "j < n" for j
    using src(2) that unfolding simps(2,3) by (intro subsetD [OF src(2)]) simp
  ultimately obtain rs s' c' where rs: "into_stream deps n sq c1 = (rs, Ret (s', c'))" "length rs = n"
      "\<forall>j < n. passes_on deps (set ms) (w + int j) (rs ! j)"
    using calm_reads [OF _ simps(5,4)] unfolding simps(1,3) by blast
  obtain vs where "try_collect rs = Inr vs" "collect_ids vs = Some (from_udp_ids w (w + int n))"
    using read_ids [OF rs(2,3) sent(4)] upto_from by metis
  then show ?thesis
    using rs(1) sq by (simp add: passes_def test_it_def sent(1,2) get_ids_def upto_from assert_that_def del: map_map)
qed

text \<open>C39: the sequencer's tests pass. Whatever the shuffle, the encodings of messages and of ids and the
  times of the messages, a hundred messages that all arrive, in order, in any order, each of them
  twice in any order, or from the tenth on, come out in order and once each, all of them from the
  socket, if no two looks at the clock are a minute apart.\<close>

theorem sequencer_tests_pass:
  assumes ready: "test_ready 100 C deps enc now" and c: "\<And>i j. instant_at c i \<le> instant_at c j + 60 * SECOND"
    and shuffle: "\<And>xs. mset (shuffle xs) = mset xs"
  shows "ordered (test_it C deps enc now api_now []) c = Ret (Inr ()) \<and>
    unordered shuffle (test_it C deps enc now api_now []) c = Ret (Inr ()) \<and>
    unordered_from shuffle (test_it C deps enc now api_now []) c = Ret (Inr ()) \<and>
    unordered_with_duplicates shuffle (test_it C deps enc now api_now []) c = Ret (Inr ())"
proof -
  have set: "set (shuffle xs) = set xs" for xs using shuffle [of xs] by (rule mset_eq_setD)
  note pass = test_it_passes [OF ready _ _ _ _ c, where api_now = api_now]
  have ids: "{0..<100} = {0..99::int}" "{10..<100} \<subseteq> {0..99::int}" by auto
  show ?thesis
    using ids pass [of "[0..100 - 1]" 0 100] pass [of "shuffle [0..100 - 1]" 0 100] pass [of "shuffle [0..100 - 1]" 10 90]
      pass [of "shuffle ([0..100 - 1] @ [0..100 - 1])" 0 100]
    by (simp add: ordered_def unordered_def unordered_from_def unordered_with_duplicates_def set)
qed

text \<open>An id of one byte, and a shuffle that turns the list around.\<close>

definition byte_deps :: "int subscriber_deps" where
  "byte_deps = \<lparr>delta_decode = (\<lambda>bs. case bs of [b] \<Rightarrow> Inr (uint b) | _ \<Rightarrow> Inl ''not a byte''),
     from_timestamp_opt = from_timestamp_opt demo_deps\<rparr>"

definition byte_enc :: "int \<Rightarrow> (string, byte list) result" where
  "byte_enc i = Inr [word_of_int i]"

lemma byte_ready: "test_ready 100 tiny_codec byte_deps byte_enc (\<lambda>k. 0)"
  using demo_chrono
  by (simp add: test_ready_def byte_deps_def byte_enc_def tiny_sound in_i64_def tiny_encode_def codec_simps
      uint_word_of_int take_bit_int_eq_self_iff)

theorem sequencer_tests_pass_witness:
  "ordered (test_it tiny_codec byte_deps byte_enc (\<lambda>k. 0) (\<lambda>i. i) []) (demo_clock 5) = Ret (Inr ()) \<and>
   unordered_with_duplicates rev (test_it tiny_codec byte_deps byte_enc (\<lambda>k. 0) (\<lambda>i. i) []) (demo_clock 5) = Ret (Inr ())"
  using sequencer_tests_pass [OF byte_ready, of "demo_clock 5" rev "\<lambda>i. i"] by (simp add: demo_clock_def)

section \<open>The last message\<close>

lemma collected:
  assumes "collect_ids vs = Some out" "x \<in> set out" shows "\<exists>v \<in> set vs. get_id v = Some x"
  using assms by (induction vs arbitrary: out) (auto simp: Option.bind_eq_Some_conv)

lemma try_collect_in: "try_collect rs = Inr vs \<Longrightarrow> v \<in> set vs \<Longrightarrow> Inr v \<in> set rs"
  by (induction rs arbitrary: vs) (auto simp: and_then_Inr_iff)

lemma within_half_second_ran:
  assumes "within_half_second test c = Ret (Inr ())" shows "\<exists>c1 c2. test c1 = Ret (Inr c2)"
proof (cases "test (tick c)")
  case (Ret r)
  then show ?thesis using assms by (cases r) (auto simp: within_half_second_def)
qed (use assms in \<open>simp_all add: within_half_second_def\<close>)

text \<open>What passes has collected the target from the stream.\<close>

lemma test_it_collects:
  assumes "test_it C deps enc now api_now quiet c source target want timeout = Ret (Inr c2)" "x \<in> set target"
  shows "\<exists>sq c1 v. make_sequencer (map (hear C) (fst (send_each C enc now source)) @ quiet) enc api_now want timeout
      (int (length target)) c = (sq, c1) \<and> Inr v \<in> set (fst (into_stream deps (length target) sq c1)) \<and> get_id v = Some x"
proof -
  obtain frames thread where sent: "send_each C enc now source = (frames, thread)" by fastforce
  obtain sq c1 where sq: "make_sequencer (map (hear C) frames @ quiet) enc api_now want timeout (int (length target)) c = (sq, c1)"
    by fastforce
  obtain rs stopped where rs: "into_stream deps (length target) sq c1 = (rs, stopped)" by fastforce
  obtain data where data: "try_collect rs = Inr data"
    using assms(1) by (cases "try_collect rs") (simp_all add: test_it_def sent sq rs)
  have "get_ids data = Inr target"
    using assms(1) data
    by (cases "get_ids data"; cases thread) (auto simp: test_it_def sent sq rs assert_that_def run_simps split: if_splits)
  then obtain v where "v \<in> set data" "get_id v = Some x"
    using collected [of data target x] assms(2) by (cases "collect_ids data") (auto simp: get_ids_def)
  then show ?thesis using try_collect_in [OF data] sent sq rs by auto
qed

text \<open>What passes with a \<open>Missing\<close> message has sent one beyond it.\<close>

lemma test_it_missing:
  assumes ready: "test_ready 100 C deps enc now" and src: "set source \<subseteq> {0..<B}" "B \<le> 100"
    and quiet: "\<And>m. Datagram m \<notin> set quiet" and len: "length target = 100"
    and run: "test_it C deps enc now api_now quiet c source target 0 timeout = Ret (Inr c2)"
    and missing: "(i, Missing) \<in> set target"
  shows "i + 1 < B"
proof -
  let ?cl = "make_recovery_server enc api_now (int (length target))"
  obtain sq c1 v where
    sq: "make_sequencer (map (hear C) (fst (send_each C enc now source)) @ quiet) enc api_now 0 timeout
      (int (length target)) c = (sq, c1)"
    and v: "Inr v \<in> set (fst (into_stream deps (length target) sq c1))" "get_id v = Some (i, Missing)"
    using test_it_collects [OF run missing] by blast
  have "set source \<subseteq> {0..<100}" using src by (auto dest: subsetD)
  then obtain frames ms where sent: "send_each C enc now source = (frames, Inr ())" "map (hear C) frames = map Datagram ms"
      "map msg_seq ms = source"
    using sent_messages [OF ready] by blast
  have "msg_seq m \<in> {0..<B}" if "m \<in> set ms" for m
    by (rule subsetD [OF src(1)]) (use that sent(3) in \<open>auto\<close>)
  then have start: "below B sq" "recovery_client sq = ?cl" "want_sequence sq = 0"
    using sq sent(1,2) quiet by (auto simp: make_sequencer_def sequencer_new_def below_def mm_inv_new)
  have "missing_below deps ?cl B (Inr v)"
    by (rule stream_below [OF start(1,2) _ _ v(1)]) (use start(3) len in simp_all)
  then obtain st rt m t w where m: "v = Stream_Message st rt Missing (SDelta i)" "log_entry deps m = Some (st, SDelta i)"
      "rpc_get_message ?cl t \<lparr>sequence_id = w\<rparr> = Inr m" "0 \<le> w" "w + 1 < B"
    using v(2) by (cases v rule: get_id.cases) (auto simp: missing_below_def)
  have "w \<in> {0..<100}" using m(4,5) src(2) by simp
  then obtain buf where buf: "enc w = Inr buf" "delta_decode deps buf = Inr w"
    using ready unfolding test_ready_def by blast
  have "payload m = Some (Delta \<lparr>body = buf\<rparr>)"
    using m(3) buf(1) by (auto simp: make_recovery_server_def Let_def api_get_message_def make_raw_msg_def)
  then have "i = w" using m(2) buf(2)
    by (cases "ns_to_datetime deps (msg_ts m)") (auto simp: log_entry_def try_parse_def parse_payload_def)
  then show ?thesis using m(5) by simp
qed

text \<open>C40: the test of a single recovery fails when the shuffle leaves out the last message, whatever the
  timing: whatever the clock and whatever the socket yields after the datagrams, the test that expects
  message 99 as the recovered one does not pass. A message is recovered alone only when the one after it
  is buffered; with nothing buffered the deadline reports a disconnection instead.\<close>

theorem singe_recovery_fails_on_last:
  assumes ready: "test_ready 100 C deps enc now" and shuffle: "mset (shuffle [0..99]) = mset [0..99]" "last (shuffle [0..99]) = 99"
    and quiet: "\<And>m. Datagram m \<notin> set quiet"
  shows "singe_recovery shuffle (test_it C deps enc now api_now quiet) c \<noteq> Ret (Inr ())"
proof
  assume pass: "singe_recovery shuffle (test_it C deps enc now api_now quiet) c = Ret (Inr ())"
  let ?src = "shuffle [0..99]" and ?target = "(from_udp_ids 0 100)[99 := (99, Missing)]"
  have set: "set ?src = {0..99}" using mset_eq_setD [OF shuffle(1)] by simp
  have "distinct ?src" using mset_eq_imp_distinct_iff [OF shuffle(1)] by simp
  have ne: "?src \<noteq> []" using set by auto
  then have app: "?src = butlast ?src @ [99]" using shuffle(2) by (metis append_butlast_last_id)
  then have not_last: "99 \<notin> set (butlast ?src)" using \<open>distinct ?src\<close> by (metis distinct_append disjoint_iff list.set_intros(1))
  have src: "set (butlast ?src) \<subseteq> {0..<99}"
  proof
    fix x assume x: "x \<in> set (butlast ?src)"
    then have "x \<in> {0..99}" "x \<noteq> 99" using in_set_butlastD [OF x] set not_last by auto
    then show "x \<in> {0..<99}" by simp
  qed
  have len: "length (from_udp_ids 0 100) = 100" by simp
  have "rev ?src = rev (butlast ?src @ [99])" using app by (rule arg_cong)
  then have rev: "rev ?src = 99 # rev (butlast ?src)" by simp
  have "singe_recovery shuffle run c = within_half_second (\<lambda>c. run c (butlast ?src) ?target 0 (250 * MILLI)) c" for run
    by (simp add: singe_recovery_def rev nth_upto)
  then have "within_half_second (\<lambda>c. test_it C deps enc now api_now quiet c (butlast ?src) ?target 0 (250 * MILLI)) c = Ret (Inr ())"
    using pass by simp
  then obtain c1 c2 where run: "test_it C deps enc now api_now quiet c1 (butlast ?src) ?target 0 (250 * MILLI) = Ret (Inr c2)"
    using within_half_second_ran by blast
  have "(99, Missing) \<in> set ?target" by (rule set_update_memI) (simp add: len)
  from test_it_missing [OF ready src _ quiet _ run this] show False by simp
qed

theorem singe_recovery_fails_on_last_witness:
  "singe_recovery (\<lambda>xs. xs) (test_it tiny_codec byte_deps byte_enc (\<lambda>k. 0) (\<lambda>i. i) [Elapsed, Elapsed]) (demo_clock 5) \<noteq> Ret (Inr ())"
proof -
  have "last [0..99] = (99 :: int)" by (simp add: upto_rec2)
  then show ?thesis using singe_recovery_fails_on_last [OF byte_ready, of "\<lambda>xs. xs" "[Elapsed, Elapsed]"] by simp
qed

end
