(* ===== verification/Aggregator_Tests.thy ===== *)
theory Aggregator_Tests
  imports Sequencer_Tests Settling
begin

text \<open>
  The tests of \<open>subscriber/aggregator.rs\<close>: chunks of messages with pauses between them, and a receiver
  that writes down the aggregator's count whenever it is told of a change. The differences of what it
  wrote down are expected to be the sizes of the chunks.

  The pauses are not part of the model: what it says of the tests is which outcomes the steps of the
  tasks allow. Every datagram that is sent arrives; \<open>quiet\<close> is what the socket yields after them.
\<close>

section \<open>Helpers\<close>





section \<open>The receiver\<close>







section \<open>The tests\<close>




section \<open>Chunks may be divided\<close>


text \<open>What is written down when the chunks are \<open>parts\<close>.\<close>

fun running_sums :: "int \<Rightarrow> int list \<Rightarrow> int list" where
  "running_sums s [] = []"
| "running_sums s (p # parts) = (s + p) # running_sums (s + p) parts"

lemma running_sums_length [simp]: "length (running_sums s parts) = length parts"
  by (induction parts arbitrary: s) simp_all











section \<open>What the tests allow\<close>














end
