(* ===== verification/Grpc.thy ===== *)
theory Grpc
  imports Recovery
begin

text \<open>
  The rest of \<open>generated/recovery.rs\<close>: how the generated client and server are built and configured, and
  the server as a service over HTTP. \<open>tonic\<close> is a parameter: its \<open>Grpc\<close> values and what builds them, its
  sets of compression encodings, and what its server side makes of a method and an HTTP request.
\<close>

section \<open>The client\<close>

text \<open>\<open>tonic::client::Grpc<T>\<close>, an endpoint, and what a connection to one gives.\<close>

record ('t, 'g, 'u, 'c) grpc_builder =
  grpc_new :: "'t \<Rightarrow> 'g"
  grpc_with_origin :: "'t \<Rightarrow> 'u \<Rightarrow> 'g"
  grpc_send_compressed :: "'g \<Rightarrow> 'c \<Rightarrow> 'g"
  grpc_accept_compressed :: "'g \<Rightarrow> 'c \<Rightarrow> 'g"
  grpc_calls :: "'g \<Rightarrow> grpc_channel"

record ('d, 'p, 't, 'err) endpoints =
  endpoint_new :: "'d \<Rightarrow> ('err, 'p) result"
  endpoint_connect :: "'p \<Rightarrow> ('err, 't) result"

record 'g api_client =
  client_inner :: 'g

definition api_client_new :: "('t, 'g, 'u, 'c) grpc_builder \<Rightarrow> 't \<Rightarrow> 'g api_client" where
  "api_client_new G inner = \<lparr>client_inner = grpc_new G inner\<rparr>"

definition api_client_with_origin :: "('t, 'g, 'u, 'c) grpc_builder \<Rightarrow> 't \<Rightarrow> 'u \<Rightarrow> 'g api_client" where
  "api_client_with_origin G inner uri = \<lparr>client_inner = grpc_with_origin G inner uri\<rparr>"

text \<open>The builder is that of the intercepted service.\<close>

definition api_client_with_interceptor ::
  "('i, 'g, 'u, 'c) grpc_builder \<Rightarrow> ('t \<Rightarrow> 'f \<Rightarrow> 'i) \<Rightarrow> 't \<Rightarrow> 'f \<Rightarrow> 'g api_client" where
  "api_client_with_interceptor G intercepted_service inner interceptor =
     api_client_new G (intercepted_service inner interceptor)"

definition api_client_connect ::
  "('t, 'g, 'u, 'c) grpc_builder \<Rightarrow> ('d, 'p, 't, 'err) endpoints \<Rightarrow> 'd \<Rightarrow> ('err, 'g api_client) result" where
  "api_client_connect G E dst =
     and_then (endpoint_new E dst) (\<lambda>endpoint.
       and_then (endpoint_connect E endpoint) (\<lambda>conn. Inr (api_client_new G conn)))"

definition api_client_send_compressed :: "('t, 'g, 'u, 'c) grpc_builder \<Rightarrow> 'c \<Rightarrow> 'g api_client \<Rightarrow> 'g api_client" where
  "api_client_send_compressed G encoding client =
     client\<lparr>client_inner := grpc_send_compressed G (client_inner client) encoding\<rparr>"

definition api_client_accept_compressed :: "('t, 'g, 'u, 'c) grpc_builder \<Rightarrow> 'c \<Rightarrow> 'g api_client \<Rightarrow> 'g api_client" where
  "api_client_accept_compressed G encoding client =
     client\<lparr>client_inner := grpc_accept_compressed G (client_inner client) encoding\<rparr>"

text \<open>What a subscriber calls.\<close>

definition api_client_rpcs :: "('t, 'g, 'u, 'c) grpc_builder \<Rightarrow> 'g api_client \<Rightarrow> recovery_client" where
  "api_client_rpcs G client = recovery_api_client (grpc_calls G (client_inner client))"

section \<open>The server\<close>

text \<open>The trait \<open>RecoveryApi\<close>, its implementation by \<open>PublisherRecovery\<close>, and \<open>EnabledCompressionEncodings\<close>.\<close>

record 's recovery_api =
  api_get :: "sequence_request \<Rightarrow> 's \<Rightarrow> (status, raw_message) result \<times> 's"
  api_stream :: "sequence_request \<Rightarrow> 's \<Rightarrow> (status, (status, raw_message) result list) result \<times> 's"

definition publisher_recovery_api ::
  "('s, 'err) publisher_persistence \<Rightarrow> raw_message codec_deps \<Rightarrow> 's recovery_api" where
  "publisher_recovery_api P C = \<lparr>api_get = recovery_get_message P C, api_stream = recovery_stream_from P C\<rparr>"

record ('c, 'e) encodings =
  no_encodings :: 'e
  enable_encoding :: "'c \<Rightarrow> 'e \<Rightarrow> 'e"

text \<open>Cloning the \<open>Arc\<close> of a server shares the implementation: it is the same value.\<close>

record ('a, 'e) api_server =
  server_inner :: 'a
  accept_compression_encodings :: 'e
  send_compression_encodings :: 'e

definition api_server_from_arc :: "('c, 'e) encodings \<Rightarrow> 'a \<Rightarrow> ('a, 'e) api_server" where
  "api_server_from_arc E inner =
     \<lparr>server_inner = inner, accept_compression_encodings = no_encodings E,
      send_compression_encodings = no_encodings E\<rparr>"

definition api_server_new :: "('c, 'e) encodings \<Rightarrow> 'a \<Rightarrow> ('a, 'e) api_server" where
  "api_server_new E inner = api_server_from_arc E inner"

definition api_server_with_interceptor ::
  "('c, 'e) encodings \<Rightarrow> (('a, 'e) api_server \<Rightarrow> 'f \<Rightarrow> 'i) \<Rightarrow> 'a \<Rightarrow> 'f \<Rightarrow> 'i" where
  "api_server_with_interceptor E intercepted_service inner interceptor =
     intercepted_service (api_server_new E inner) interceptor"

definition api_server_accept_compressed :: "('c, 'e) encodings \<Rightarrow> 'c \<Rightarrow> ('a, 'e) api_server \<Rightarrow> ('a, 'e) api_server" where
  "api_server_accept_compressed E encoding srv =
     srv\<lparr>accept_compression_encodings := enable_encoding E encoding (accept_compression_encodings srv)\<rparr>"

definition api_server_send_compressed :: "('c, 'e) encodings \<Rightarrow> 'c \<Rightarrow> ('a, 'e) api_server \<Rightarrow> ('a, 'e) api_server" where
  "api_server_send_compressed E encoding srv =
     srv\<lparr>send_compression_encodings := enable_encoding E encoding (send_compression_encodings srv)\<rparr>"

definition api_server_clone :: "('a, 'e) api_server \<Rightarrow> ('a, 'e) api_server" where
  "api_server_clone srv =
     (let inner = server_inner srv
      in \<lparr>server_inner = inner, accept_compression_encodings = accept_compression_encodings srv,
          send_compression_encodings = send_compression_encodings srv\<rparr>)"

definition api_server_poll_ready :: "('a, 'e) api_server \<Rightarrow> ('err, unit) result run" where
  "api_server_poll_ready srv = Ret (Inr ())"

definition SERVICE_NAME :: string where
  "SERVICE_NAME = ''recovery.RecoveryApi''"

section \<open>Over HTTP\<close>

record 'b http_request =
  uri_path :: string
  request_body :: 'b

record 'b http_response =
  http_status :: nat
  http_headers :: "(string \<times> string) list"
  response_body :: 'b

text \<open>
  \<open>tonic::server::Grpc\<close>: what \<open>Grpc::new(codec).apply_compression_config(accept, send)\<close> makes of a method and
  a request, by \<open>unary\<close> and by \<open>server_streaming\<close>.
\<close>

record ('e, 'b, 's) grpc_server =
  empty_body :: 'b
  serve_unary :: "'e \<Rightarrow> 'e \<Rightarrow> (sequence_request \<Rightarrow> 's \<Rightarrow> (status, raw_message) result \<times> 's) \<Rightarrow>
    'b http_request \<Rightarrow> 's \<Rightarrow> 'b http_response \<times> 's"
  serve_streaming :: "'e \<Rightarrow> 'e \<Rightarrow>
    (sequence_request \<Rightarrow> 's \<Rightarrow> (status, (status, raw_message) result list) result \<times> 's) \<Rightarrow>
    'b http_request \<Rightarrow> 's \<Rightarrow> 'b http_response \<times> 's"

definition unimplemented :: "('e, 'b, 's) grpc_server \<Rightarrow> 'b http_response" where
  "unimplemented T = \<lparr>http_status = 200,
     http_headers = [(''grpc-status'', ''12''), (''content-type'', ''application/grpc'')], response_body = empty_body T\<rparr>"

definition api_server_call ::
  "('e, 'b, 's) grpc_server \<Rightarrow> ('s recovery_api, 'e) api_server \<Rightarrow> 'b http_request \<Rightarrow> 's \<Rightarrow> 'b http_response \<times> 's" where
  "api_server_call T srv req s =
     (if uri_path req = ''/recovery.RecoveryApi/GetMessage'' then
        serve_unary T (accept_compression_encodings srv) (send_compression_encodings srv)
          (api_get (server_inner srv)) req s
      else if uri_path req = ''/recovery.RecoveryApi/StreamFrom'' then
        serve_streaming T (accept_compression_encodings srv) (send_compression_encodings srv)
          (api_stream (server_inner srv)) req s
      else (unimplemented T, s))"

section \<open>The same service\<close>

text \<open>
  A server side of \<open>tonic\<close> that reads \<open>q\<close> from the request (whatever the encodings), runs the method on it
  and answers with what it returns.
\<close>

definition answers_with ::
  "('e, 'b, 's) grpc_server \<Rightarrow> ((status, raw_message) result \<Rightarrow> 'b http_response) \<Rightarrow>
   ((status, (status, raw_message) result list) result \<Rightarrow> 'b http_response) \<Rightarrow> 'b http_request \<Rightarrow> sequence_request \<Rightarrow> bool" where
  "answers_with T reply reply_stream req q \<longleftrightarrow>
     (\<forall>a e f s. serve_unary T a e f req s = (let (r, s') = f q s in (reply r, s'))) \<and>
     (\<forall>a e f s. serve_streaming T a e f req s = (let (r, s') = f q s in (reply_stream r, s')))"

fun http_answer ::
  "('e, 'b, 's) grpc_server \<Rightarrow> ((status, raw_message) result \<Rightarrow> 'b http_response) \<Rightarrow>
   ((status, (status, raw_message) result list) result \<Rightarrow> 'b http_response) \<Rightarrow> recovery_response \<Rightarrow> 'b http_response" where
  "http_answer T reply reply_stream (Unary r) = reply r"
| "http_answer T reply reply_stream (Server_Streaming r) = reply_stream r"
| "http_answer T reply reply_stream (Grpc_Status n) = unimplemented T"

text \<open>
  Then the generated service over HTTP is the dispatch \<open>recovery_server_call\<close> on the publisher's persistence,
  however the server was configured.
\<close>

lemma api_server_answers:
  assumes "answers_with T reply reply_stream req q" "server_inner srv = publisher_recovery_api P C"
  shows "api_server_call T srv req s =
    (let (r, s') = recovery_server_call P C (uri_path req) q s in (http_answer T reply reply_stream r, s'))"
proof -
  have T: "serve_unary T a e f req s = (let (r, s') = f q s in (reply r, s'))"
    "serve_streaming T a e f' req s = (let (r, s') = f' q s in (reply_stream r, s'))" for a e f f' s
    using assms(1) unfolding answers_with_def by blast+
  show ?thesis
  proof (cases "uri_path req = ''/recovery.RecoveryApi/GetMessage''")
    case True
    show ?thesis unfolding api_server_call_def recovery_server_call_def if_P [OF True] T assms(2)
      by (simp add: publisher_recovery_api_def case_prod_beta Let_def)
  next
    case False
    then show ?thesis unfolding api_server_call_def recovery_server_call_def if_not_P [OF False] T assms(2)
      by (simp add: publisher_recovery_api_def case_prod_beta Let_def)
  qed
qed

text \<open>What the builders leave: the implementation, whatever is enabled in whatever order; a clone is the same server.\<close>

lemma api_server_simps [simp]:
  "server_inner (api_server_new E inner) = inner"
  "server_inner (api_server_accept_compressed E c srv) = server_inner srv"
  "server_inner (api_server_send_compressed E c srv) = server_inner srv"
  "api_server_clone srv = srv"
  by (simp_all add: api_server_new_def api_server_from_arc_def api_server_accept_compressed_def
      api_server_send_compressed_def api_server_clone_def Let_def)

lemma api_server_builders_commute:
  "api_server_accept_compressed E c (api_server_send_compressed E c' srv) =
     api_server_send_compressed E c' (api_server_accept_compressed E c srv)"
  by (simp add: api_server_accept_compressed_def api_server_send_compressed_def)

text \<open>The generated paths are the service's name and a method's.\<close>

lemma service_paths:
  "''/recovery.RecoveryApi/GetMessage'' = ''/'' @ SERVICE_NAME @ ''/GetMessage''"
  "''/recovery.RecoveryApi/StreamFrom'' = ''/'' @ SERVICE_NAME @ ''/StreamFrom''"
  by (simp_all add: SERVICE_NAME_def)

end
