(* ===== verification/Spec2Isabelle.thy ===== *)
theory Spec2Isabelle
  imports Settling Restart Example_Theorems Unit_Tests Aggregator_Tests Grpc
begin

text \<open>
  Grapevine (\<open>src/grapevine\<close>) shares an application's state between processes. A publisher applies
  deltas to its state, stamps each with a sequence, stores it in a log and multicasts it over UDP;
  heartbeats use up sequences of the same counter. A subscriber puts the datagrams back in order,
  recovers lost ones over gRPC from the publisher's log, and applies the deltas to its own copy.
  This development models these parts from their source and proves what each promises, and what
  they promise together.

  \<^bold>\<open>Theories and sources\<close> (paths under \<open>src/grapevine/src\<close> unless they say otherwise).

  \<^item> \<open>Prelude\<close>: outcomes of calls (\<open>Ret\<close>, \<open>Panic\<close>, \<open>Pending\<close>), results and \<open>?\<close>, signed machine
    integers, \<open>Reverse\<close>, decimal formatting. \<open>BTree_Map\<close>: the operations of \<open>BTreeMap\<close> that the crate uses.
  \<^item> \<open>Proto\<close> (\<open>generated/grapevine.rs\<close>, \<open>proto.rs\<close>), \<open>Message\<close> (\<open>subscriber/message.rs\<close>): the messages
    and their order.
  \<^item> \<open>Codec\<close> (\<open>codec/\<close>, \<open>constants.rs\<close>): the frame of a message, with the decoder's state and leftovers.
    The locale \<open>frame_codec\<close> is what publisher and subscriber rely on.
  \<^item> \<open>Persistence\<close> (\<open>persistence/\<close>): the two traits, the in-memory and the sqlite stores. \<open>Master_Log\<close>:
    the contract of a publisher's log as the locales \<open>master_log\<close> and \<open>resumable_log\<close>, interpreted on both
    stores (the in-memory one is not resumable).
  \<^item> \<open>State_Sync\<close> (\<open>state_sync.rs\<close>, the tree of \<open>proto.rs\<close> and \<open>generated/tree_state.rs\<close>): the trait and
    the crate's own instance.
  \<^item> \<open>Publisher\<close> (\<open>publisher/mod.rs\<close>, \<open>context.rs\<close>, \<open>heartbeat.rs\<close>, \<open>state_wrapper.rs\<close>, \<open>util.rs\<close>): one
    function per operation; the relation \<open>system_step\<close> interleaves the application's task and the
    heartbeat task at their awaits. \<open>Publishing\<close>: its invariant, what is lost for good, and the log as an
    explanation of the state. \<open>Publisher_Theorems\<close>: its properties.
  \<^item> \<open>Recovery\<close> (\<open>publisher/recovery.rs\<close>, \<open>generated/recovery.rs\<close>): service, dispatch and client stubs, and
    what a client sees through a channel that carries its requests to the server. \<open>Grpc\<close> (the rest of
    \<open>generated/recovery.rs\<close>): how client and server are built and configured, and that the server over HTTP
    is that dispatch however it was configured.
  \<^item> \<open>Std_Heap\<close>: the standard library's binary heap as it is implemented. \<open>Min_Max_Heap\<close>
    (\<open>subscriber/min_max_heap.rs\<close>): the reorder buffer, with the locale of its contract.
  \<^item> \<open>Sequencer\<close> (\<open>subscriber/sequencer.rs\<close>): \<open>next\<close> as a sequence of blocks. \<open>Sequencing\<close>: in order and
    exactly once, against any log that the traffic comes from. \<open>Delivery\<close>: progress, absence of panics, the
    block at a hole. \<open>Catch_Up\<close>: how far one recovery goes, and where its items come from.
    \<open>Subscriber_Theorems\<close>: the properties.
  \<^item> \<open>Aggregator\<close> (\<open>subscriber/aggregator.rs\<close>): the two tasks and the bounded channel between them.
  \<^item> \<open>Replication\<close>, \<open>Replication_Theorems\<close>, \<open>Aggregator_Theorems\<close>: publisher, wire, recovery, sequencer and
    aggregator together. \<open>Past_States\<close>: the states a publisher went through, which are what a replica
    shows. \<open>Convergence\<close>, \<open>Settling\<close>: subscribers and aggregators catch up with a publisher that goes on.
    \<open>Restart\<close>: a subscriber that outlives its publisher.
  \<^item> \<open>Order_Book\<close>, \<open>Order_Book_Theorems\<close> (\<open>src/examples/src\<close>): the example application and its random deltas.
  \<^item> \<open>Transport\<close> (\<open>transport/multicast.rs\<close>): how the sockets are set up.
  \<^item> \<open>Example_Programs\<close>, \<open>Example_Theorems\<close> (\<open>src/examples/order_book_publisher.rs\<close>,
    \<open>order_book_subscriber.rs\<close>): the two programs that run all of the above, from \<open>main\<close> on.
  \<^item> \<open>Unit_Tests\<close>, \<open>Sequencer_Tests\<close>, \<open>Aggregator_Tests\<close>: the tests of the crate (the \<open>tests\<close> modules of
    \<open>util.rs\<close>, \<open>state_sync.rs\<close>, \<open>publisher/\<close>, \<open>transport/multicast.rs\<close>, \<open>subscriber/sequencer.rs\<close> and
    \<open>subscriber/aggregator.rs\<close>, and \<open>src/grapevine-tests/tests/sqlite_persistence.rs\<close>) as programs over the
    definitions above, and that they pass, or when one of them does not; of the aggregator's tests, which
    outcomes their interleavings allow.

  \<^bold>\<open>What the properties show\<close>. The subscriber delivers the log's entries in order and exactly once
  whatever is lost, repeated, reordered or late, makes progress without recovery and by it, and never
  panics on timestamps after the epoch. The publisher stores before it sends, one message for each
  sequence, in every interleaving and under every fault, and its state is the replay of its log. So a
  replica is never wrong, only late: at every moment, what a subscriber has read replays to a state the
  publisher was in, what an aggregator holds and has announced are such states in their order, and a
  subscriber that has caught up has the present one. And it does catch up: from the moment that its
  deadline has passed and the recovery service works, it passes everything it had heard, while the
  publisher goes on, and so does an aggregator on it, from any point of any run of its tasks. The price
  is stated too: a sequence that was stamped but not stored blocks subscribers for ever, a subscriber
  that goes on across a restart mixes the states of two lives, and an aggregator stops at its first
  error. The example publisher's book never crosses, and what its subscriber has printed is at every
  moment a book it had.

  \<^bold>\<open>Conventions\<close>. Machine integers wrap around as in the release profile; where the debug profile would
  panic, the wrapped value differs. An \<open>i64\<close> is an integer in the range of \<open>in_i64\<close>, a \<open>u32\<close> or \<open>u8\<close> a
  machine word. Bounds: properties of a publisher's run ask for a log below sequence \<open>2 ^ 62\<close> at the start
  and fewer than \<open>2 ^ 61\<close> steps, so that no sequence wraps; at one step each nanosecond that is 73 years. The
  random walk of the order book asks for at most 43 million deltas, so that no quantity of 99 for each
  delta wraps. A stream that runs for ever is a function of the number of items asked for, a loop with an
  exit that depends on the environment a function of the script that the environment plays; there is no
  fuel: every other loop is a total function with a measure (the length of the buffer, of the socket's
  script, the steps that the producer has left).

  \<^bold>\<open>Parameters\<close>. Code that is not under \<open>src\<close> is an argument: \<open>prost\<close> (encoding and decoding of
  messages), \<open>chrono\<close> (the conversion of timestamps, with its documented behaviour as \<open>chrono_spec\<close>), the
  application's state, \<open>tonic\<close> (a channel that carries requests to the server and its answers back, or
  fails), the faults of database and sockets, clocks and random draws. Hypotheses on them are that
  decoding undoes encoding, that a message of the log parses, and what their documentation says.

  \<^bold>\<open>Not modelled\<close>. Build scripts; module lists and crate documentation; constructors that only move their
  arguments into a struct; the test that sends bytes through a real multicast socket. The recovery tests of
  the sequencer are defined, but that they pass depends on the time between datagrams and is not proved;
  nor are the pauses of the aggregator's tests part of the model. The lock of the
  shared state is modelled by the atomicity of the critical section it protects; logging is left out.
\<close>

end
